(* ===== verification/Prelude.thy ===== *)
theory Prelude
  imports
    Complex_Main
    "HOL-Library.Word"
    "HOL-Library.Signed_Division"
    "HOL-Library.Char_ord"
    "HOL-Library.Code_Target_Numeral"
begin

text \<open>
  What the component theories share: the machine integers of the C++ sources, the
  callback-driven iteration \<open>for_each\<close> of every container in the library, the few
  generic lemmas on sorted association lists that the ordered containers need, and the
  named collections through which later theories pass facts to the simplifier.

  Integer model.  A C++ \<open>std::int64_t\<close> on which the code computes with overflow checks
  is an \<open>int\<close> together with the range predicate \<open>i64\<close>; every place where the code itself
  compares against the limits does so here, and range lemmas show that the unchecked
  operations stay inside the range.  Unsigned 64- and 32-bit quantities on which the
  code relies on wrap-around (hashes, CRC states, sequence numbers, counters) are
  machine words.
\<close>

section \<open>Machine integers\<close>

type_synonym u8 = "8 word"
type_synonym u32 = "32 word"
type_synonym u64 = "64 word"

definition i64_min :: int where "i64_min = - 9223372036854775808"
definition i64_max :: int where "i64_max = 9223372036854775807"

definition i64 :: "int \<Rightarrow> bool" where
  "i64 x \<longleftrightarrow> i64_min \<le> x \<and> x \<le> i64_max"

named_theorems int_limits \<open>the limits of the signed 64-bit range, unfolded\<close>
named_theorems wf_intros \<open>introduction rules for well-formedness invariants\<close>

lemmas [int_limits] = i64_min_def i64_max_def i64_def

lemma i64_abs: "\<bar>m\<bar> \<le> i64_max \<Longrightarrow> i64 m"
  by (auto simp: int_limits)

lemma le_div_iff_mult_le:
  assumes "0 < (b :: int)"
  shows "a \<le> m div b \<longleftrightarrow> a * b \<le> m"
proof
  assume "a \<le> m div b"
  then have "a * b \<le> m div b * b"
    using assms by (simp add: mult_right_mono)
  also have "\<dots> \<le> m"
    using assms pos_mod_sign [of b m] div_mult_mod_eq [of m b] by linarith
  finally show "a * b \<le> m" .
next
  assume "a * b \<le> m"
  then have "a * b div b \<le> m div b"
    using assms by (rule zdiv_mono1)
  then show "a \<le> m div b"
    using assms by simp
qed

text \<open>The truncating division of C++ on the non-negative operands the code uses it for.\<close>

lemma sdiv_nonneg: "0 \<le> a \<Longrightarrow> 0 \<le> (b :: int) \<Longrightarrow> a sdiv b = a div b"
  by (cases "a = 0 \<or> b = 0") (auto simp: signed_divide_int_def sgn_if)

lemma smod_nonneg: "0 \<le> a \<Longrightarrow> 0 \<le> (b :: int) \<Longrightarrow> a smod b = a mod b"
  by (simp add: smod_int_alt_def sgn_if)

text \<open>\<open>static_cast<std::uint64_t>(v)\<close> of a signed value, read as a number.\<close>

definition u64_of :: "int \<Rightarrow> int" where
  "u64_of v = v mod 18446744073709551616"

lemma u64_of_range: "0 \<le> u64_of v" "u64_of v < 18446744073709551616"
  by (simp_all add: u64_of_def)

text \<open>The magnitude taken in unsigned space, \<open>v < 0 ? 0ULL - bits : bits\<close>.\<close>

definition magnitude_u64 :: "int \<Rightarrow> int" where
  "magnitude_u64 v = (let bits = u64_of v in if v < 0 then u64_of (0 - bits) else bits)"

lemma u64_of_nonneg: "i64 v \<Longrightarrow> 0 \<le> v \<Longrightarrow> u64_of v = v"
  by (simp add: u64_of_def int_limits)

lemma u64_of_neg: "i64 v \<Longrightarrow> v < 0 \<Longrightarrow> u64_of v = v + 18446744073709551616"
proof -
  assume v: "i64 v" "v < 0"
  have "u64_of v = (v + 18446744073709551616) mod 18446744073709551616"
    by (simp add: u64_of_def)
  also have "\<dots> = v + 18446744073709551616"
    using v by (intro mod_pos_pos_trivial) (auto simp: int_limits)
  finally show ?thesis .
qed

lemma magnitude_u64_abs: "i64 v \<Longrightarrow> magnitude_u64 v = \<bar>v\<bar>"
proof (cases "v < 0")
  case True
  assume v: "i64 v"
  have "u64_of (0 - (v + 18446744073709551616)) = - v mod 18446744073709551616"
    using mod_add_self2 [of "- v - 18446744073709551616" "18446744073709551616"]
    by (simp add: u64_of_def algebra_simps)
  also have "\<dots> = - v"
    using True v by (intro mod_pos_pos_trivial) (auto simp: int_limits)
  finally show ?thesis
    using True v by (simp add: magnitude_u64_def u64_of_neg)
next
  case False
  assume "i64 v"
  with False show ?thesis by (simp add: magnitude_u64_def u64_of_nonneg)
qed

lemma u64_of_inj: "i64 a \<Longrightarrow> i64 b \<Longrightarrow> u64_of a = u64_of b \<Longrightarrow> a = b"
  by (cases "a < 0"; cases "b < 0") (auto simp: u64_of_neg u64_of_nonneg int_limits)

section \<open>Iteration with a callback\<close>

text \<open>
  Every container visits its elements through a callback that returns \<open>false\<close> to stop.
  The callback's captured state is threaded explicitly.
\<close>

fun visit :: "('a \<Rightarrow> 'st \<Rightarrow> bool \<times> 'st) \<Rightarrow> 'a list \<Rightarrow> 'st \<Rightarrow> 'st" where
  "visit f [] st = st"
| "visit f (x # xs) st =
     (case f x st of (go, st') \<Rightarrow> if go then visit f xs st' else st')"

text \<open>The callback that appends every element and never stops.\<close>

definition push_back :: "'a \<Rightarrow> 'a list \<Rightarrow> bool \<times> 'a list" where
  "push_back x acc = (True, acc @ [x])"

lemma visit_push_back: "visit push_back xs acc = acc @ xs"
  by (induction xs arbitrary: acc) (auto simp: push_back_def)

lemma visit_always: "visit (\<lambda>x st. (True, g x st)) xs st = fold g xs st"
  by (induction xs arbitrary: st) auto

section \<open>Sorted association lists\<close>

text \<open>
  The reference container is a \<open>std::map\<close>, the fast one keeps a sorted vector beside its
  window.  Both are ascending association lists; an update splits the list at the key.
\<close>

definition keys :: "('k \<times> 'v) list \<Rightarrow> 'k list" where
  "keys m = map fst m"

abbreviation ascending :: "('k::linorder \<times> 'v) list \<Rightarrow> bool" where
  "ascending m \<equiv> sorted_wrt (<) (keys m)"

definition amap_set :: "'k::linorder \<Rightarrow> 'v \<Rightarrow> ('k \<times> 'v) list \<Rightarrow> ('k \<times> 'v) list" where
  "amap_set k v m =
     takeWhile (\<lambda>p. fst p < k) m @ (k, v) # dropWhile (\<lambda>p. fst p \<le> k) m"

definition amap_erase :: "'k::linorder \<Rightarrow> ('k \<times> 'v) list \<Rightarrow> ('k \<times> 'v) list" where
  "amap_erase k m = filter (\<lambda>p. fst p \<noteq> k) m"

lemma keys_simps [simp]:
  "keys [] = []" "keys (p # m) = fst p # keys m" "keys (m @ n) = keys m @ keys n"
  by (simp_all add: keys_def)

lemma length_keys [simp]: "length (keys m) = length m"
  by (simp add: keys_def)

lemma keys_filter_in: "x \<in> set (keys (filter P m)) \<Longrightarrow> x \<in> set (keys m)"
  by (auto simp: keys_def)

lemma ascending_filter: "ascending m \<Longrightarrow> ascending (filter P m)"
  by (induction m) (auto dest: keys_filter_in)

lemma ascending_distinct: "ascending m \<Longrightarrow> distinct (keys m)"
  by (simp add: strict_sorted_iff)

lemma amap_set_Cons:
  "amap_set k v (p # m) =
     (if fst p < k then p # amap_set k v m
      else (k, v) # dropWhile (\<lambda>q. fst q \<le> k) (p # m))"
  by (auto simp: amap_set_def not_less less_imp_le)

lemma keys_dropWhile_in: "x \<in> set (keys (dropWhile P m)) \<Longrightarrow> x \<in> set (keys m)"
  by (auto simp: keys_def dest: set_dropWhileD)

lemma dropWhile_le_ascending:
  "ascending m \<Longrightarrow> ascending (dropWhile (\<lambda>q. fst q \<le> k) m) \<and>
     (\<forall>x \<in> set (keys (dropWhile (\<lambda>q. fst q \<le> k) m)). k < x)"
proof (induction m)
  case (Cons p m)
  show ?case
  proof (cases "fst p \<le> k")
    case True
    with Cons show ?thesis by simp
  next
    case False
    with Cons.prems show ?thesis by (auto simp: not_le dest: less_trans)
  qed
qed simp

lemma dropWhile_le_id: "ascending (p # m) \<Longrightarrow> k \<le> fst p \<Longrightarrow> dropWhile (\<lambda>q. fst q \<le> k) m = m"
  by (cases m) force+

lemma keys_amap_set: "ascending m \<Longrightarrow> set (keys (amap_set k v m)) = insert k (set (keys m))"
proof (induction m)
  case Nil
  then show ?case by (simp add: amap_set_def)
next
  case (Cons p m)
  show ?case
  proof (cases "fst p < k")
    case True
    with Cons show ?thesis by (auto simp: amap_set_Cons)
  next
    case False
    then have "dropWhile (\<lambda>q. fst q \<le> k) m = m"
      using Cons.prems by (intro dropWhile_le_id [of p]) auto
    with False show ?thesis by (auto simp: amap_set_Cons)
  qed
qed

lemma ascending_amap_set: "ascending m \<Longrightarrow> ascending (amap_set k v m)"
proof (induction m)
  case Nil
  then show ?case by (simp add: amap_set_def)
next
  case (Cons p m)
  then show ?case
    using dropWhile_le_ascending [of "p # m" k]
    by (auto simp: amap_set_Cons keys_amap_set)
qed

lemma set_amap_set: "ascending m \<Longrightarrow> set (amap_set k v m) = insert (k, v) {e \<in> set m. fst e \<noteq> k}"
proof (induction m)
  case (Cons p m)
  have gt: "\<forall>e \<in> set m. fst p < fst e" using Cons.prems by (auto simp: keys_def)
  have "dropWhile (\<lambda>q. fst q \<le> k) m = m" if "k \<le> fst p"
    using Cons.prems that by (intro dropWhile_le_id [of p]) auto
  with Cons gt show ?case by (auto simp: amap_set_Cons)
qed (simp add: amap_set_def)

lemma map_of_amap_set: "ascending m \<Longrightarrow> map_of (amap_set k v m) = (map_of m)(k \<mapsto> v)"
proof (induction m)
  case Nil
  then show ?case by (auto simp: amap_set_def)
next
  case (Cons p m)
  obtain a b where p: "p = (a, b)" by (cases p)
  have "dropWhile (\<lambda>q. fst q \<le> k) m = m" if "k \<le> a"
    using Cons.prems that p by (intro dropWhile_le_id [of p]) auto
  with Cons p show ?case by (auto simp: amap_set_Cons)
qed

lemma map_of_amap_erase: "map_of (amap_erase k m) = (map_of m)(k := None)"
  by (induction m) (auto simp: amap_erase_def)

lemma ascending_amap_erase: "ascending m \<Longrightarrow> ascending (amap_erase k m)"
  by (simp add: amap_erase_def ascending_filter)

text \<open>Two ascending lists with the same lookups are the same list.\<close>

lemma ascending_map_of_unique:
  "ascending m \<Longrightarrow> ascending n \<Longrightarrow> map_of m = map_of n \<Longrightarrow> m = n"
proof -
  assume a: "ascending m" "ascending n" and eq: "map_of m = map_of n"
  have d: "distinct (map fst m)" "distinct (map fst n)"
    using a ascending_distinct by (auto simp: keys_def)
  have "set (keys m) = set (keys n)"
    using arg_cong [OF eq, of dom] by (simp add: dom_map_of_conv_image_fst keys_def)
  then have k: "keys m = keys n"
    using a by (metis strict_sorted_equal)
  have "m ! i = n ! i" if "i < length m" for i
  proof -
    obtain x y where mi: "m ! i = (x, y)" by (cases "m ! i")
    obtain x' y' where ni: "n ! i = (x', y')" by (cases "n ! i")
    have l: "length n = length m" using k by (metis length_keys)
    have "x = x'"
      using arg_cong [OF k, of "\<lambda>l. l ! i"] mi ni l that by (simp add: keys_def)
    moreover have "map_of m x = Some y" "map_of n x' = Some y'"
      using mi ni l that d by (metis map_of_is_SomeI nth_mem)+
    ultimately show ?thesis using mi ni eq by simp
  qed
  then show "m = n"
    using k by (metis length_keys nth_equalityI)
qed

end
