(* ===== verification/Fixed.thy ===== *)
theory Fixed
  imports Prelude
begin

text \<open>
  \<open>include/crossbook/fixed.hpp\<close>: exact fixed-point decimals.  The scanner state of
  \<open>parse_fixed\<close> is a record, its three digit loops are structural recursions on the
  remaining text, and its early returns are the branches of the result.  Buffers that the
  code fills from the back are strings built by prepending.
\<close>

section \<open>Data\<close>

definition kMaxScale :: nat where "kMaxScale = 18"

definition kPow10 :: "int list" where
  "kPow10 = [1, 10, 100, 1000, 10000, 100000, 1000000, 10000000, 100000000, 1000000000,
     10000000000, 100000000000, 1000000000000, 10000000000000, 100000000000000,
     1000000000000000, 10000000000000000, 100000000000000000, 1000000000000000000]"

datatype parse_error =
  ParseOk | ParseEmpty | ParseMalformed | ParsePrecisionLoss | ParseOverflow | ParseScaleTooLarge

record parse_result =
  pr_mantissa :: int
  pr_error :: parse_error

definition parse_result :: "int \<Rightarrow> parse_error \<Rightarrow> parse_result" where
  "parse_result m e = \<lparr>pr_mantissa = m, pr_error = e\<rparr>"

definition pr_ok :: "parse_result \<Rightarrow> bool" where
  "pr_ok r \<longleftrightarrow> pr_error r = ParseOk"

lemma pr_simps [simp]:
  "pr_mantissa (parse_result m e) = m" "pr_error (parse_result m e) = e"
  "pr_ok (parse_result m e) \<longleftrightarrow> e = ParseOk"
  "parse_result m e = parse_result m' e' \<longleftrightarrow> m = m' \<and> e = e'"
  by (auto simp: parse_result_def pr_ok_def)

section \<open>Checked arithmetic and digits\<close>

definition is_digit :: "char \<Rightarrow> bool" where
  "is_digit c \<longleftrightarrow> CHR ''0'' \<le> c \<and> c \<le> CHR ''9''"

text \<open>\<open>text[i] - '0'\<close> and \<open>'0' + d\<close>.\<close>

definition digit_value :: "char \<Rightarrow> nat" where
  "digit_value c = of_char c - 48"

definition digit_char :: "nat \<Rightarrow> char" where
  "digit_char d = char_of (48 + d)"

text \<open>Multiplication and addition that refuse instead of wrapping: \<open>None\<close> is \<open>false\<close>.\<close>

definition checked_mul :: "int \<Rightarrow> int \<Rightarrow> int option" where
  "checked_mul a b =
     (if a = 0 \<or> b = 0 then Some 0
      else if a > i64_max sdiv b then None else Some (a * b))"

definition checked_add :: "int \<Rightarrow> int \<Rightarrow> int option" where
  "checked_add a b = (if a > i64_max - b then None else Some (a + b))"

section \<open>Formatting\<close>

text \<open>The do-while loop that writes at least one decimal digit, last digit first.\<close>

fun write_decimal :: "nat \<Rightarrow> string \<Rightarrow> string" where
  "write_decimal n acc =
     (let acc' = digit_char (n mod 10) # acc; n' = n div 10
      in if n' \<noteq> 0 then write_decimal n' acc' else acc')"

declare write_decimal.simps [simp del]

text \<open>The counted loop of the fraction; it also returns the magnitude left over.\<close>

fun write_fraction :: "nat \<Rightarrow> nat \<Rightarrow> string \<Rightarrow> nat \<times> string" where
  "write_fraction 0 n acc = (n, acc)"
| "write_fraction (Suc k) n acc = write_fraction k (n div 10) (digit_char (n mod 10) # acc)"

definition kMaxFormattedFixed :: nat where "kMaxFormattedFixed = 24"

definition format_fixed_into :: "int \<Rightarrow> nat \<Rightarrow> string" where
  "format_fixed_into mantissa scale =
     (let negative = mantissa < 0;
          magnitude = nat (magnitude_u64 mantissa);
          (magnitude', buf) = write_fraction scale magnitude [];
          buf' = (if scale > 0 then CHR ''.'' # buf else buf);
          buf'' = write_decimal magnitude' buf'
      in if negative then CHR ''-'' # buf'' else buf'')"

definition format_fixed :: "int \<Rightarrow> nat \<Rightarrow> string" where
  "format_fixed mantissa scale = format_fixed_into mantissa scale"

section \<open>Parsing\<close>

record scan =
  sc_digits :: int
  sc_fractional :: int
  sc_any :: bool
  sc_overflowed :: bool

definition scan_init :: scan where
  "scan_init = \<lparr>sc_digits = 0, sc_fractional = 0, sc_any = False, sc_overflowed = False\<rparr>"

definition push_digit :: "char \<Rightarrow> scan \<Rightarrow> scan" where
  "push_digit c sc =
     (if sc_overflowed sc then sc
      else case checked_mul (sc_digits sc) 10 of
             None \<Rightarrow> sc\<lparr>sc_overflowed := True\<rparr>
           | Some scaled \<Rightarrow>
               (case checked_add scaled (int (digit_value c)) of
                  None \<Rightarrow> sc\<lparr>sc_overflowed := True\<rparr>
                | Some d \<Rightarrow> sc\<lparr>sc_digits := d\<rparr>))"

fun scan_integer :: "string \<Rightarrow> scan \<Rightarrow> string \<times> scan" where
  "scan_integer [] sc = ([], sc)"
| "scan_integer (c # cs) sc =
     (if is_digit c then scan_integer cs (push_digit c (sc\<lparr>sc_any := True\<rparr>))
      else (c # cs, sc))"

fun scan_fraction :: "string \<Rightarrow> scan \<Rightarrow> string \<times> scan" where
  "scan_fraction [] sc = ([], sc)"
| "scan_fraction (c # cs) sc =
     (if is_digit c
      then scan_fraction cs
             (push_digit c (sc\<lparr>sc_any := True, sc_fractional := sc_fractional sc + 1\<rparr>))
      else (c # cs, sc))"

text \<open>The exponent accumulates with a clamp at 1000.\<close>

fun scan_exponent :: "string \<Rightarrow> int \<Rightarrow> string \<times> int" where
  "scan_exponent [] e = ([], e)"
| "scan_exponent (c # cs) e =
     (if is_digit c
      then (let e' = e * 10 + int (digit_value c)
            in scan_exponent cs (if e' > 1000 then 1000 else e'))
      else (c # cs, e))"

text \<open>An optional sign: whether it was a minus, and the text after it.\<close>

definition parse_sign :: "string \<Rightarrow> bool \<times> string" where
  "parse_sign cs =
     (case cs of
        c # rest \<Rightarrow> if c = CHR ''+'' \<or> c = CHR ''-'' then (c = CHR ''-'', rest) else (False, cs)
      | [] \<Rightarrow> (False, cs))"

text \<open>The optional exponent; \<open>None\<close> is the malformed return inside it.\<close>

definition parse_exponent :: "string \<Rightarrow> (int \<times> string) option" where
  "parse_exponent cs =
     (case cs of
        c # rest \<Rightarrow>
          (if c = CHR ''e'' \<or> c = CHR ''E'' then
             (let (exp_negative, ds) = parse_sign rest in
              case ds of
                [] \<Rightarrow> None
              | d # _ \<Rightarrow>
                  (if \<not> is_digit d then None
                   else (let (rest', e) = scan_exponent ds 0
                         in Some (if exp_negative then - e else e, rest'))))
           else Some (0, cs))
      | [] \<Rightarrow> Some (0, []))"

text \<open>From the scanned digits to the mantissa at the scale.\<close>

definition shift_mantissa :: "bool \<Rightarrow> int \<Rightarrow> int \<Rightarrow> parse_result" where
  "shift_mantissa negative digits shift =
     (let done = (\<lambda>m. parse_result (if negative then - m else m) ParseOk)
      in if shift > 0 then
           (if shift > int kMaxScale then parse_result 0 ParseOverflow
            else case checked_mul digits (kPow10 ! nat shift) of
                   None \<Rightarrow> parse_result 0 ParseOverflow
                 | Some m \<Rightarrow> done m)
         else if shift < 0 then
           (let drop = - shift in
            if drop > int kMaxScale then
              (if digits = 0 then parse_result 0 ParseOk else parse_result 0 ParsePrecisionLoss)
            else (let divisor = kPow10 ! nat drop in
                  if digits smod divisor \<noteq> 0 then parse_result 0 ParsePrecisionLoss
                  else done (digits sdiv divisor)))
         else done digits)"

definition parse_fixed :: "string \<Rightarrow> nat \<Rightarrow> parse_result" where
  "parse_fixed text scale =
     (if scale > kMaxScale then parse_result 0 ParseScaleTooLarge
      else if text = [] then parse_result 0 ParseEmpty
      else
        (let (negative, t1) = parse_sign text;
             (t2, sc1) = scan_integer t1 scan_init;
             (t3, sc) = (case t2 of
                           c # rest \<Rightarrow> if c = CHR ''.'' then scan_fraction rest sc1 else (t2, sc1)
                         | [] \<Rightarrow> (t2, sc1))
         in if \<not> sc_any sc then parse_result 0 ParseMalformed
            else case parse_exponent t3 of
                   None \<Rightarrow> parse_result 0 ParseMalformed
                 | Some (exponent, t4) \<Rightarrow>
                     (if t4 \<noteq> [] then parse_result 0 ParseMalformed
                      else if sc_overflowed sc then parse_result 0 ParseOverflow
                      else shift_mantissa negative (sc_digits sc)
                             (int scale + exponent - sc_fractional sc))))"

section \<open>Canonical spelling and checksum tokens\<close>

definition strip_plus :: "string \<Rightarrow> string" where
  "strip_plus text = (case text of c # rest \<Rightarrow> if c = CHR ''+'' then rest else text | [] \<Rightarrow> [])"

definition is_canonical_at_scale :: "string \<Rightarrow> nat \<Rightarrow> bool" where
  "is_canonical_at_scale text scale =
     (let text' = strip_plus text; parsed = parse_fixed text' scale
      in if \<not> pr_ok parsed then False
         else format_fixed_into (pr_mantissa parsed) scale = text')"

text \<open>The overload for a token the caller has already parsed.\<close>

definition is_canonical_parsed :: "string \<Rightarrow> nat \<Rightarrow> int \<Rightarrow> bool" where
  "is_canonical_parsed text scale mantissa =
     (let text' = strip_plus text in format_fixed_into mantissa scale = text')"

text \<open>\<open>std::to_string\<close> of an unsigned magnitude is its decimal digits.\<close>

definition checksum_token :: "int \<Rightarrow> string" where
  "checksum_token mantissa = write_decimal (nat (magnitude_u64 mantissa)) []"

section \<open>What the loops compute\<close>

lemma is_digit_code: "is_digit c \<longleftrightarrow> 48 \<le> (of_char c :: nat) \<and> (of_char c :: nat) \<le> 57"
  by (simp add: is_digit_def less_eq_char_def)

lemma digit_value_le: "is_digit c \<Longrightarrow> digit_value c \<le> 9"
  by (auto simp: is_digit_code digit_value_def)

lemma digit_char [simp]:
  "d < 10 \<Longrightarrow> is_digit (digit_char d)" "d < 10 \<Longrightarrow> digit_value (digit_char d) = d"
  by (auto simp: is_digit_code digit_value_def digit_char_def)

lemma digit_char_value: "is_digit c \<Longrightarrow> digit_char (digit_value c) = c"
  by (auto simp: is_digit_code digit_value_def digit_char_def)

lemma not_digit [simp]:
  "\<not> is_digit CHR ''.''" "\<not> is_digit CHR ''+''" "\<not> is_digit CHR ''-''"
  "\<not> is_digit CHR ''e''" "\<not> is_digit CHR ''E''"
  by (simp_all add: is_digit_code)

text \<open>The number a digit string denotes, the meaning every loop below is measured against.\<close>

definition digits_value :: "string \<Rightarrow> nat" where
  "digits_value cs = foldl (\<lambda>n c. 10 * n + digit_value c) 0 cs"

lemma digits_value_from:
  "foldl (\<lambda>n c. 10 * n + digit_value c) a cs = a * 10 ^ length cs + digits_value cs"
proof (induction cs arbitrary: a)
  case Nil
  then show ?case by (simp add: digits_value_def)
next
  case (Cons c cs)
  show ?case
    using Cons [of "10 * a + digit_value c"] Cons [of "digit_value c"]
    by (simp add: digits_value_def algebra_simps)
qed

lemma digits_value_append:
  "digits_value (xs @ ys) = digits_value xs * 10 ^ length ys + digits_value ys"
  using digits_value_from [of "digits_value xs" ys] by (simp add: digits_value_def)

lemma digits_value_Nil [simp]: "digits_value [] = 0"
  by (simp add: digits_value_def)

lemma digits_value_Cons:
  "digits_value (c # cs) = digit_value c * 10 ^ length cs + digits_value cs"
  using digits_value_append [of "[c]" cs] by (simp add: digits_value_def)

lemma checked_mul_nonneg:
  assumes "0 \<le> a" "0 \<le> b"
  shows "checked_mul a b = (if a * b \<le> i64_max then Some (a * b) else None)"
proof (cases "b = 0")
  case True
  then show ?thesis by (simp add: checked_mul_def int_limits)
next
  case False
  then have b: "0 < b" using assms by simp
  then have "i64_max sdiv b = i64_max div b"
    by (simp add: signed_divide_int_def int_limits)
  with b have "a > i64_max sdiv b \<longleftrightarrow> \<not> a * b \<le> i64_max"
    by (metis le_div_iff_mult_le linorder_not_less)
  with b show ?thesis by (simp add: checked_mul_def) (simp add: int_limits)
qed

lemma checked_add_iff: "checked_add a b = (if a + b \<le> i64_max then Some (a + b) else None)"
  by (auto simp: checked_add_def)

text \<open>
  The scanner's accumulator holds the number scanned so far, or has noticed that it does
  not fit.
\<close>

definition scanned :: "int \<Rightarrow> scan \<Rightarrow> bool" where
  "scanned n sc \<longleftrightarrow>
     0 \<le> n \<and> (sc_overflowed sc \<longleftrightarrow> n > i64_max) \<and> (\<not> sc_overflowed sc \<longrightarrow> sc_digits sc = n)"

lemma scanned_fields [simp]:
  "scanned n (sc\<lparr>sc_any := a\<rparr>) = scanned n sc"
  "scanned n (sc\<lparr>sc_fractional := f\<rparr>) = scanned n sc"
  by (simp_all add: scanned_def)

lemma push_digit_fields [simp]:
  "sc_any (push_digit c sc) = sc_any sc" "sc_fractional (push_digit c sc) = sc_fractional sc"
  by (simp_all add: push_digit_def split: option.split)

lemma scanned_push_digit:
  "scanned n sc \<Longrightarrow> scanned (10 * n + int (digit_value c)) (push_digit c sc)"
  by (auto simp: scanned_def push_digit_def checked_mul_nonneg checked_add_iff mult.commute
      split: if_splits)

lemma scan_integer_spec:
  assumes "scanned n sc"
  shows "\<exists>sc'. scan_integer cs sc = (dropWhile is_digit cs, sc') \<and>
     scanned (n * 10 ^ length (takeWhile is_digit cs) + int (digits_value (takeWhile is_digit cs))) sc' \<and>
     sc_any sc' = (sc_any sc \<or> takeWhile is_digit cs \<noteq> []) \<and>
     sc_fractional sc' = sc_fractional sc"
  using assms
proof (induction cs arbitrary: n sc)
  case (Cons c cs)
  show ?case
  proof (cases "is_digit c")
    case True
    have "scanned (10 * n + int (digit_value c)) (push_digit c (sc\<lparr>sc_any := True\<rparr>))"
      using Cons.prems by (simp add: scanned_push_digit)
    from Cons.IH [OF this] True show ?thesis
      by (auto simp: digits_value_Cons algebra_simps)
  qed (use Cons.prems in auto)
qed auto

lemma scan_fraction_spec:
  assumes "scanned n sc"
  shows "\<exists>sc'. scan_fraction cs sc = (dropWhile is_digit cs, sc') \<and>
     scanned (n * 10 ^ length (takeWhile is_digit cs) + int (digits_value (takeWhile is_digit cs))) sc' \<and>
     sc_any sc' = (sc_any sc \<or> takeWhile is_digit cs \<noteq> []) \<and>
     sc_fractional sc' = sc_fractional sc + int (length (takeWhile is_digit cs))"
  using assms
proof (induction cs arbitrary: n sc)
  case (Cons c cs)
  show ?case
  proof (cases "is_digit c")
    case True
    have "scanned (10 * n + int (digit_value c))
        (push_digit c (sc\<lparr>sc_any := True, sc_fractional := sc_fractional sc + 1\<rparr>))"
      using Cons.prems by (simp add: scanned_push_digit)
    from Cons.IH [OF this] True show ?thesis
      by (auto simp: digits_value_Cons algebra_simps)
  qed (use Cons.prems in auto)
qed auto

text \<open>The clamp makes the exponent exact up to 1000 and 1000 beyond.\<close>

lemma scan_exponent_spec:
  assumes "0 \<le> e" "e \<le> 1000"
  shows "scan_exponent cs e = (dropWhile is_digit cs,
     min 1000 (e * 10 ^ length (takeWhile is_digit cs) + int (digits_value (takeWhile is_digit cs))))"
  using assms
proof (induction cs arbitrary: e)
  case (Cons c cs)
  show ?case
  proof (cases "is_digit c")
    case True
    let ?k = "10 ^ length (takeWhile is_digit cs) :: int"
    let ?v = "int (digits_value (takeWhile is_digit cs))"
    let ?e = "e * 10 + int (digit_value c)"
    have k: "1 \<le> ?k" by simp
    have big: "1000 \<le> ?e * ?k + ?v" if "1000 < ?e"
      using mult_mono [of 1000 ?e 1 ?k] that k Cons.prems by simp
    have "1000 \<le> ?v + ?k * 1000" using k by linarith
    then show ?thesis
      using True Cons.IH [of ?e] Cons.IH [of 1000] big Cons.prems
      by (auto simp: digits_value_Cons algebra_simps min_def Let_def)
  qed (use Cons.prems in auto)
qed auto

lemma kPow10_nth: "k \<le> 18 \<Longrightarrow> kPow10 ! k = 10 ^ k"
proof -
  assume "k \<le> 18"
  then have "k \<in> set [0..<19]" by simp
  moreover have "list_all (\<lambda>k. kPow10 ! k = 10 ^ k) [0..<19]" by code_simp
  ultimately show ?thesis by (auto simp: list_all_iff)
qed

end
