(* ===== verification/Fixed_Decimal.thy ===== *)
theory Fixed_Decimal
  imports Fixed
begin

text \<open>
  The meaning of the decimals of \<open>fixed.hpp\<close>.  A text denotes a rational number through its
  grammar (\<open>decimal\<close>); the theorems relate \<open>parse_fixed\<close>, \<open>format_fixed\<close>,
  \<open>is_canonical_at_scale\<close> and \<open>checksum_token\<close> to that meaning.
\<close>

section \<open>What a decimal text denotes\<close>

datatype decimal = Decimal
  (d_sign: string) (d_int: string) (d_frac: "string option")
  (d_exp: "(char \<times> string \<times> string) option")

definition frac_digits :: "decimal \<Rightarrow> string" where
  "frac_digits d = (case d_frac d of None \<Rightarrow> [] | Some f \<Rightarrow> f)"

definition exponent_of :: "decimal \<Rightarrow> int" where
  "exponent_of d =
     (case d_exp d of None \<Rightarrow> 0
      | Some (_, sg, ds) \<Rightarrow> (if sg = ''-'' then - 1 else 1) * int (digits_value ds))"

definition significand :: "decimal \<Rightarrow> int" where
  "significand d = int (digits_value (d_int d @ frac_digits d))"

definition decimal_text :: "decimal \<Rightarrow> string" where
  "decimal_text d =
     d_sign d @ d_int d @ (case d_frac d of None \<Rightarrow> [] | Some f \<Rightarrow> CHR ''.'' # f) @
     (case d_exp d of None \<Rightarrow> [] | Some (e, sg, ds) \<Rightarrow> e # sg @ ds)"

definition all_digits :: "string \<Rightarrow> bool" where
  "all_digits cs \<longleftrightarrow> (\<forall>c \<in> set cs. is_digit c)"

definition is_sign :: "string \<Rightarrow> bool" where
  "is_sign sg \<longleftrightarrow> sg = [] \<or> sg = ''+'' \<or> sg = ''-''"

definition decimal_wf :: "decimal \<Rightarrow> bool" where
  "decimal_wf d \<longleftrightarrow>
     is_sign (d_sign d) \<and> all_digits (d_int d) \<and> all_digits (frac_digits d) \<and>
     d_int d @ frac_digits d \<noteq> [] \<and>
     (case d_exp d of None \<Rightarrow> True
      | Some (e, sg, ds) \<Rightarrow> (e = CHR ''e'' \<or> e = CHR ''E'') \<and> is_sign sg \<and> ds \<noteq> [] \<and> all_digits ds)"

text \<open>The rational number a decimal stands for.\<close>

definition decimal_value :: "decimal \<Rightarrow> rat" where
  "decimal_value d =
     (if d_sign d = ''-'' then - 1 else 1) * of_int (significand d) *
     10 powi (exponent_of d - int (length (frac_digits d)))"

subsection \<open>The scanner recognises exactly these texts\<close>

definition no_digit_first :: "string \<Rightarrow> bool" where
  "no_digit_first r \<longleftrightarrow> (case r of [] \<Rightarrow> True | c # _ \<Rightarrow> \<not> is_digit c)"

lemma span_digits:
  assumes "all_digits ds" "no_digit_first r"
  shows "takeWhile is_digit (ds @ r) = ds" "dropWhile is_digit (ds @ r) = r"
  using assms by (auto simp: all_digits_def no_digit_first_def takeWhile_append dropWhile_append
      split: list.splits)

lemma parse_sign_append:
  assumes "is_sign sg" "r \<noteq> []" "hd r \<noteq> CHR ''+''" "hd r \<noteq> CHR ''-''"
  shows "parse_sign (sg @ r) = (sg = ''-'', r)"
  using assms by (cases r) (auto simp: is_sign_def parse_sign_def)

lemma parse_sign_split:
  "parse_sign cs = (n, r) \<Longrightarrow> \<exists>sg. is_sign sg \<and> cs = sg @ r \<and> n = (sg = ''-'')"
  by (auto simp: is_sign_def parse_sign_def split: list.splits if_splits)

lemma hd_digits: "all_digits ds \<Longrightarrow> ds \<noteq> [] \<Longrightarrow> is_digit (hd ds)"
  by (cases ds) (auto simp: all_digits_def)

lemma all_digits_Nil [simp]: "all_digits []"
  by (simp add: all_digits_def)

lemma all_digits_takeWhile [simp]: "all_digits (takeWhile is_digit cs)"
  by (auto simp: all_digits_def dest: set_takeWhileD)

definition clamp_exponent :: "int \<Rightarrow> int" where
  "clamp_exponent e = (if e < - 1000 then - 1000 else if e > 1000 then 1000 else e)"

lemma parse_exponent_text:
  assumes "all_digits ds" "ds \<noteq> []" "is_sign sg" "e = CHR ''e'' \<or> e = CHR ''E''"
  shows "parse_exponent (e # sg @ ds) =
     Some (clamp_exponent ((if sg = ''-'' then - 1 else 1) * int (digits_value ds)), [])"
proof -
  obtain d ds' where ds: "ds = d # ds'" using assms(2) by (cases ds) auto
  have d: "is_digit d" using assms(1) ds by (simp add: all_digits_def)
  have "parse_sign (sg @ ds) = (sg = ''-'', ds)"
    using assms d ds by (intro parse_sign_append) auto
  moreover have "scan_exponent ds 0 = ([], min 1000 (int (digits_value ds)))"
    using scan_exponent_spec [of 0 ds] span_digits [OF assms(1), of "[]"]
    unfolding no_digit_first_def append_Nil2 list.case(1) by (simp (no_asm_simp))
  ultimately show ?thesis
    using assms(4) d ds by (auto simp: parse_exponent_def clamp_exponent_def min_def)
qed

lemma parse_exponent_split:
  assumes "parse_exponent cs = Some (e, r)"
  shows "(e = 0 \<and> r = cs) \<or>
    (\<exists>c sg ds. (c = CHR ''e'' \<or> c = CHR ''E'') \<and> is_sign sg \<and> all_digits ds \<and> ds \<noteq> [] \<and>
       cs = c # sg @ ds @ r)"
proof (cases "\<exists>c rest. cs = c # rest \<and> (c = CHR ''e'' \<or> c = CHR ''E'')")
  case True
  then obtain c rest where c: "cs = c # rest" "c = CHR ''e'' \<or> c = CHR ''E''" by blast
  obtain n ds where ps: "parse_sign rest = (n, ds)" by (cases "parse_sign rest")
  then obtain sg where sg: "is_sign sg" "rest = sg @ ds" using parse_sign_split by blast
  from assms c ps obtain d ds' where d: "ds = d # ds'" "is_digit d"
    by (auto simp: parse_exponent_def split: list.splits if_splits)
  then have "scan_exponent ds 0 = (dropWhile is_digit ds, snd (scan_exponent ds 0))"
    using scan_exponent_spec [of 0 ds] by simp
  then have "r = dropWhile is_digit ds"
    using assms c ps d by (auto simp: parse_exponent_def split: prod.splits)
  then have "cs = c # sg @ takeWhile is_digit ds @ r"
    using c sg by simp
  moreover have "takeWhile is_digit ds \<noteq> []" using d by simp
  ultimately show ?thesis using c(2) sg(1) all_digits_takeWhile by blast
next
  case False
  then show ?thesis using assms by (auto simp: parse_exponent_def split: list.splits if_splits)
qed

text \<open>The tail of a decimal after its integer digits.\<close>

definition clamped_shift :: "decimal \<Rightarrow> nat \<Rightarrow> int" where
  "clamped_shift d s = int s + clamp_exponent (exponent_of d) - int (length (frac_digits d))"

lemma parse_fixed_decimal:
  assumes "decimal_wf d" "s \<le> kMaxScale"
  shows "parse_fixed (decimal_text d) s =
     (if significand d > i64_max then parse_result 0 ParseOverflow
      else shift_mantissa (d_sign d = ''-'') (significand d) (clamped_shift d s))"
proof -
  obtain sg ip fo eo where d: "d = Decimal sg ip fo eo" by (cases d)
  define ex where "ex = (case eo of None \<Rightarrow> [] | Some (e, sg, ds) \<Rightarrow> e # sg @ ds)"
  define fx where "fx = (case fo of None \<Rightarrow> [] | Some f \<Rightarrow> CHR ''.'' # f)"
  have wf: "is_sign sg" "all_digits ip" "all_digits (frac_digits d)" "ip @ frac_digits d \<noteq> []"
    using assms(1) d by (auto simp: decimal_wf_def)
  have ex: "no_digit_first ex" "parse_exponent ex = Some (clamp_exponent (exponent_of d), [])"
  proof -
    show "no_digit_first ex"
      using assms(1) d by (auto simp: ex_def no_digit_first_def decimal_wf_def split: option.splits)
    show "parse_exponent ex = Some (clamp_exponent (exponent_of d), [])"
    proof (cases eo)
      case None
      then show ?thesis
        by (simp add: ex_def d exponent_of_def parse_exponent_def clamp_exponent_def)
    next
      case (Some p)
      obtain e g ds where p: "p = (e, g, ds)" by (cases p)
      then show ?thesis
        using assms(1) d Some parse_exponent_text [of ds g e]
        by (simp add: ex_def exponent_of_def decimal_wf_def)
    qed
  qed
  have rendered: "decimal_text d = sg @ ip @ fx @ ex"
    by (simp add: d decimal_text_def ex_def fx_def)
  have ne: "ip @ fx @ ex \<noteq> []" "hd (ip @ fx @ ex) \<noteq> CHR ''+''" "hd (ip @ fx @ ex) \<noteq> CHR ''-''"
    using wf(4) hd_digits [OF wf(2)] d
    by (auto simp: fx_def frac_digits_def hd_append split: option.splits)
  have sign: "parse_sign (decimal_text d) = (sg = ''-'', ip @ fx @ ex)"
    unfolding rendered by (rule parse_sign_append [OF wf(1) ne])
  have nd: "no_digit_first (fx @ ex)"
    using ex(1) by (auto simp: fx_def no_digit_first_def split: option.splits)
  obtain sc1 where sc1: "scan_integer (ip @ fx @ ex) scan_init = (fx @ ex, sc1)"
      "scanned (int (digits_value ip)) sc1" "sc_any sc1 = (ip \<noteq> [])" "sc_fractional sc1 = 0"
    using scan_integer_spec [of 0 scan_init "ip @ fx @ ex"] span_digits [OF wf(2) nd]
    by (auto simp: scanned_def scan_init_def int_limits)
  obtain sc where sc: "(case fx @ ex of
        c # rest \<Rightarrow> if c = CHR ''.'' then scan_fraction rest sc1 else (fx @ ex, sc1)
      | [] \<Rightarrow> (fx @ ex, sc1)) = (ex, sc)"
      "scanned (significand d) sc" "sc_any sc" "sc_fractional sc = int (length (frac_digits d))"
  proof (cases fo)
    case None
    then have "ex \<noteq> [] \<longrightarrow> hd ex \<noteq> CHR ''.''"
      using assms(1) d by (auto simp: ex_def decimal_wf_def split: option.splits)
    moreover have fx0: "fx = []" using None by (simp add: fx_def)
    ultimately have "(case fx @ ex of c # rest \<Rightarrow>
        if c = CHR ''.'' then scan_fraction rest sc1 else (fx @ ex, sc1)
      | [] \<Rightarrow> (fx @ ex, sc1)) = (ex, sc1)"
      by (cases ex) auto
    then show ?thesis
      using that [of sc1] None sc1 wf(4) d by (simp add: frac_digits_def significand_def)
  next
    case (Some f)
    obtain sc2 where "scan_fraction (f @ ex) sc1 = (ex, sc2)"
        "scanned (int (digits_value ip) * 10 ^ length f + int (digits_value f)) sc2"
        "sc_any sc2 = (sc_any sc1 \<or> f \<noteq> [])" "sc_fractional sc2 = sc_fractional sc1 + int (length f)"
      using scan_fraction_spec [OF sc1(2), of "f @ ex"] span_digits [of f ex] wf(3) ex(1) Some d
      by (auto simp: frac_digits_def)
    then show ?thesis
      using that [of sc2] Some sc1 wf(4) d
      by (auto simp: fx_def frac_digits_def significand_def digits_value_append)
  qed
  have "decimal_text d \<noteq> []" using ne rendered by auto
  then show ?thesis
    using assms(2) sc ex(2) sign sc1(1) d
    by (auto simp: parse_fixed_def scanned_def clamped_shift_def)
qed

text \<open>Any text that is not refused as malformed is such a decimal.\<close>

lemma decimal_text_complete:
  assumes "text \<noteq> []" "s \<le> kMaxScale" "pr_error (parse_fixed text s) \<noteq> ParseMalformed"
  shows "\<exists>d. decimal_wf d \<and> decimal_text d = text"
proof -
  obtain neg t1 where ps: "parse_sign text = (neg, t1)" by (cases "parse_sign text")
  then obtain sg where sg: "is_sign sg" "text = sg @ t1" using parse_sign_split by blast
  define ip where "ip = takeWhile is_digit t1"
  define t2 where "t2 = dropWhile is_digit t1"
  obtain sc1 where sc1: "scan_integer t1 scan_init = (t2, sc1)" "sc_any sc1 = (ip \<noteq> [])"
      "scanned (int (digits_value ip)) sc1"
    using scan_integer_spec [of 0 scan_init t1]
    by (auto simp: scanned_def scan_init_def int_limits ip_def t2_def)
  define fo where "fo = (case t2 of c # rest \<Rightarrow>
      if c = CHR ''.'' then Some (takeWhile is_digit rest) else None | [] \<Rightarrow> None)"
  define t3 where "t3 = (case t2 of c # rest \<Rightarrow>
      if c = CHR ''.'' then dropWhile is_digit rest else t2 | [] \<Rightarrow> t2)"
  have t2: "t2 = (case fo of None \<Rightarrow> [] | Some f \<Rightarrow> CHR ''.'' # f) @ t3"
    by (simp add: fo_def t3_def split: list.split)
  obtain sc where sc: "(case t2 of c # rest \<Rightarrow>
        if c = CHR ''.'' then scan_fraction rest sc1 else (t2, sc1) | [] \<Rightarrow> (t2, sc1)) = (t3, sc)"
      "sc_any sc = (ip \<noteq> [] \<or> (case fo of None \<Rightarrow> False | Some f \<Rightarrow> f \<noteq> []))"
  proof (cases fo)
    case None
    with that [of sc1] sc1(2) show ?thesis
      by (auto simp: fo_def t3_def split: list.splits if_splits)
  next
    case (Some f)
    then obtain rest where r: "t2 = CHR ''.'' # rest" "f = takeWhile is_digit rest"
      by (auto simp: fo_def split: list.splits if_splits)
    with that sc1(2) Some scan_fraction_spec [OF sc1(3), of rest] show ?thesis
      by (auto simp: t3_def)
  qed
  from assms ps sc1 sc have any: "sc_any sc"
      and "parse_exponent t3 \<noteq> None" "\<forall>e t4. parse_exponent t3 = Some (e, t4) \<longrightarrow> t4 = []"
    by (auto simp: parse_fixed_def split: if_splits option.splits prod.splits)
  then obtain e where "parse_exponent t3 = Some (e, [])" by auto
  then obtain eo where eo: "t3 = (case eo of None \<Rightarrow> [] | Some (c, g, ds) \<Rightarrow> c # g @ ds)"
      "case eo of None \<Rightarrow> True | Some (c, g, ds) \<Rightarrow>
         (c = CHR ''e'' \<or> c = CHR ''E'') \<and> is_sign g \<and> ds \<noteq> [] \<and> all_digits ds"
  proof (atomize_elim, goal_cases)
    case 1
    from parse_exponent_split [OF this] show ?case
    proof
      assume "e = 0 \<and> [] = t3"
      then show ?thesis by (intro exI [of _ None]) simp
    next
      assume "\<exists>c g ds. (c = CHR ''e'' \<or> c = CHR ''E'') \<and> is_sign g \<and> all_digits ds \<and> ds \<noteq> [] \<and>
        t3 = c # g @ ds @ []"
      then obtain c g ds where "c = CHR ''e'' \<or> c = CHR ''E''" "is_sign g" "all_digits ds"
          "ds \<noteq> []" "t3 = c # g @ ds" by auto
      then show ?thesis by (intro exI [of _ "Some (c, g, ds)"]) simp
    qed
  qed
  have "t1 = ip @ t2" by (simp add: ip_def t2_def)
  then have "decimal_text (Decimal sg ip fo eo) = text"
    unfolding decimal_text_def decimal.sel sg(2) eo(1) [symmetric] t2 [symmetric] by simp
  moreover have "decimal_wf (Decimal sg ip fo eo)"
    using sg(1) any sc(2) eo(2)
    by (auto simp: decimal_wf_def frac_digits_def ip_def fo_def split: option.splits list.splits if_splits)
  ultimately show ?thesis by blast
qed

definition sign_of :: "bool \<Rightarrow> 'a::ring_1" where
  "sign_of negative = (if negative then - 1 else 1)"

lemma shift_mantissa_Ok:
  assumes "shift_mantissa neg n sh = parse_result m ParseOk" "0 \<le> n" "n \<le> i64_max"
  shows "rat_of_int m = sign_of neg * of_int n * 10 powi sh" and "\<bar>m\<bar> \<le> i64_max"
proof -
  consider (up) "sh > 0" | (down) "sh < 0" | (none) "sh = 0" by linarith
  then have "rat_of_int m = sign_of neg * of_int n * 10 powi sh \<and> \<bar>m\<bar> \<le> i64_max"
  proof cases
    case up
    have le: "nat sh \<le> 18"
      using assms(1) up by (auto simp: shift_mantissa_def kMaxScale_def Let_def split: if_splits)
    have nn: "0 \<le> n * 10 ^ nat sh" using assms(2) by simp
    have "m = sign_of neg * (n * 10 ^ nat sh)" "n * 10 ^ nat sh \<le> i64_max"
      using assms(1,2) up le
      by (auto simp: shift_mantissa_def kMaxScale_def Let_def kPow10_nth checked_mul_nonneg sign_of_def
          split: if_splits option.splits)
    with up nn show ?thesis by (auto simp: power_int_def sign_of_def)
  next
    case down
    show ?thesis
    proof (cases "- sh > int kMaxScale")
      case True
      with down assms(1) have "n = 0" "m = 0"
        by (auto simp: shift_mantissa_def Let_def split: if_splits)
      then show ?thesis by (simp add: int_limits)
    next
      case False
      then have le: "nat (- sh) \<le> 18" by (simp add: kMaxScale_def)
      define p :: int where "p = 10 ^ nat (- sh)"
      have p: "0 < p" by (simp add: p_def)
      have "n mod p = 0" and m: "m = sign_of neg * (n div p)"
        using assms(1,2) down False le p
        by (auto simp: shift_mantissa_def Let_def kPow10_nth smod_nonneg sdiv_nonneg sign_of_def p_def
            split: if_splits)
      then have n: "n = n div p * p" by (metis add.right_neutral div_mult_mod_eq)
      have "rat_of_int n = of_int (n div p) * of_int p" by (subst n) simp
      then have "rat_of_int (n div p) = of_int n * 10 powi sh"
        using down p by (simp add: power_int_def p_def power_inverse field_simps)
      moreover have "0 \<le> n div p" using assms(2) p by (simp add: pos_imp_zdiv_nonneg_iff)
      then have "n div p \<le> n" using n p mult_left_mono [of 1 p "n div p"] by simp
      with \<open>0 \<le> n div p\<close> have "\<bar>m\<bar> \<le> i64_max"
        using assms(3) m by (auto simp: sign_of_def abs_if)
      ultimately show ?thesis by (simp add: m sign_of_def)
    qed
  next
    case none
    with assms show ?thesis by (auto simp: shift_mantissa_def Let_def sign_of_def)
  qed
  then show "rat_of_int m = sign_of neg * of_int n * 10 powi sh" "\<bar>m\<bar> \<le> i64_max" by auto
qed

lemma i64_max_less_pow: "n \<le> i64_max \<Longrightarrow> 19 \<le> k \<Longrightarrow> n < 10 ^ k"
proof -
  assume "n \<le> i64_max" "19 \<le> k"
  moreover have "(10::int) ^ 19 \<le> 10 ^ k" using \<open>19 \<le> k\<close> by (rule power_increasing) simp
  moreover have "i64_max < 10 ^ 19" by (simp add: int_limits)
  ultimately show ?thesis by linarith
qed

text \<open>A refusal for precision means that no mantissa at all would be exact.\<close>

lemma scaled_down_not_integer:
  assumes "n mod p \<noteq> 0" "0 < (p :: int)"
  shows "rat_of_int m \<noteq> sign_of neg * of_int n * inverse (of_int p)"
proof
  assume "rat_of_int m = sign_of neg * of_int n * inverse (of_int p)"
  then have "rat_of_int (sign_of neg * m * p) = of_int n"
    using assms(2) by (auto simp: sign_of_def field_simps split: if_splits)
  then have "sign_of neg * m * p = n" by (simp only: of_int_eq_iff)
  then show False using assms(1) by (metis mod_mult_self2_is_0)
qed

lemma shift_mantissa_PrecisionLoss:
  assumes "pr_error (shift_mantissa neg n sh) = ParsePrecisionLoss" "0 \<le> n" "n \<le> i64_max"
    and "sh' = sh \<or> (sh' \<le> sh \<and> sh < - 18)"
  shows "rat_of_int m \<noteq> sign_of neg * of_int n * 10 powi sh'"
proof -
  have neg: "sh < 0"
    using assms(1) by (auto simp: shift_mantissa_def Let_def split: if_splits option.splits)
  have "n mod 10 ^ nat (- sh') \<noteq> 0"
  proof (cases "- sh > int kMaxScale")
    case True
    then have "n \<noteq> 0" using assms(1) neg by (auto simp: shift_mantissa_def Let_def)
    moreover have "n < 10 ^ nat (- sh')"
      using True assms(3,4) by (intro i64_max_less_pow) (auto simp: kMaxScale_def)
    ultimately show ?thesis using assms(2) by simp
  next
    case False
    then have le: "nat (- sh) \<le> 18" "sh' = sh" using assms(4) by (auto simp: kMaxScale_def)
    then show ?thesis
      using assms(1,2) neg False
      by (auto simp: shift_mantissa_def Let_def kPow10_nth smod_nonneg split: if_splits)
  qed
  then have "rat_of_int m \<noteq> sign_of neg * of_int n * inverse (of_int (10 ^ nat (- sh')))"
    by (rule scaled_down_not_integer) simp
  moreover have "sh' < 0" using neg assms(4) by auto
  ultimately show ?thesis by (simp add: power_int_def power_one_over inverse_eq_divide)
qed

lemma shift_mantissa_Overflow:
  assumes "pr_error (shift_mantissa neg n sh) = ParseOverflow" "0 \<le> n" "sh \<le> sh'" "n \<noteq> 0"
  shows "of_int i64_max < \<bar>sign_of neg * of_int n * (10::rat) powi sh'\<bar>"
proof -
  have pos: "sh > 0"
    using assms(1) by (auto simp: shift_mantissa_def Let_def split: if_splits)
  have "i64_max < n * 10 ^ nat sh"
  proof (cases "sh > int kMaxScale")
    case True
    then have "i64_max < 10 ^ nat sh" by (intro i64_max_less_pow) (auto simp: kMaxScale_def)
    also have "\<dots> \<le> n * 10 ^ nat sh" using assms(2,4) by (simp add: mult_le_cancel_right1)
    finally show ?thesis .
  next
    case False
    then have "nat sh \<le> 18" by (simp add: kMaxScale_def)
    then show ?thesis
      using assms(1,2) pos False
      by (auto simp: shift_mantissa_def Let_def kPow10_nth checked_mul_nonneg split: if_splits)
  qed
  also have "\<dots> \<le> n * 10 ^ nat sh'"
    using assms(2,3) pos by (intro mult_left_mono power_increasing) auto
  finally have "rat_of_int i64_max < of_int (n * 10 ^ nat sh')" by (simp only: of_int_less_iff)
  then show ?thesis
    using assms(2,3) pos by (simp add: sign_of_def power_int_def abs_mult)
qed

lemma significand_nonneg: "0 \<le> significand d"
  by (simp add: significand_def)

lemma decimal_value_shift:
  "decimal_value d * 10 ^ s =
     sign_of (d_sign d = ''-'') * of_int (significand d) *
     10 powi (int s + exponent_of d - int (length (frac_digits d)))"
proof -
  have "(10::rat) powi (int s + (exponent_of d - int (length (frac_digits d)))) =
      10 ^ s * 10 powi (exponent_of d - int (length (frac_digits d)))"
    by (simp add: power_int_add)
  then show ?thesis
    by (simp add: decimal_value_def sign_of_def add_diff_eq)
qed

text \<open>
  Where the clamp can matter: with at most 981 fractional digits a clamped exponent is
  always refused or irrelevant.
\<close>

lemma clamped_shift_cases:
  assumes "length (frac_digits d) \<le> 981 + s"
  shows "clamped_shift d s = int s + exponent_of d - int (length (frac_digits d)) \<or>
    18 < clamped_shift d s \<and>
      clamped_shift d s \<le> int s + exponent_of d - int (length (frac_digits d)) \<or>
    (s \<le> 18 \<longrightarrow> clamped_shift d s < - 18) \<and>
      int s + exponent_of d - int (length (frac_digits d)) \<le> clamped_shift d s"
  using assms by (auto simp: clamped_shift_def clamp_exponent_def)

lemma parse_fixed_accepts:
  assumes "parse_fixed text s = parse_result m ParseOk"
  shows "s \<le> kMaxScale \<and> text \<noteq> []"
  using assms by (auto simp: parse_fixed_def split: if_splits)

lemma parse_fixed_bound:
  assumes "parse_fixed text s = parse_result m ParseOk"
  shows "\<bar>m\<bar> \<le> i64_max"
proof -
  have s: "s \<le> kMaxScale" and ne: "text \<noteq> []"
    using parse_fixed_accepts [OF assms] by auto
  then obtain d where d: "decimal_wf d" "decimal_text d = text"
    using decimal_text_complete [OF ne s] assms by auto
  have "(if significand d > i64_max then parse_result 0 ParseOverflow
      else shift_mantissa (d_sign d = ''-'') (significand d) (clamped_shift d s)) =
      parse_result m ParseOk"
    using parse_fixed_decimal [OF d(1) s] assms unfolding d(2) by (rule trans [OF sym])
  then show ?thesis
    using shift_mantissa_Ok(2) significand_nonneg by (simp split: if_splits)
qed



text \<open>
  C17: The accepted syntax, exactly.  Apart from refusals for range and precision, \<open>parse_fixed\<close> gives a
  result just when the scale is supported and the text is an optional sign, digits with an optional
  point, and an optional exponent, with at least one significand digit.
\<close>

theorem parse_fixed_language:
  "pr_error (parse_fixed text s) \<notin> {ParseScaleTooLarge, ParseEmpty, ParseMalformed} \<longleftrightarrow>
     s \<le> kMaxScale \<and> (\<exists>d. decimal_wf d \<and> decimal_text d = text)"
proof (cases "s \<le> kMaxScale \<and> text \<noteq> []")
  case True
  have "pr_error (shift_mantissa neg n sh) \<notin> {ParseScaleTooLarge, ParseEmpty, ParseMalformed}"
    for neg n sh
    by (simp add: shift_mantissa_def Let_def split: option.split)
  then have "pr_error (parse_fixed text s) \<notin> {ParseScaleTooLarge, ParseEmpty, ParseMalformed}"
    if "decimal_wf d" "decimal_text d = text" for d
    using parse_fixed_decimal [OF that(1), of s] that(2) True by auto
  moreover have "\<exists>d. decimal_wf d \<and> decimal_text d = text"
    if "pr_error (parse_fixed text s) \<noteq> ParseMalformed"
    using decimal_text_complete that True by blast
  ultimately show ?thesis using True by blast
next
  case False
  have "decimal_wf d \<Longrightarrow> decimal_text d \<noteq> []" for d
    by (auto simp: decimal_wf_def decimal_text_def frac_digits_def split: option.splits)
  with False show ?thesis by (auto simp: parse_fixed_def)
qed



lemma write_decimal_unfold:
  "write_decimal n acc =
     (if n < 10 then digit_char n # acc
      else write_decimal (n div 10) (digit_char (n mod 10) # acc))"
  by (subst write_decimal.simps) (auto simp: Let_def div_eq_0_iff)

lemma write_decimal_append: "write_decimal n (xs @ ys) = write_decimal n xs @ ys"
proof (induction n arbitrary: xs rule: less_induct)
  case (less n)
  show ?case
  proof (cases "n < 10")
    case True
    then show ?thesis by (simp add: write_decimal_unfold)
  next
    case False
    then have "write_decimal (n div 10) ((digit_char (n mod 10) # xs) @ ys) =
        write_decimal (n div 10) (digit_char (n mod 10) # xs) @ ys"
      by (intro less) simp
    with False show ?thesis by (simp add: write_decimal_unfold [of n])
  qed
qed

lemma write_decimal_acc: "write_decimal n acc = write_decimal n [] @ acc"
  using write_decimal_append [of n "[]" acc] by simp

lemma write_decimal_snoc:
  "10 \<le> n \<Longrightarrow> write_decimal n [] = write_decimal (n div 10) [] @ [digit_char (n mod 10)]"
  by (simp add: write_decimal_unfold [of n] write_decimal_acc [of "n div 10" "[_]"])

lemma write_decimal_props:
  "all_digits (write_decimal n []) \<and> digits_value (write_decimal n []) = n \<and>
   write_decimal n [] \<noteq> []"
proof (induction n rule: less_induct)
  case (less n)
  show ?case
  proof (cases "n < 10")
    case True
    then show ?thesis
      by (simp add: write_decimal_unfold all_digits_def digits_value_Cons)
  next
    case False
    then have "n div 10 < n" by simp
    from less [OF this] False show ?thesis
      by (auto simp: write_decimal_snoc all_digits_def digits_value_append digits_value_Cons)
  qed
qed

lemmas write_decimal_digits = write_decimal_props [THEN conjunct1]
lemmas write_decimal_value = write_decimal_props [THEN conjunct2, THEN conjunct1]
lemmas write_decimal_nonempty = write_decimal_props [THEN conjunct2, THEN conjunct2]

lemma length_write_decimal: "n < 10 ^ k \<Longrightarrow> 0 < k \<Longrightarrow> length (write_decimal n []) \<le> k"
proof (induction k arbitrary: n)
  case (Suc k)
  show ?case
  proof (cases "n < 10")
    case True
    then show ?thesis by (simp add: write_decimal_unfold)
  next
    case False
    with Suc.prems have "n div 10 < 10 ^ k" "0 < k" by (auto intro!: gr0I)
    with Suc.IH False show ?thesis by (simp add: write_decimal_snoc)
  qed
qed simp

lemma write_fraction_spec:
  "\<exists>f. write_fraction k n acc = (n div 10 ^ k, f @ acc) \<and> length f = k \<and> all_digits f \<and>
     digits_value f = n mod 10 ^ k"
proof (induction k arbitrary: n acc)
  case (Suc k)
  obtain f where f: "write_fraction k (n div 10) (digit_char (n mod 10) # acc) =
        (n div 10 div 10 ^ k, f @ digit_char (n mod 10) # acc)"
      "length f = k" "all_digits f" "digits_value f = n div 10 mod 10 ^ k"
    using Suc by blast
  have "n mod (10 * 10 ^ k) = n div 10 mod 10 ^ k * 10 + n mod 10"
    by (simp add: mod_mult2_eq)
  then have "digits_value (f @ [digit_char (n mod 10)]) = n mod 10 ^ Suc k"
    using f by (simp add: digits_value_append digits_value_Cons)
  with f show ?case
    by (intro exI [of _ "f @ [digit_char (n mod 10)]"])
      (auto simp: all_digits_def div_mult2_eq)
qed (simp add: all_digits_def)

text \<open>The formatter writes a decimal without exponent whose significand is the magnitude.\<close>

lemma format_fixed_decimal:
  assumes "i64 m"
  shows "\<exists>q f. format_fixed m s =
      decimal_text (Decimal (if m < 0 then ''-'' else []) (write_decimal q [])
        (if s > 0 then Some f else None) None) \<and>
      q = nat \<bar>m\<bar> div 10 ^ s \<and> length f = s \<and> all_digits f \<and> digits_value f = nat \<bar>m\<bar> mod 10 ^ s"
proof -
  obtain f where f: "write_fraction s (nat \<bar>m\<bar>) [] = (nat \<bar>m\<bar> div 10 ^ s, f @ [])"
      "length f = s" "all_digits f" "digits_value f = nat \<bar>m\<bar> mod 10 ^ s"
    using write_fraction_spec by blast
  moreover have "format_fixed m s =
      decimal_text (Decimal (if m < 0 then ''-'' else []) (write_decimal (nat \<bar>m\<bar> div 10 ^ s) [])
        (if s > 0 then Some f else None) None)"
    using f assms
    by (auto simp: format_fixed_def format_fixed_into_def magnitude_u64_abs decimal_text_def
        write_decimal_acc [of _ "_ # _"] Let_def)
  ultimately show ?thesis by blast
qed

lemma decimal_of_format:
  assumes "i64 m"
  obtains d where "format_fixed m s = decimal_text d" "decimal_wf d" "significand d = \<bar>m\<bar>"
    "exponent_of d = 0" "length (frac_digits d) = s" "(d_sign d = ''-'') = (m < 0)"
    "length (d_int d) = length (write_decimal (nat \<bar>m\<bar> div 10 ^ s) [])" "d_exp d = None"
    "d_sign d = (if m < 0 then ''-'' else [])" "(d_frac d = None) = (s = 0)"
proof -
  obtain q f where qf: "format_fixed m s =
      decimal_text (Decimal (if m < 0 then ''-'' else []) (write_decimal q [])
        (if s > 0 then Some f else None) None)"
      "q = nat \<bar>m\<bar> div 10 ^ s" "length f = s" "all_digits f" "digits_value f = nat \<bar>m\<bar> mod 10 ^ s"
    using format_fixed_decimal [OF assms] by blast
  show thesis
    using qf
    by (intro that [of "Decimal (if m < 0 then ''-'' else []) (write_decimal q [])
        (if s > 0 then Some f else None) None"])
      (auto simp: decimal_wf_def frac_digits_def is_sign_def write_decimal_digits
        write_decimal_nonempty significand_def exponent_of_def digits_value_append
        write_decimal_value div_mult_mod_eq simp flip: of_nat_mult of_nat_add)
qed

lemma parse_format_law:
  assumes "i64 m" "s \<le> kMaxScale"
  shows "parse_fixed (format_fixed m s) s =
    (if m = i64_min then parse_result 0 ParseOverflow else parse_result m ParseOk)"
proof -
  obtain d where d: "format_fixed m s = decimal_text d" "decimal_wf d" "significand d = \<bar>m\<bar>"
    "exponent_of d = 0" "length (frac_digits d) = s" "(d_sign d = ''-'') = (m < 0)"
    using decimal_of_format [OF assms(1), of s] by metis
  have "clamped_shift d s = 0" by (simp add: clamped_shift_def clamp_exponent_def d)
  then have "parse_fixed (format_fixed m s) s =
      (if \<bar>m\<bar> > i64_max then parse_result 0 ParseOverflow else parse_result m ParseOk)"
    using parse_fixed_decimal [OF d(2) assms(2)] d
    by (simp add: shift_mantissa_def)
  then show ?thesis using assms(1) by (auto simp: int_limits)
qed

text \<open>
  C19: Formatting then parsing gives the mantissa back, for every 64-bit mantissa and supported scale;
  the one exception is \<open>INT64_MIN\<close>, whose magnitude the parser refuses.
\<close>

theorem parse_format_roundtrip:
  assumes "i64 m" "s \<le> kMaxScale"
  shows "parse_fixed (format_fixed m s) s =
    (if m = i64_min then parse_result 0 ParseOverflow else parse_result m ParseOk)"
  using assms by (rule parse_format_law)

theorem parse_format_roundtrip_witness:
  "parse_fixed (format_fixed (- 45283500) 4) 4 = parse_result (- 45283500) ParseOk"
proof -
  have "i64 (- 45283500)" "(4::nat) \<le> kMaxScale" by (simp_all add: int_limits kMaxScale_def)
  from parse_format_roundtrip [OF this] show ?thesis by (simp add: i64_min_def)
qed

text \<open>
  The rendering of a 64-bit mantissa at a supported scale never exceeds 21 characters, so the
  24-byte buffer of \<open>format_fixed_into\<close>, filled from its end, is never overrun.
\<close>

theorem format_fixed_bound:
  assumes "i64 m" "s \<le> kMaxScale"
  shows "length (format_fixed m s) \<le> 21 \<and> 21 \<le> kMaxFormattedFixed"
proof -
  obtain d where d: "format_fixed m s = decimal_text d" "length (frac_digits d) = s"
    "length (d_int d) = length (write_decimal (nat \<bar>m\<bar> div 10 ^ s) [])" "d_exp d = None"
    "d_sign d = (if m < 0 then ''-'' else [])" "(d_frac d = None) = (s = 0)"
    using decimal_of_format [OF assms(1), of s] by metis
  have "nat \<bar>m\<bar> < 10 ^ (19 - s) * 10 ^ s"
    using assms unfolding power_add [symmetric] by (auto simp: int_limits kMaxScale_def)
  then have "nat \<bar>m\<bar> div 10 ^ s < 10 ^ (19 - s)" by (simp add: less_mult_imp_div_less)
  then have "length (d_int d) \<le> 19 - s"
    using d(3) length_write_decimal assms(2) by (simp add: kMaxScale_def)
  then show ?thesis
    using d assms(2)
    by (auto simp: decimal_text_def frac_digits_def kMaxFormattedFixed_def kMaxScale_def
        split: option.splits)
qed

theorem format_fixed_bound_witness:
  "length (format_fixed i64_min 18) \<le> 21 \<and> 21 \<le> kMaxFormattedFixed"
proof -
  have "i64 i64_min" "(18::nat) \<le> kMaxScale" by (simp_all add: int_limits kMaxScale_def)
  from format_fixed_bound [OF this] show ?thesis .
qed

subsection \<open>Canonical spelling\<close>

lemma format_fixed_no_plus:
  assumes "i64 m"
  shows "strip_plus (format_fixed m s) = format_fixed m s"
proof -
  obtain d where d: "format_fixed m s = decimal_text d" "decimal_wf d"
      "length (d_int d) = length (write_decimal (nat \<bar>m\<bar> div 10 ^ s) [])"
      "d_sign d = (if m < 0 then ''-'' else [])"
    using decimal_of_format [OF assms, of s] by metis
  then have "d_int d \<noteq> []" using write_decimal_nonempty by (metis length_0_conv)
  then have "is_digit (hd (d_int d))"
    using d(2) by (intro hd_digits) (auto simp: decimal_wf_def)
  then show ?thesis
    using d \<open>d_int d \<noteq> []\<close>
    by (cases "d_int d") (auto simp: strip_plus_def decimal_text_def)
qed

text \<open>
  A text is canonical at a scale exactly when it is the rendering of some mantissa whose magnitude
  fits in 64 bits, optionally after one plus sign.
\<close>

theorem canonical_iff_formatted:
  "is_canonical_at_scale text s \<longleftrightarrow>
     s \<le> kMaxScale \<and>
     (\<exists>m. \<bar>m\<bar> \<le> i64_max \<and> (text = format_fixed m s \<or> text = CHR ''+'' # format_fixed m s))"
proof
  assume c: "is_canonical_at_scale text s"
  define m where "m = pr_mantissa (parse_fixed (strip_plus text) s)"
  have p: "parse_fixed (strip_plus text) s = parse_result m ParseOk"
    using c by (auto simp: is_canonical_at_scale_def Let_def m_def pr_ok_def parse_result_def
        split: if_splits)
  have f: "format_fixed m s = strip_plus text"
    using c by (auto simp: is_canonical_at_scale_def Let_def m_def format_fixed_def split: if_splits)
  have "text = strip_plus text \<or> text = CHR ''+'' # strip_plus text"
    by (auto simp: strip_plus_def split: list.splits)
  then show "s \<le> kMaxScale \<and>
     (\<exists>m. \<bar>m\<bar> \<le> i64_max \<and> (text = format_fixed m s \<or> text = CHR ''+'' # format_fixed m s))"
    using f shift_mantissa_Ok p parse_fixed_accepts [OF p] parse_fixed_bound [OF p] by auto
next
  assume "s \<le> kMaxScale \<and>
     (\<exists>m. \<bar>m\<bar> \<le> i64_max \<and> (text = format_fixed m s \<or> text = CHR ''+'' # format_fixed m s))"
  then obtain m where m: "s \<le> kMaxScale" "\<bar>m\<bar> \<le> i64_max"
      "text = format_fixed m s \<or> text = CHR ''+'' # format_fixed m s" by blast
  then have i: "i64 m" "m \<noteq> i64_min" by (auto simp: int_limits)
  then have "strip_plus text = format_fixed m s"
    using m(3) format_fixed_no_plus by (auto simp: strip_plus_def)
  then show "is_canonical_at_scale text s"
    using parse_format_law [OF i(1) m(1)] i(2)
    by (simp add: is_canonical_at_scale_def Let_def format_fixed_def)
qed

lemma parse_fixed_skip_plus:
  assumes "parse_fixed text s = parse_result m ParseOk"
  shows "parse_fixed (strip_plus text) s = parse_result m ParseOk"
proof (cases "\<exists>r. text = CHR ''+'' # r")
  case True
  then obtain r where r: "text = CHR ''+'' # r" by blast
  have s: "s \<le> kMaxScale" and ne: "text \<noteq> []"
    using parse_fixed_accepts [OF assms] by auto
  then obtain d where d: "decimal_wf d" "decimal_text d = text"
    using decimal_text_complete [OF ne s] assms by auto
  obtain sg ip fo eo where dd: "d = Decimal sg ip fo eo" by (cases d)
  have "ip \<noteq> [] \<longrightarrow> is_digit (hd ip)"
    using d(1) dd hd_digits by (auto simp: decimal_wf_def)
  then have "sg = ''+''"
    using d dd r by (auto simp: decimal_wf_def is_sign_def decimal_text_def frac_digits_def
        append_eq_Cons_conv split: option.splits)
  then have r': "r = decimal_text (Decimal [] ip fo eo)" and w: "decimal_wf (Decimal [] ip fo eo)"
    using d dd r by (auto simp: decimal_text_def decimal_wf_def frac_digits_def is_sign_def)
  have "parse_fixed r s = parse_fixed text s"
    unfolding r' d(2) [symmetric] parse_fixed_decimal [OF w s] parse_fixed_decimal [OF d(1) s]
    by (simp add: dd \<open>sg = ''+''\<close> significand_def clamped_shift_def frac_digits_def exponent_of_def)
  then show ?thesis using assms r by (simp add: strip_plus_def)
next
  case False
  then have "strip_plus text = text" by (auto simp: strip_plus_def split: list.splits)
  with assms show ?thesis by simp
qed

text \<open>
  The overload that takes the already parsed mantissa agrees with the one that parses again,
  whenever that mantissa is the one parsing yields.
\<close>

theorem canonical_overloads_agree:
  assumes "parse_fixed text s = parse_result m ParseOk"
  shows "is_canonical_parsed text s m = is_canonical_at_scale text s"
  using parse_fixed_skip_plus [OF assms]
  by (simp add: is_canonical_parsed_def is_canonical_at_scale_def Let_def)

theorem canonical_overloads_agree_witness:
  "is_canonical_parsed ''1.50'' 2 150 = is_canonical_at_scale ''1.50'' 2"
proof -
  have "parse_fixed ''1.50'' 2 = parse_result 150 ParseOk" by code_simp
  then show ?thesis by (rule canonical_overloads_agree)
qed

subsection \<open>Checksum tokens\<close>

text \<open>Kraken's transformation of the text on the wire: no point, no leading zeros.\<close>

definition wire_token :: "string \<Rightarrow> string" where
  "wire_token text = dropWhile (\<lambda>c. c = CHR ''0'') (filter (\<lambda>c. c \<noteq> CHR ''.'') text)"

lemma digit_value_zero: "is_digit c \<Longrightarrow> digit_value c = 0 \<longleftrightarrow> c = CHR ''0''"
proof -
  assume "is_digit c"
  then have "digit_value c = 0 \<longleftrightarrow> of_char c = (of_char (CHR ''0'') :: nat)"
    by (auto simp: digit_value_def is_digit_code)
  then show ?thesis by (simp only: of_char_eq_iff)
qed

lemma digits_value_zero: "all_digits ds \<Longrightarrow> digits_value ds = 0 \<longleftrightarrow> (\<forall>c \<in> set ds. c = CHR ''0'')"
  by (induction ds) (auto simp: all_digits_def digits_value_Cons digit_value_zero)

lemma strip_zeros_unique:
  "all_digits ds \<Longrightarrow> 0 < digits_value ds \<Longrightarrow>
     dropWhile (\<lambda>c. c = CHR ''0'') ds = write_decimal (digits_value ds) []"
proof (induction ds rule: rev_induct)
  case (snoc c ds)
  then have c: "is_digit c" and ds: "all_digits ds" by (auto simp: all_digits_def)
  have v: "digits_value (ds @ [c]) = 10 * digits_value ds + digit_value c"
    by (simp add: digits_value_append digits_value_Cons)
  have c9: "digit_value c < 10" using digit_value_le [OF c] by simp
  show ?case
  proof (cases "digits_value ds = 0")
    case True
    then have "\<forall>c \<in> set ds. c = CHR ''0''" using digits_value_zero [OF ds] by blast
    then have "dropWhile (\<lambda>c. c = CHR ''0'') (ds @ [c]) = dropWhile (\<lambda>c. c = CHR ''0'') [c]"
      by (intro dropWhile_append2) blast
    moreover have "c \<noteq> CHR ''0''" using snoc.prems True v digit_value_zero [OF c] by auto
    ultimately show ?thesis
      using True v c9 digit_char_value [OF c] write_decimal_unfold [of "digit_value c" "[]"]
      by simp
  next
    case False
    then have pos: "0 < digits_value ds" by (simp only: neq0_conv not_False_eq_True)
    have "dropWhile (\<lambda>c. c = CHR ''0'') ds = write_decimal (digits_value ds) []"
      by (rule snoc.IH [OF ds pos])
    moreover have "\<exists>x \<in> set ds. x \<noteq> CHR ''0''" using False unfolding digits_value_zero [OF ds] by (simp only: ball_simps not_not bex_simps simp_thms)
    then have "dropWhile (\<lambda>c. c = CHR ''0'') (ds @ [c]) = dropWhile (\<lambda>c. c = CHR ''0'') ds @ [c]"
      by (meson dropWhile_append1)
    moreover have "10 \<le> digits_value (ds @ [c])" using False v by simp
    from write_decimal_snoc [OF this]
    have "write_decimal (digits_value (ds @ [c])) [] = write_decimal (digits_value ds) [] @ [c]"
      using v c9 digit_char_value [OF c] by simp
    ultimately show ?thesis by simp
  qed
qed simp

lemma checksum_token_wire_law:
  assumes "is_canonical_at_scale text s" "parse_fixed text s = parse_result m ParseOk" "0 < m"
  shows "wire_token (strip_plus text) = checksum_token m"
proof -
  have "parse_fixed (strip_plus text) s = parse_result m ParseOk"
    using assms(2) by (rule parse_fixed_skip_plus)
  then have t: "strip_plus text = format_fixed m s" and b: "i64 m"
    using assms(1) i64_abs [OF parse_fixed_bound [OF assms(2)]]
    by (auto simp: is_canonical_at_scale_def Let_def format_fixed_def)
  obtain q f where qf: "format_fixed m s =
      decimal_text (Decimal (if m < 0 then ''-'' else []) (write_decimal q [])
        (if s > 0 then Some f else None) None)"
      "q = nat \<bar>m\<bar> div 10 ^ s" "length f = s" "all_digits f" "digits_value f = nat \<bar>m\<bar> mod 10 ^ s"
    using format_fixed_decimal [OF b] by blast
  have nodot: "filter (\<lambda>c. c \<noteq> CHR ''.'') ds = ds" if "all_digits ds" for ds
    using that by (auto simp: filter_id_conv all_digits_def)
  let ?ds = "write_decimal q [] @ f"
  have "filter (\<lambda>c. c \<noteq> CHR ''.'') (format_fixed m s) = ?ds"
    using qf assms(3) nodot [OF write_decimal_digits] nodot [OF qf(4)]
    by (auto simp: decimal_text_def)
  moreover have "digits_value ?ds = nat \<bar>m\<bar>"
    using qf by (simp add: digits_value_append write_decimal_value div_mult_mod_eq)
  moreover have "all_digits ?ds"
    using qf(4) write_decimal_digits by (auto simp: all_digits_def)
  ultimately show ?thesis
    using strip_zeros_unique [of ?ds] assms(3) b
    by (simp add: wire_token_def t checksum_token_def magnitude_u64_abs)
qed

text \<open>
  For a positive canonical number the checksum token computed from the mantissa is the text on the
  wire with the point and the leading zeros removed, which is what the exchange hashes.
\<close>

theorem checksum_token_is_wire_token:
  assumes "is_canonical_at_scale text s" "parse_fixed text s = parse_result m ParseOk" "0 < m"
  shows "wire_token (strip_plus text) = checksum_token m"
  using assms by (rule checksum_token_wire_law)

theorem checksum_token_is_wire_token_witness:
  "wire_token (strip_plus ''0.0150'') = checksum_token 150 \<and> checksum_token 150 = ''150''"
proof -
  have h: "is_canonical_at_scale ''0.0150'' 4" "parse_fixed ''0.0150'' 4 = parse_result 150 ParseOk"
    by code_simp+
  have "checksum_token 150 = ''150''" by code_simp
  with checksum_token_is_wire_token [OF h] show ?thesis by simp
qed

text \<open>The one value the identity misses: zero has no wire token but one digit here.\<close>

lemma checksum_token_zero: "wire_token ''0.00'' = [] \<and> checksum_token 0 = ''0''"
  by code_simp

subsection \<open>The clamp is not exact\<close>

definition clamp_text :: string where
  "clamp_text = ''0.'' @ replicate 1000 (CHR ''0'') @ ''1e2000''"

lemma digits_value_zeros: "digits_value (replicate k (CHR ''0'') @ ds) = digits_value ds"
  by (induction k) (auto simp: digits_value_Cons digit_value_def)

lemma decimal_value_unit:
  "d_sign d = [] \<Longrightarrow> significand d = 1 \<Longrightarrow>
     exponent_of d - int (length (frac_digits d)) = k \<Longrightarrow> decimal_value d = 10 powi k"
  by (simp add: decimal_value_def)

text \<open>
  The clamp on the exponent loses digits it should count: a well-formed text of one thousand
  fraction zeros with exponent 2000, worth \<open>10^999\<close>, is accepted at scale 1 as mantissa 1.
\<close>

theorem parse_fixed_clamp_inexact:
  "\<exists>d. decimal_wf d \<and> decimal_text d = clamp_text \<and> decimal_value d = 10 powi 999 \<and>
     parse_fixed clamp_text 1 = parse_result 1 ParseOk"
proof -
  let ?f = "replicate 1000 (CHR ''0'') @ ''1''"
  let ?d = "Decimal [] ''0'' (Some ?f) (Some (CHR ''e'', [], ''2000''))"
  have dig: "all_digits ''0''" "all_digits ''1''" "all_digits ''2000''" by code_simp+
  then have f: "all_digits ?f" by (auto simp: all_digits_def)
  have wf: "decimal_wf ?d"
    using dig f by (simp add: decimal_wf_def is_sign_def frac_digits_def)
  have t: "decimal_text ?d = clamp_text" by (simp add: decimal_text_def clamp_text_def)
  have "CHR ''0'' # ?f = replicate (Suc 1000) (CHR ''0'') @ ''1''"
    by (simp only: replicate_Suc append_Cons)
  moreover have "digits_value (replicate (Suc 1000) (CHR ''0'') @ ''1'') = 1"
    unfolding digits_value_zeros by code_simp
  ultimately have "digits_value (CHR ''0'' # ?f) = 1" by (simp only:)
  then have sig: "significand ?d = 1" by (simp add: significand_def frac_digits_def)
  have len: "length (frac_digits ?d) = 1001" by (simp add: frac_digits_def)
  have "digits_value ''2000'' = 2000" by code_simp
  then have e: "exponent_of ?d = 2000" by (simp add: exponent_of_def)
  have "decimal_value ?d = 10 powi 999"
    by (rule decimal_value_unit) (simp_all add: sig len e)
  moreover have "clamped_shift ?d 1 = 0" by (simp add: clamped_shift_def clamp_exponent_def e len)
  then have "parse_fixed clamp_text 1 = parse_result 1 ParseOk"
    using parse_fixed_decimal [OF wf, of 1] t sig
    by (simp add: kMaxScale_def shift_mantissa_def i64_max_def)
  ultimately show ?thesis using wf t by blast
qed

end
