(* ===== verification/Types.thy ===== *)
theory Types
  imports Fixed
begin

text \<open>
  \<open>include/crossbook/types.hpp\<close>: the value types shared by every venue and every book.
  Price and quantity are separate types, each a mantissa, ordered as their mantissas are.
\<close>

datatype side = Bid | Ask

definition opposite :: "side \<Rightarrow> side" where
  "opposite s = (if s = Bid then Ask else Bid)"

definition side_to_string :: "side \<Rightarrow> string" where
  "side_to_string s = (if s = Bid then ''bid'' else ''ask'')"

text \<open>The enumerators' values, used where the code casts a side to an integer.\<close>

definition side_value :: "side \<Rightarrow> int" where
  "side_value s = (case s of Bid \<Rightarrow> 0 | Ask \<Rightarrow> 1)"

datatype price = Price (ticks: int)

datatype qty = Qty (units: int)

definition qty_is_zero :: "qty \<Rightarrow> bool" where
  "qty_is_zero q \<longleftrightarrow> units q = 0"

datatype level = Level (price: price) (qty: qty)

record instrument_spec =
  is_symbol :: string
  is_price_scale :: nat
  is_qty_scale :: nat

type_synonym timestamp = int
type_synonym sequence_id = u64

text \<open>The defaulted three-way comparisons.\<close>

instantiation price :: linorder
begin

definition less_eq_price :: "price \<Rightarrow> price \<Rightarrow> bool" where
  "less_eq_price a b \<longleftrightarrow> ticks a \<le> ticks b"

definition less_price :: "price \<Rightarrow> price \<Rightarrow> bool" where
  "less_price a b \<longleftrightarrow> ticks a < ticks b"

instance
  by standard (auto simp: less_eq_price_def less_price_def price.expand)

end

instantiation qty :: linorder
begin

definition less_eq_qty :: "qty \<Rightarrow> qty \<Rightarrow> bool" where
  "less_eq_qty a b \<longleftrightarrow> units a \<le> units b"

definition less_qty :: "qty \<Rightarrow> qty \<Rightarrow> bool" where
  "less_qty a b \<longleftrightarrow> units a < units b"

instance
  by standard (auto simp: less_eq_qty_def less_qty_def qty.expand)

end

text \<open>A level as the key and value the containers store.\<close>

definition level_of :: "int \<times> int \<Rightarrow> level" where
  "level_of p = Level (Price (fst p)) (Qty (snd p))"

definition pair_of :: "level \<Rightarrow> int \<times> int" where
  "pair_of l = (ticks (price l), units (qty l))"

lemma level_pair [simp]:
  "level_of (pair_of l) = l" "pair_of (level_of p) = p"
  "price (level_of p) = Price (fst p)" "qty (level_of p) = Qty (snd p)"
  "fst (pair_of l) = ticks (price l)" "snd (pair_of l) = units (qty l)"
  by (cases l; cases "price l"; cases "qty l"; simp add: level_of_def pair_of_def)+

lemma level_of_eq [simp]: "level_of p = level_of q \<longleftrightarrow> p = q"
  by (metis level_pair(2))

lemma opposite_opposite [simp]: "opposite (opposite s) = s"
  by (cases s) (simp_all add: opposite_def)

end
