(* ===== verification/Side_Spec.thy ===== *)
theory Side_Spec
  imports Types
begin

text \<open>
  What a side container of the book promises (\<open>include/crossbook/book.hpp\<close>): it holds a finite
  set of price levels with absolute, non-zero quantities, iterates them in book order, and
  reports the touch.  \<open>side_impl\<close> is the dictionary of the operations through which
  \<open>BasicL2Book\<close> uses its template parameter; the locale \<open>book_side\<close> states the laws.
\<close>

text \<open>Bids run high to low, asks low to high.\<close>

definition precedes :: "side \<Rightarrow> int \<Rightarrow> int \<Rightarrow> bool" where
  "precedes s a b \<longleftrightarrow> (if s = Bid then a > b else a < b)"

lemma precedes_Ask [simp]: "precedes Ask = (<)" and precedes_Bid [simp]: "precedes Bid = (>)"
  by (simp_all add: precedes_def fun_eq_iff)

section \<open>The abstract content\<close>

type_synonym contents = "(int \<times> int) list"

definition contents_ok :: "contents \<Rightarrow> bool" where
  "contents_ok m \<longleftrightarrow> ascending m \<and> (\<forall>(p, q) \<in> set m. i64 p \<and> i64 q \<and> q \<noteq> 0)"

text \<open>An update carries the new resting size; size zero removes the level.\<close>

definition contents_apply :: "int \<Rightarrow> int \<Rightarrow> contents \<Rightarrow> contents" where
  "contents_apply p q m = (if q = 0 then amap_erase p m else amap_set p q m)"

definition book_order :: "side \<Rightarrow> 'a list \<Rightarrow> 'a list" where
  "book_order s m = (if s = Ask then m else rev m)"

definition content_levels :: "side \<Rightarrow> contents \<Rightarrow> level list" where
  "content_levels s m = map level_of (book_order s m)"

lemma book_order_simps [simp]:
  "book_order s (book_order s m) = m" "book_order s [] = []"
  "length (book_order s m) = length m" "set (book_order s m) = set m"
  "keys (book_order s m') = book_order s (keys m')"
  by (simp_all add: book_order_def keys_def rev_map)

lemma sorted_book_order:
  "sorted_wrt (precedes s) (book_order s ks) \<longleftrightarrow> sorted_wrt (<) ks"
  by (cases s) (simp_all add: book_order_def sorted_wrt_rev)

lemma contents_ok_Nil [simp, intro]: "contents_ok []"
  by (simp add: contents_ok_def)

lemma contents_apply_ok:
  "contents_ok m \<Longrightarrow> i64 p \<Longrightarrow> i64 q \<Longrightarrow> contents_ok (contents_apply p q m)"
  by (auto simp: contents_ok_def contents_apply_def ascending_amap_erase ascending_amap_set)
    (auto simp: amap_erase_def amap_set_def dest: set_takeWhileD set_dropWhileD)

lemma contents_apply_lookup:
  "contents_ok m \<Longrightarrow>
     map_of (contents_apply p q m) = (map_of m)(p := if q = 0 then None else Some q)"
  by (auto simp: contents_ok_def contents_apply_def map_of_amap_erase map_of_amap_set)

text \<open>Book order is the only order: a list of levels in book order with the right lookups.\<close>

lemma book_order_unique:
  assumes "contents_ok m" "sorted_wrt (precedes s) (keys xs)" "set xs = set m"
  shows "xs = book_order s m"
proof -
  have "ascending (book_order s xs)"
    using assms(2) sorted_book_order [of s "keys (book_order s xs)"] by simp
  moreover have "map_of (book_order s xs) = map_of m"
    using assms calculation ascending_distinct [of m] ascending_distinct [of "book_order s xs"]
    by (intro map_of_inject_set [THEN iffD2]) (auto simp: contents_ok_def keys_def)
  ultimately have "book_order s xs = m"
    using assms(1) by (intro ascending_map_of_unique) (auto simp: contents_ok_def)
  then show ?thesis by (metis book_order_simps(1))
qed

section \<open>The operations and their laws\<close>

record 's side_impl =
  si_new :: "side \<Rightarrow> 's"
  si_apply :: "price \<Rightarrow> qty \<Rightarrow> 's \<Rightarrow> 's"
  si_clear :: "'s \<Rightarrow> 's"
  si_size :: "'s \<Rightarrow> nat"
  si_best :: "'s \<Rightarrow> level option"
  si_levels :: "'s \<Rightarrow> level list"

locale book_side =
  fixes impl :: "'s side_impl"
    and holds :: "'s \<Rightarrow> side \<Rightarrow> contents \<Rightarrow> bool"
  assumes holds_ok: "holds x s m \<Longrightarrow> contents_ok m"
    and holds_new: "holds (si_new impl s) s []"
    and holds_apply: "holds x s m \<Longrightarrow> i64 (ticks p) \<Longrightarrow> i64 (units q) \<Longrightarrow>
      holds (si_apply impl p q x) s (contents_apply (ticks p) (units q) m)"
    and holds_clear: "holds x s m \<Longrightarrow> holds (si_clear impl x) s []"
    and size_law: "holds x s m \<Longrightarrow> si_size impl x = length m"
    and levels_law: "holds x s m \<Longrightarrow> si_levels impl x = content_levels s m"
    and best_law: "holds x s m \<Longrightarrow>
      si_best impl x = (case content_levels s m of [] \<Rightarrow> None | l # _ \<Rightarrow> Some l)"
begin

lemma contents_unique:
  assumes "holds x s m" "holds x s n"
  shows "m = n"
proof -
  have "map level_of (book_order s m) = map level_of (book_order s n)"
    using levels_law [OF assms(1)] levels_law [OF assms(2)] by (simp add: content_levels_def)
  then have "book_order s m = book_order s n"
    by (metis inj_map_eq_map injI level_of_eq)
  then show ?thesis by (metis book_order_simps(1))
qed

end

end
