(* ===== verification/Side_Array.thy ===== *)
theory Side_Array
  imports Side_Spec
begin

text \<open>
  \<open>ArraySide\<close> of \<open>include/crossbook/book.hpp\<close>: a direct-address window of quantities indexed by
  the tick offset from a moving base, with a sorted spill list for the levels outside it.
  The window is a list, read and written by index; offsets are computed in unsigned 64-bit
  arithmetic with the wrap-around written out (\<open>u64_of\<close>).  The collect buffer of the rebuild is
  local to it here: its content is never read across calls.
\<close>

section \<open>State\<close>

definition kDefaultSlots :: nat where "kDefaultSlots = 65536"
definition kOverflowRebuildThreshold :: nat where "kOverflowRebuildThreshold = 64"
definition kNoDirty :: nat where "kNoDirty = 18446744073709551615"

record array_side =
  as_side :: side
  as_slots :: nat
  as_window :: "int list"
  as_overflow :: "level list"
  as_base :: int
  as_window_count :: nat
  as_best_index :: nat
  as_dirty_lo :: nat
  as_dirty_hi :: nat
  as_overflow_floor :: nat
  as_rebuild_count :: u64
  as_degraded :: bool
  as_anchored :: bool

definition array_side_new :: "nat \<Rightarrow> side \<Rightarrow> array_side" where
  "array_side_new slots s =
     \<lparr>as_side = s, as_slots = slots, as_window = replicate slots 0, as_overflow = [],
      as_base = 0, as_window_count = 0, as_best_index = 0, as_dirty_lo = kNoDirty,
      as_dirty_hi = 0, as_overflow_floor = 0, as_rebuild_count = 0, as_degraded = False,
      as_anchored = False\<rparr>"

section \<open>The window\<close>

definition anchor_for :: "nat \<Rightarrow> int \<Rightarrow> int" where
  "anchor_for slots touch =
     (let half = int (slots div 2);
          span = (if slots = 0 then 0 else int (slots - 1));
          highest = i64_max - span
      in if touch < i64_min + half then i64_min
         else (let centred = touch - half in if centred > highest then highest else centred))"

definition window_index :: "array_side \<Rightarrow> int \<Rightarrow> nat option" where
  "window_index x t =
     (let offset = u64_of (u64_of t - u64_of (as_base x))
      in if offset \<ge> int (as_slots x) then None else Some (nat offset))"

text \<open>The conversion of an unsigned 64-bit value back to a signed one.\<close>

definition i64_of :: "int \<Rightarrow> int" where
  "i64_of u = (if u \<le> i64_max then u else u - 18446744073709551616)"

definition price_at :: "array_side \<Rightarrow> nat \<Rightarrow> int" where
  "price_at x i = i64_of (u64_of (u64_of (as_base x) + int i))"

definition better_index :: "array_side \<Rightarrow> nat \<Rightarrow> nat \<Rightarrow> bool" where
  "better_index x candidate incumbent =
     (if as_side x = Ask then candidate < incumbent else candidate > incumbent)"

definition mark_dirty :: "nat \<Rightarrow> array_side \<Rightarrow> array_side" where
  "mark_dirty i x =
     (if as_dirty_lo x > as_dirty_hi x then x\<lparr>as_dirty_lo := i, as_dirty_hi := i\<rparr>
      else (let x1 = (if i < as_dirty_lo x then x\<lparr>as_dirty_lo := i\<rparr> else x)
            in if i > as_dirty_hi x1 then x1\<lparr>as_dirty_hi := i\<rparr> else x1))"

definition clear_window_slots :: "array_side \<Rightarrow> array_side" where
  "clear_window_slots x =
     (let w = as_window x; lo = as_dirty_lo x; hi = as_dirty_hi x;
          x1 = (if lo \<le> hi
                then x\<lparr>as_window := take lo w @ replicate (hi + 1 - lo) 0 @ drop (hi + 1) w\<rparr>
                else x)
      in x1\<lparr>as_dirty_lo := kNoDirty, as_dirty_hi := 0\<rparr>)"

text \<open>
  \<open>while (i >= 0 && i < slot_count && window_[i] == 0) i += step\<close>, the scan shared by
  \<open>seek_occupied\<close> and \<open>advance_best_after_removal\<close>.
\<close>

function scan_slots :: "bool \<Rightarrow> int list \<Rightarrow> int \<Rightarrow> int" where
  "scan_slots asc w i =
     (if 0 \<le> i \<and> i < int (length w) \<and> w ! nat i = 0
      then scan_slots asc w (if asc then i + 1 else i - 1) else i)"
  by pat_completeness auto
termination
  by (relation "measure (\<lambda>(asc, w, i). if asc then nat (int (length w) - i) else nat (i + 1))") auto

declare scan_slots.simps [simp del]

definition advance_best_after_removal :: "array_side \<Rightarrow> array_side" where
  "advance_best_after_removal x =
     (if as_window_count x = 0 then x\<lparr>as_best_index := 0\<rparr>
      else (let step = (if as_side x = Ask then 1 else - 1);
                i = scan_slots (as_side x = Ask) (as_window x) (int (as_best_index x) + step)
            in x\<lparr>as_best_index := (if 0 \<le> i \<and> i < int (as_slots x) then nat i else 0)\<rparr>))"

section \<open>The spill list\<close>

text \<open>\<open>std::lower_bound\<close> on an ascending vector is the length of the run below the key.\<close>

definition overflow_lower_bound :: "int \<Rightarrow> level list \<Rightarrow> nat" where
  "overflow_lower_bound t ov = length (takeWhile (\<lambda>l. ticks (price l) < t) ov)"

definition overflow_set :: "int \<Rightarrow> int \<Rightarrow> level list \<Rightarrow> level list" where
  "overflow_set t u ov =
     (let i = overflow_lower_bound t ov
      in if i < length ov \<and> ticks (price (ov ! i)) = t
         then ov[i := Level (price (ov ! i)) (Qty u)]
         else take i ov @ Level (Price t) (Qty u) # drop i ov)"

definition overflow_erase :: "int \<Rightarrow> level list \<Rightarrow> level list" where
  "overflow_erase t ov =
     (let i = overflow_lower_bound t ov
      in if i < length ov \<and> ticks (price (ov ! i)) = t then take i ov @ drop (Suc i) ov else ov)"

definition overflow_touch :: "array_side \<Rightarrow> level" where
  "overflow_touch x = (if as_side x = Ask then hd (as_overflow x) else last (as_overflow x))"

section \<open>Iteration\<close>

text \<open>
  The two-way merge of \<open>for_each\<close>.  \<open>win_index\<close> is \<open>-1\<close> once the window is exhausted;
  \<open>emitted\<close> and \<open>ov_taken\<close> count what has been visited on either side.
\<close>

definition overflow_level :: "array_side \<Rightarrow> nat \<Rightarrow> level" where
  "overflow_level x taken =
     (let ov = as_overflow x
      in if as_side x = Ask then ov ! taken else ov ! (length ov - 1 - taken))"

definition seek_occupied :: "array_side \<Rightarrow> nat \<Rightarrow> int \<Rightarrow> int" where
  "seek_occupied x emitted win_index =
     (if emitted \<ge> as_window_count x then - 1
      else (let i = scan_slots (as_side x = Ask) (as_window x) win_index
            in if i < 0 \<or> i \<ge> int (length (as_window x)) then - 1 else i))"

definition take_window :: "array_side \<Rightarrow> int \<Rightarrow> nat \<Rightarrow> bool" where
  "take_window x win_index ov_taken =
     (if win_index < 0 then False
      else if ov_taken \<ge> length (as_overflow x) then True
      else precedes (as_side x) (price_at x (nat win_index))
             (ticks (price (overflow_level x ov_taken))))"

definition window_level :: "array_side \<Rightarrow> nat \<Rightarrow> level" where
  "window_level x i = Level (Price (price_at x i)) (Qty (as_window x ! i))"

definition step_index :: "array_side \<Rightarrow> int \<Rightarrow> int" where
  "step_index x i = (if as_side x = Ask then i + 1 else i - 1)"

definition window_left :: "array_side \<Rightarrow> int \<Rightarrow> nat" where
  "window_left x i =
     (if i < 0 then 0
      else Suc (if as_side x = Ask then nat (int (length (as_window x)) - i) else nat i))"

lemma scan_slots_dir:
  "asc \<Longrightarrow> i \<le> scan_slots asc w i" "\<not> asc \<Longrightarrow> scan_slots asc w i \<le> i"
proof (induction asc w i rule: scan_slots.induct)
  case (1 asc w i)
  {
    case 1
    with "1.IH" show ?case by (subst scan_slots.simps) auto
  next
    case 2
    with "1.IH" show ?case by (subst scan_slots.simps) auto
  }
qed

lemma window_left_seek: "0 \<le> i \<Longrightarrow> window_left x (seek_occupied x e (step_index x i)) < window_left x i"
  using scan_slots_dir [where asc = "as_side x = Ask" and i = "step_index x i" and w = "as_window x"]
  by (auto simp: seek_occupied_def window_left_def step_index_def Let_def split: if_splits)

function merge_loop ::
    "array_side \<Rightarrow> (level \<Rightarrow> 'st \<Rightarrow> bool \<times> 'st) \<Rightarrow> nat \<Rightarrow> int \<Rightarrow> nat \<Rightarrow> 'st \<Rightarrow> 'st" where
  "merge_loop x f emitted win_index ov_taken st =
     (if win_index \<ge> 0 \<or> ov_taken < length (as_overflow x) then
        (if take_window x win_index ov_taken then
           (case f (window_level x (nat win_index)) st of
              (go, st') \<Rightarrow>
                if go then merge_loop x f (Suc emitted)
                             (seek_occupied x (Suc emitted) (step_index x win_index)) ov_taken st'
                else st')
         else
           (case f (overflow_level x ov_taken) st of
              (go, st') \<Rightarrow>
                if go then merge_loop x f emitted win_index (Suc ov_taken) st' else st'))
      else st)"
  by pat_completeness auto
termination
  by (relation "measure (\<lambda>(x, f, e, wi, ot, st). window_left x wi + (length (as_overflow x) - ot))")
    (auto simp: take_window_def window_left_seek split: if_splits)

declare merge_loop.simps [simp del]

definition array_for_each :: "(level \<Rightarrow> 'st \<Rightarrow> bool \<times> 'st) \<Rightarrow> array_side \<Rightarrow> 'st \<Rightarrow> 'st" where
  "array_for_each f x st =
     (let win_index = (if as_anchored x \<and> as_window_count x > 0 then int (as_best_index x) else - 1);
          win_index' = (if win_index \<ge> 0 then seek_occupied x 0 win_index else win_index)
      in merge_loop x f 0 win_index' 0 st)"

definition array_size :: "array_side \<Rightarrow> nat" where
  "array_size x = as_window_count x + length (as_overflow x)"

definition array_best :: "array_side \<Rightarrow> level option" where
  "array_best x =
     (if \<not> (as_anchored x \<and> as_window_count x > 0) then
        (if as_overflow x = [] then None else Some (overflow_touch x))
      else
        (let win = window_level x (as_best_index x)
         in if as_overflow x = [] then Some win
            else (let spill = overflow_touch x
                  in if precedes (as_side x) (ticks (price win)) (ticks (price spill))
                     then Some win else Some spill)))"

section \<open>Updates\<close>

text \<open>The refill loop of the rebuild places one collected level.\<close>

definition refill_level :: "level \<Rightarrow> array_side \<Rightarrow> array_side" where
  "refill_level l x =
     (case window_index x (ticks (price l)) of
        Some i \<Rightarrow>
          (let x1 = (if as_window_count x = 0 then x\<lparr>as_best_index := i\<rparr> else x);
               x2 = mark_dirty i (x1\<lparr>as_window := (as_window x1)[i := units (qty l)]\<rparr>)
           in x2\<lparr>as_window_count := as_window_count x2 + 1\<rparr>)
      | None \<Rightarrow> x\<lparr>as_overflow := as_overflow x @ [l]\<rparr>)"

definition rebuild_around_touch :: "array_side \<Rightarrow> array_side" where
  "rebuild_around_touch x =
     (let x0 = x\<lparr>as_rebuild_count := as_rebuild_count x + 1\<rparr>;
          before = length (as_overflow x0);
          scratch = array_for_each push_back x0 []
      in if scratch = [] then x0
         else
           (let touch = ticks (price (hd scratch));
                x1 = (clear_window_slots x0)
                  \<lparr>as_overflow := [], as_window_count := 0, as_best_index := 0,
                   as_base := anchor_for (as_slots x0) touch, as_anchored := True\<rparr>;
                x2 = fold refill_level scratch x1;
                x3 = (if as_side x2 = Bid then x2\<lparr>as_overflow := rev (as_overflow x2)\<rparr> else x2);
                after = length (as_overflow x3)
            in x3\<lparr>as_overflow_floor := after,
                  as_degraded := (after > 0 \<and> after \<ge> before)\<rparr>))"

definition apply_in_window :: "nat \<Rightarrow> qty \<Rightarrow> array_side \<Rightarrow> array_side" where
  "apply_in_window i q x =
     (if qty_is_zero q then
        (if as_window x ! i \<noteq> 0 then
           (let x1 = x\<lparr>as_window := (as_window x)[i := 0], as_window_count := as_window_count x - 1\<rparr>
            in if i = as_best_index x1 then advance_best_after_removal x1 else x1)
         else x)
      else
        (let x1 = (if as_window x ! i = 0 then
                     (let x0 = (if as_window_count x = 0 \<or> better_index x i (as_best_index x)
                                then x\<lparr>as_best_index := i\<rparr> else x)
                      in x0\<lparr>as_window_count := as_window_count x0 + 1\<rparr>)
                   else x)
         in mark_dirty i (x1\<lparr>as_window := (as_window x1)[i := units q]\<rparr>)))"

definition apply_outside :: "int \<Rightarrow> qty \<Rightarrow> array_side \<Rightarrow> array_side" where
  "apply_outside t q x =
     (if qty_is_zero q then
        (let x1 = x\<lparr>as_overflow := overflow_erase t (as_overflow x)\<rparr>;
             n = length (as_overflow x1);
             x2 = (if n < as_overflow_floor x1 then x1\<lparr>as_overflow_floor := n\<rparr> else x1)
         in if as_overflow x2 = [] then x2\<lparr>as_degraded := False\<rparr> else x2)
      else
        (let x1 = x\<lparr>as_overflow := overflow_set t (units q) (as_overflow x)\<rparr>
         in if length (as_overflow x1) > as_overflow_floor x1 + kOverflowRebuildThreshold
            then rebuild_around_touch x1 else x1))"

definition array_apply :: "price \<Rightarrow> qty \<Rightarrow> array_side \<Rightarrow> array_side" where
  "array_apply p q x =
     (if \<not> as_anchored x \<and> qty_is_zero q then x
      else
        (let x1 = (if as_anchored x then x
                   else x\<lparr>as_base := anchor_for (as_slots x) (ticks p), as_anchored := True\<rparr>)
         in case window_index x1 (ticks p) of
              Some i \<Rightarrow> apply_in_window i q x1
            | None \<Rightarrow> apply_outside (ticks p) q x1))"

definition array_clear :: "array_side \<Rightarrow> array_side" where
  "array_clear x =
     (clear_window_slots x)
       \<lparr>as_overflow := [], as_window_count := 0, as_best_index := 0, as_anchored := False,
        as_base := 0, as_overflow_floor := 0, as_degraded := False\<rparr>"

definition array_impl :: "nat \<Rightarrow> array_side side_impl" where
  "array_impl slots = \<lparr>si_new = array_side_new slots, si_apply = array_apply,
     si_clear = array_clear, si_size = array_size, si_best = array_best,
     si_levels = (\<lambda>x. array_for_each push_back x [])\<rparr>"

end
