(* ===== verification/Side_Map.thy ===== *)
theory Side_Map
  imports Side_Spec
begin

text \<open>
  \<open>MapSide\<close> of \<open>include/crossbook/book.hpp\<close>, the reference container: a \<open>std::map\<close> keyed by price,
  always ascending, read in the direction of the side.  A \<open>std::map\<close> is its ascending list of
  entries.
\<close>

record map_side =
  ms_side :: side
  ms_levels :: contents

definition map_side_new :: "side \<Rightarrow> map_side" where
  "map_side_new s = \<lparr>ms_side = s, ms_levels = []\<rparr>"

definition map_apply :: "price \<Rightarrow> qty \<Rightarrow> map_side \<Rightarrow> map_side" where
  "map_apply p q x =
     (if qty_is_zero q then x\<lparr>ms_levels := amap_erase (ticks p) (ms_levels x)\<rparr>
      else x\<lparr>ms_levels := amap_set (ticks p) (units q) (ms_levels x)\<rparr>)"

definition map_clear :: "map_side \<Rightarrow> map_side" where
  "map_clear x = x\<lparr>ms_levels := []\<rparr>"

definition map_size :: "map_side \<Rightarrow> nat" where
  "map_size x = length (ms_levels x)"

definition map_best :: "map_side \<Rightarrow> level option" where
  "map_best x =
     (if ms_levels x = [] then None
      else if ms_side x = Ask then Some (level_of (hd (ms_levels x)))
      else Some (level_of (last (ms_levels x))))"

definition map_for_each :: "(level \<Rightarrow> 'st \<Rightarrow> bool \<times> 'st) \<Rightarrow> map_side \<Rightarrow> 'st \<Rightarrow> 'st" where
  "map_for_each f x st =
     (if ms_side x = Ask then visit (\<lambda>p. f (level_of p)) (ms_levels x) st
      else visit (\<lambda>p. f (level_of p)) (rev (ms_levels x)) st)"

definition map_impl :: "map_side side_impl" where
  "map_impl = \<lparr>si_new = map_side_new, si_apply = map_apply, si_clear = map_clear,
     si_size = map_size, si_best = map_best,
     si_levels = (\<lambda>x. map_for_each push_back x [])\<rparr>"

definition map_holds :: "map_side \<Rightarrow> side \<Rightarrow> contents \<Rightarrow> bool" where
  "map_holds x s m \<longleftrightarrow> ms_side x = s \<and> ms_levels x = m \<and> contents_ok m"

lemma visit_map: "visit (\<lambda>p. f (g p)) xs st = visit f (map g xs) st"
  by (induction xs arbitrary: st) (auto split: prod.split)

lemma map_for_each_visit:
  "map_for_each f x st = visit f (content_levels (ms_side x) (ms_levels x)) st"
  by (simp add: map_for_each_def content_levels_def book_order_def visit_map)

interpretation map_side: book_side map_impl map_holds
proof unfold_locales
  fix x s m p q
  assume h: "map_holds x s m"
  show "contents_ok m" using h by (simp add: map_holds_def)
  show "map_holds (si_clear map_impl x) s []"
    using h by (simp add: map_holds_def map_impl_def map_clear_def)
  show "si_size map_impl x = length m"
    using h by (simp add: map_holds_def map_impl_def map_size_def)
  show "si_levels map_impl x = content_levels s m"
    using h by (simp add: map_holds_def map_impl_def map_for_each_visit visit_push_back)
  show "si_best map_impl x = (case content_levels s m of [] \<Rightarrow> None | l # _ \<Rightarrow> Some l)"
  proof (cases s)
    case Bid
    then show ?thesis
      using h by (cases m rule: rev_cases)
        (auto simp: map_holds_def map_impl_def map_best_def content_levels_def book_order_def)
  next
    case Ask
    then show ?thesis
      using h by (cases m)
        (auto simp: map_holds_def map_impl_def map_best_def content_levels_def book_order_def)
  qed
  assume "i64 (ticks p)" "i64 (units q)"
  with h show "map_holds (si_apply map_impl p q x) s (contents_apply (ticks p) (units q) m)"
    using contents_apply_ok [of m "ticks p" "units q"]
    by (auto simp: map_holds_def map_impl_def map_apply_def contents_apply_def qty_is_zero_def)
next
  fix s show "map_holds (si_new map_impl s) s []"
    by (simp add: map_holds_def map_impl_def map_side_new_def)
qed

end
