(* ===== verification/Side_Array_Inv.thy ===== *)
theory Side_Array_Inv
  imports Side_Array Side_Map
begin

text \<open>
  The representation invariant of \<open>ArraySide\<close> (\<open>include/crossbook/book.hpp\<close>), the contents a
  representation stands for, and its observers: the unsigned window offset is exact, the cached
  best index is the touch, \<open>for_each\<close> visits the contents in book order, \<open>size\<close> counts them,
  and the dirty span covers every occupied slot, so that clearing it empties the window.
\<close>


section \<open>The invariant\<close>

definition occupied :: "array_side \<Rightarrow> nat \<Rightarrow> bool" where
  "occupied x i \<longleftrightarrow> as_window x ! i \<noteq> 0"

definition in_window :: "array_side \<Rightarrow> int \<Rightarrow> bool" where
  "in_window x p \<longleftrightarrow> as_base x \<le> p \<and> p < as_base x + int (as_slots x)"

definition count_nz :: "int list \<Rightarrow> nat" where
  "count_nz w = length (filter (\<lambda>v. v \<noteq> 0) w)"

definition window_pairs :: "array_side \<Rightarrow> contents" where
  "window_pairs x =
     map (\<lambda>i. (as_base x + int i, as_window x ! i)) (filter (occupied x) [0..<as_slots x])"

definition spill_pairs :: "array_side \<Rightarrow> contents" where
  "spill_pairs x = map pair_of (as_overflow x)"

definition base_ok :: "array_side \<Rightarrow> bool" where
  "base_ok x \<longleftrightarrow> int (as_slots x) \<le> i64_max \<and> i64_min \<le> as_base x \<and>
     as_base x + int (as_slots x) \<le> i64_max + 1"

definition window_ok :: "array_side \<Rightarrow> bool" where
  "window_ok x \<longleftrightarrow> length (as_window x) = as_slots x \<and> (\<forall>v \<in> set (as_window x). i64 v) \<and>
     as_window_count x = count_nz (as_window x)"

definition best_ok :: "array_side \<Rightarrow> bool" where
  "best_ok x \<longleftrightarrow> (as_window_count x > 0 \<longrightarrow>
     as_best_index x < as_slots x \<and> occupied x (as_best_index x) \<and>
     (\<forall>j < as_slots x. occupied x j \<longrightarrow> \<not> better_index x j (as_best_index x)))"

definition spill_ok :: "array_side \<Rightarrow> bool" where
  "spill_ok x \<longleftrightarrow> contents_ok (spill_pairs x) \<and> (\<forall>p \<in> set (keys (spill_pairs x)). \<not> in_window x p)"

definition dirty_ok :: "array_side \<Rightarrow> bool" where
  "dirty_ok x \<longleftrightarrow>
     (\<forall>j < as_slots x. occupied x j \<longrightarrow> as_dirty_lo x \<le> j \<and> j \<le> as_dirty_hi x) \<and>
     (as_dirty_lo x \<le> as_dirty_hi x \<longrightarrow> as_dirty_hi x < as_slots x)"

definition array_inv :: "array_side \<Rightarrow> bool" where
  "array_inv x \<longleftrightarrow> base_ok x \<and> window_ok x \<and> best_ok x \<and> spill_ok x \<and> dirty_ok x \<and>
     (\<not> as_anchored x \<longrightarrow> as_window_count x = 0 \<and> as_overflow x = [])"

definition entries :: "array_side \<Rightarrow> (int \<times> int) set" where
  "entries x = set (window_pairs x) \<union> set (spill_pairs x)"

definition array_holds :: "array_side \<Rightarrow> side \<Rightarrow> contents \<Rightarrow> bool" where
  "array_holds x s m \<longleftrightarrow> array_inv x \<and> as_side x = s \<and> contents_ok m \<and> set m = entries x"

section \<open>Unsigned offsets\<close>

lemma u64_of_diff: "u64_of (u64_of a - u64_of b) = u64_of (a - b)"
  by (simp add: u64_of_def mod_diff_eq)

lemma window_index_iff:
  assumes "base_ok x" "i64 p"
  shows "window_index x p = (if in_window x p then Some (nat (p - as_base x)) else None)"
proof -
  let ?d = "p - as_base x"
  consider "in_window x p" | "as_base x + int (as_slots x) \<le> p" | "p < as_base x"
    by (force simp: in_window_def)
  then show ?thesis
  proof cases
    case 1
    then have "u64_of ?d = ?d"
      using assms unfolding u64_of_def
      by (intro mod_pos_pos_trivial) (auto simp: in_window_def base_ok_def int_limits)
    with 1 show ?thesis by (auto simp: window_index_def u64_of_diff in_window_def Let_def)
  next
    case 2
    then have "u64_of ?d = ?d"
      using assms unfolding u64_of_def
      by (intro mod_pos_pos_trivial) (auto simp: base_ok_def int_limits)
    with 2 show ?thesis by (auto simp: window_index_def u64_of_diff in_window_def Let_def)
  next
    case 3
    have "u64_of ?d = (?d + 18446744073709551616) mod 18446744073709551616"
      by (simp add: u64_of_def)
    also have "\<dots> = ?d + 18446744073709551616"
      using 3 assms by (intro mod_pos_pos_trivial) (auto simp: base_ok_def int_limits)
    finally have "int (as_slots x) \<le> u64_of ?d"
      using assms by (auto simp: base_ok_def int_limits)
    with 3 show ?thesis by (auto simp: window_index_def u64_of_diff in_window_def Let_def)
  qed
qed

lemma price_at_eq:
  assumes "base_ok x" "i < as_slots x"
  shows "price_at x i = as_base x + int i"
proof -
  let ?p = "as_base x + int i"
  have r: "i64 ?p" using assms by (auto simp: base_ok_def int_limits)
  have "u64_of (u64_of (as_base x) + int i) = u64_of ?p" by (simp add: u64_of_def mod_add_left_eq)
  then show ?thesis
    using r by (cases "?p < 0") (auto simp: price_at_def i64_of_def u64_of_neg u64_of_nonneg int_limits)
qed

lemma anchor_for_ok:
  assumes "int (as_slots x) \<le> i64_max" "i64 t"
  shows "base_ok (x\<lparr>as_base := anchor_for (as_slots x) t\<rparr>)"
    and "0 < as_slots x \<Longrightarrow> in_window (x\<lparr>as_base := anchor_for (as_slots x) t\<rparr>) t"
  using assms by (auto simp: base_ok_def in_window_def anchor_for_def Let_def int_limits zdiv_int)

section \<open>Iteration\<close>

fun merge_book :: "side \<Rightarrow> level list \<Rightarrow> level list \<Rightarrow> level list" where
  "merge_book s [] ys = ys"
| "merge_book s (x # xs) [] = x # xs"
| "merge_book s (x # xs) (y # ys) =
     (if precedes s (ticks (price x)) (ticks (price y)) then x # merge_book s xs (y # ys)
      else y # merge_book s (x # xs) ys)"

lemma merge_book_Nil2 [simp]: "merge_book s xs [] = xs"
  by (cases xs) simp_all

text \<open>The occupied slots still ahead of the walk when it stands at \<open>i\<close>.\<close>

definition walk :: "array_side \<Rightarrow> int \<Rightarrow> nat list" where
  "walk x i =
     (if i < 0 then []
      else if as_side x = Ask then filter (occupied x) [nat i..<as_slots x]
      else rev (filter (occupied x) [0..<Suc (nat i)]))"

lemma walk_occupied:
  assumes "0 \<le> i" "i < int (as_slots x)" "occupied x (nat i)"
  shows "walk x i = nat i # walk x (step_index x i)"
proof (cases "as_side x")
  case Ask
  have "nat i < as_slots x" using assms by linarith
  then have "[nat i..<as_slots x] = nat i # [Suc (nat i)..<as_slots x]" by (rule upt_conv_Cons)
  with Ask assms show ?thesis by (simp add: walk_def step_index_def nat_add_distrib)
next
  case Bid
  have "[0..<Suc (nat i)] = [0..<nat i] @ [nat i]" by simp
  moreover have "Suc (nat (i - 1)) = nat i" if "0 < i" using that by linarith
  moreover have "i = 0 \<or> 0 < i" using assms(1) by linarith
  ultimately show ?thesis
    using Bid assms by (auto simp: walk_def step_index_def simp del: upt_Suc)
qed

lemma walk_vacant:
  assumes "0 \<le> i" "i < int (as_slots x)" "\<not> occupied x (nat i)"
  shows "walk x i = walk x (step_index x i)"
proof (cases "as_side x")
  case Ask
  have "nat i < as_slots x" using assms by linarith
  then have "[nat i..<as_slots x] = nat i # [Suc (nat i)..<as_slots x]" by (rule upt_conv_Cons)
  with Ask assms show ?thesis by (simp add: walk_def step_index_def nat_add_distrib)
next
  case Bid
  have "[0..<Suc (nat i)] = [0..<nat i] @ [nat i]" by simp
  moreover have "Suc (nat (i - 1)) = nat i" if "0 < i" using that by linarith
  moreover have "i = 0 \<or> 0 < i" using assms(1) by linarith
  ultimately show ?thesis
    using Bid assms by (auto simp: walk_def step_index_def simp del: upt_Suc)
qed

lemma scan_slots_walk:
  assumes "length (as_window x) = as_slots x" "i < int (as_slots x) \<or> as_side x = Ask"
  shows "let j = scan_slots (as_side x = Ask) (as_window x) i
     in walk x j = walk x i \<and> (0 \<le> j \<and> j < int (as_slots x) \<longrightarrow> occupied x (nat j)) \<and>
        (\<not> (0 \<le> j \<and> j < int (as_slots x)) \<longrightarrow> walk x i = [])"
  using assms
proof (induction "as_side x = Ask" "as_window x" i rule: scan_slots.induct)
  case (1 i)
  show ?case
  proof (cases "0 \<le> i \<and> i < int (length (as_window x)) \<and> as_window x ! nat i = 0")
    case True
    let ?i = "if as_side x = Ask then i + 1 else i - 1"
    have "walk x i = walk x ?i"
      using walk_vacant [of i x] True 1(2) by (auto simp: occupied_def step_index_def)
    moreover have "scan_slots (as_side x = Ask) (as_window x) i =
        scan_slots (as_side x = Ask) (as_window x) ?i"
      using True by (subst scan_slots.simps) simp
    ultimately show ?thesis using 1(1) [OF True] 1(2,3) True by auto
  next
    case False
    then have "scan_slots (as_side x = Ask) (as_window x) i = i"
      by (subst scan_slots.simps) auto
    moreover have "walk x i = []" if "\<not> (0 \<le> i \<and> i < int (as_slots x))"
      using that 1(3) by (cases "as_side x") (auto simp: walk_def)
    ultimately show ?thesis using False 1(2) by (auto simp: occupied_def)
  qed
qed

lemma seek_occupied_walk:
  assumes "length (as_window x) = as_slots x" "e + length (walk x i) = as_window_count x"
    "i < int (as_slots x) \<or> as_side x = Ask"
  shows "walk x (seek_occupied x e i) = walk x i \<and>
     (seek_occupied x e i = - 1 \<or>
      0 \<le> seek_occupied x e i \<and> seek_occupied x e i < int (as_slots x) \<and>
      occupied x (nat (seek_occupied x e i)))"
proof (cases "as_window_count x \<le> e")
  case True
  then have "length (walk x i) = 0" using assms(2) by linarith
  with True show ?thesis by (simp add: seek_occupied_def walk_def [of x "- 1"])
next
  case False
  then show ?thesis
    using scan_slots_walk [OF assms(1,3)] assms(1)
    by (auto simp: seek_occupied_def Let_def walk_def [of x "- 1"])
qed

lemma overflow_level_nth:
  "k < length (as_overflow x) \<Longrightarrow> overflow_level x k = book_order (as_side x) (as_overflow x) ! k"
  by (cases "as_side x") (auto simp: overflow_level_def book_order_def rev_nth Let_def)

lemma merge_loop_visit:
  assumes "length (as_window x) = as_slots x" "e + length (walk x i) = as_window_count x"
    "i = - 1 \<or> 0 \<le> i \<and> i < int (as_slots x) \<and> occupied x (nat i)"
  shows "merge_loop x f e i k st =
     visit f (merge_book (as_side x) (map (window_level x) (walk x i))
       (drop k (book_order (as_side x) (as_overflow x)))) st"
  using assms
proof (induction x f e i k st rule: merge_loop.induct)
  case (1 x f e i k st)
  note w = "1.prems"(1) and len = "1.prems"(2) and pos = "1.prems"(3)
  let ?s = "as_side x" and ?ov = "book_order (as_side x) (as_overflow x)"
  show ?case
  proof (cases "i \<ge> 0 \<or> k < length (as_overflow x)")
    case False
    then show ?thesis by (subst merge_loop.simps) (simp add: walk_def)
  next
    case True
    show ?thesis
    proof (cases "take_window x i k")
      case tw: True
      then have i: "0 \<le> i" by (auto simp: take_window_def split: if_splits)
      let ?i = "seek_occupied x (Suc e) (step_index x i)"
      have wk: "walk x i = nat i # walk x (step_index x i)"
        using pos i by (intro walk_occupied) auto
      have "walk x ?i = walk x (step_index x i) \<and> (?i = - 1 \<or>
          0 \<le> ?i \<and> ?i < int (as_slots x) \<and> occupied x (nat ?i))"
        using pos i wk len w by (intro seek_occupied_walk) (auto simp: step_index_def)
      then have ih: "merge_loop x f (Suc e) ?i k st' =
          visit f (merge_book ?s (map (window_level x) (walk x (step_index x i))) (drop k ?ov)) st'"
        if "f (window_level x (nat i)) st = (True, st')" for st'
        using "1.IH"(1) [OF True tw that [symmetric]] w len wk by simp
      have "merge_book ?s (map (window_level x) (walk x i)) (drop k ?ov) =
          window_level x (nat i) # merge_book ?s (map (window_level x) (walk x (step_index x i))) (drop k ?ov)"
      proof (cases "k < length (as_overflow x)")
        case True
        then have "drop k ?ov = overflow_level x k # drop (Suc k) ?ov"
          by (simp add: overflow_level_nth Cons_nth_drop_Suc)
        then show ?thesis
          using tw i True by (simp add: wk take_window_def window_level_def)
      qed (simp add: wk)
      then show ?thesis
        using True tw ih by (subst merge_loop.simps) (auto split: prod.split)
    next
      case tw: False
      then have k: "k < length (as_overflow x)"
        using True by (auto simp: take_window_def split: if_splits)
      then have d: "drop k ?ov = overflow_level x k # drop (Suc k) ?ov"
        by (simp add: overflow_level_nth Cons_nth_drop_Suc)
      have ih: "merge_loop x f e i (Suc k) st' =
          visit f (merge_book ?s (map (window_level x) (walk x i)) (drop (Suc k) ?ov)) st'"
        if "f (overflow_level x k) st = (True, st')" for st'
        using "1.IH"(2) [OF True tw that [symmetric]] w len pos by simp
      have "merge_book ?s (map (window_level x) (walk x i)) (drop k ?ov) =
          overflow_level x k # merge_book ?s (map (window_level x) (walk x i)) (drop (Suc k) ?ov)"
      proof (cases "i < 0")
        case True
        then show ?thesis by (simp add: walk_def d)
      next
        case False
        then have "walk x i = nat i # walk x (step_index x i)"
          using pos by (intro walk_occupied) auto
        then show ?thesis
          using tw False k by (simp add: d take_window_def window_level_def)
      qed
      then show ?thesis
        using True tw ih by (subst merge_loop.simps) (auto split: prod.split)
    qed
  qed
qed


abbreviation level_key :: "level \<Rightarrow> int" where
  "level_key l \<equiv> ticks (price l)"

lemma set_merge_book: "set (merge_book s xs ys) = set xs \<union> set ys"
  by (induction s xs ys rule: merge_book.induct) auto

lemma precedes_trans: "precedes s a b \<Longrightarrow> precedes s b c \<Longrightarrow> precedes s a c"
  by (cases s) auto

lemma precedes_linear: "\<not> precedes s a b \<Longrightarrow> a \<noteq> b \<Longrightarrow> precedes s b a"
  by (cases s) auto

lemma sorted_merge_book:
  assumes "sorted_wrt (precedes s) (map level_key xs)" "sorted_wrt (precedes s) (map level_key ys)"
    "level_key ` set xs \<inter> level_key ` set ys = {}"
  shows "sorted_wrt (precedes s) (map level_key (merge_book s xs ys))"
  using assms
proof (induction s xs ys rule: merge_book.induct)
  case (3 s x xs y ys)
  show ?case
  proof (cases "precedes s (level_key x) (level_key y)")
    case True
    with 3 show ?thesis by (auto simp: set_merge_book intro: precedes_trans)
  next
    case False
    then have "precedes s (level_key y) (level_key x)"
      using 3(5) by (intro precedes_linear) auto
    with False 3 show ?thesis by (auto simp: set_merge_book intro: precedes_trans)
  qed
qed auto

lemma occupied_count:
  assumes "length (as_window x) = as_slots x"
  shows "length (filter (occupied x) [0..<as_slots x]) = count_nz (as_window x)"
proof -
  have "count_nz (as_window x) = length (filter (\<lambda>v. v \<noteq> 0) (map (nth (as_window x)) [0..<as_slots x]))"
    by (simp add: count_nz_def assms [symmetric] map_nth)
  also have "\<dots> = length (filter (occupied x) [0..<as_slots x])"
    by (simp add: filter_map o_def occupied_def [abs_def])
  finally show ?thesis by simp
qed

lemma filter_none: "(\<And>i. i \<in> set xs \<Longrightarrow> \<not> P i) \<Longrightarrow> filter P xs = []"
  by (simp add: filter_empty_conv)

lemma walk_all:
  assumes "best_ok x" "0 < as_window_count x"
  shows "walk x (int (as_best_index x)) = book_order (as_side x) (filter (occupied x) [0..<as_slots x])"
proof -
  let ?b = "as_best_index x"
  have b: "?b < as_slots x" "\<And>j. j < as_slots x \<Longrightarrow> occupied x j \<Longrightarrow> \<not> better_index x j ?b"
    using assms by (auto simp: best_ok_def)
  show ?thesis
  proof (cases "as_side x")
    case Ask
    have "[0..<as_slots x] = [0..<?b] @ [?b..<as_slots x]"
      using b(1) upt_add_eq_append [of 0 ?b "as_slots x - ?b"] by simp
    moreover have "\<not> occupied x j" if "j < ?b" for j
      using b(2) [of j] b(1) that Ask by (auto simp: better_index_def)
    then have "filter (occupied x) [0..<?b] = []" by (intro filter_none) simp
    ultimately show ?thesis using Ask by (simp add: walk_def book_order_def)
  next
    case Bid
    have "[0..<as_slots x] = [0..<Suc ?b] @ [Suc ?b..<as_slots x]"
      using b(1) upt_add_eq_append [of 0 "Suc ?b" "as_slots x - Suc ?b"] by simp
    moreover have "\<not> occupied x j" if "?b < j" "j < as_slots x" for j
      using b(2) [of j] that Bid by (auto simp: better_index_def)
    then have "filter (occupied x) [Suc ?b..<as_slots x] = []" by (intro filter_none) simp
    ultimately show ?thesis using Bid by (simp add: walk_def book_order_def del: upt_Suc)
  qed
qed

lemma map_book_order: "map f (book_order s xs) = book_order s (map f xs)"
  by (simp add: book_order_def rev_map)

lemma window_levels:
  assumes "base_ok x"
  shows "map (window_level x) (book_order s (filter (occupied x) [0..<as_slots x])) =
     map level_of (book_order s (window_pairs x))"
proof -
  have "map (window_level x) (filter (occupied x) [0..<as_slots x]) = map level_of (window_pairs x)"
    using assms by (auto simp: window_pairs_def window_level_def price_at_eq level_of_def)
  then show ?thesis by (simp add: map_book_order)
qed

lemma ascending_window_pairs: "ascending (window_pairs x)"
proof -
  have "sorted_wrt (<) (map (\<lambda>i. as_base x + int i) (filter (occupied x) [0..<as_slots x]))"
    unfolding sorted_wrt_map by (rule sorted_wrt_filter) simp
  then show ?thesis by (simp add: window_pairs_def keys_def o_def)
qed

lemma set_window_pairs:
  "set (window_pairs x) = {(as_base x + int i, as_window x ! i) | i. i < as_slots x \<and> occupied x i}"
  by (auto simp: window_pairs_def)

definition merged :: "array_side \<Rightarrow> level list" where
  "merged x = merge_book (as_side x) (map level_of (book_order (as_side x) (window_pairs x)))
     (book_order (as_side x) (as_overflow x))"

lemma array_for_each_merged:
  assumes "array_inv x"
  shows "array_for_each f x st = visit f (merged x) st"
proof -
  have inv: "base_ok x" "window_ok x" "best_ok x" "\<not> as_anchored x \<longrightarrow> as_window_count x = 0"
    using assms by (auto simp: array_inv_def)
  then have w: "length (as_window x) = as_slots x"
      and c: "as_window_count x = length (filter (occupied x) [0..<as_slots x])"
    by (auto simp: window_ok_def occupied_count)
  show ?thesis
  proof (cases "0 < as_window_count x")
    case True
    let ?i = "seek_occupied x 0 (int (as_best_index x))"
    note wk = walk_all [OF inv(3) True]
    have "walk x ?i = walk x (int (as_best_index x)) \<and>
        (?i = - 1 \<or> 0 \<le> ?i \<and> ?i < int (as_slots x) \<and> occupied x (nat ?i))"
      using inv(3) True c by (intro seek_occupied_walk w) (auto simp: wk best_ok_def)
    then have "merge_loop x f 0 ?i 0 st = visit f (merged x) st"
      using merge_loop_visit [of x 0 ?i f 0 st] w c wk inv(1) by (auto simp: window_levels merged_def)
    then show ?thesis using True inv(4) by (auto simp: array_for_each_def Let_def)
  next
    case False
    then have "window_pairs x = []" using c by (simp add: window_pairs_def)
    then show ?thesis
      using False merge_loop_visit [of x 0 "- 1" f 0 st] w
      by (simp add: array_for_each_def Let_def walk_def merged_def)
  qed
qed

lemma spill_levels: "as_overflow x = map level_of (spill_pairs x)"
  by (simp add: spill_pairs_def o_def)

lemma merged_props:
  assumes "base_ok x" "spill_ok x"
  shows "sorted_wrt (precedes (as_side x)) (map level_key (merged x))"
    and "pair_of ` set (merged x) = entries x"
proof -
  let ?s = "as_side x"
  have k: "map level_key (map level_of ps) = keys ps" for ps
    by (simp add: keys_def o_def)
  have "sorted_wrt (precedes ?s) (map level_key (map level_of (book_order ?s (window_pairs x))))"
    unfolding k book_order_simps sorted_book_order by (rule ascending_window_pairs)
  moreover have "sorted_wrt (precedes ?s) (map level_key (book_order ?s (as_overflow x)))"
    unfolding spill_levels [of x] map_book_order [symmetric] k book_order_simps sorted_book_order
    using assms(2) by (simp add: spill_ok_def contents_ok_def)
  moreover have "level_key ` set (map level_of (book_order ?s (window_pairs x))) \<inter>
      level_key ` set (book_order ?s (as_overflow x)) = {}"
    using assms by (force simp: spill_ok_def set_window_pairs in_window_def spill_pairs_def keys_def)
  ultimately show "sorted_wrt (precedes ?s) (map level_key (merged x))"
    unfolding merged_def by (rule sorted_merge_book)
  show "pair_of ` set (merged x) = entries x"
    by (simp add: merged_def set_merge_book entries_def spill_pairs_def image_Un image_image)
qed

lemma merged_contents:
  assumes "base_ok x" "spill_ok x" "contents_ok m" "set m = entries x"
  shows "merged x = content_levels (as_side x) m"
proof -
  have "map pair_of (merged x) = book_order (as_side x) m"
    using merged_props [OF assms(1,2)] assms(3,4)
    by (intro book_order_unique) (auto simp: keys_def o_def)
  then have "map level_of (map pair_of (merged x)) = content_levels (as_side x) m"
    by (simp add: content_levels_def)
  then show ?thesis by (simp add: o_def)
qed

lemma array_for_each_visit:
  assumes "array_holds x s m"
  shows "array_for_each f x st = visit f (content_levels s m) st"
  using assms array_for_each_merged [of x f st] merged_contents [of x m]
  by (auto simp: array_holds_def array_inv_def)

lemma merge_book_hd:
  "(case merge_book s xs ys of [] \<Rightarrow> None | l # _ \<Rightarrow> Some l) =
     (case xs of [] \<Rightarrow> (case ys of [] \<Rightarrow> None | y # _ \<Rightarrow> Some y)
      | x # _ \<Rightarrow> (case ys of [] \<Rightarrow> Some x
                 | y # _ \<Rightarrow> if precedes s (level_key x) (level_key y) then Some x else Some y))"
  by (cases xs; cases ys) auto

lemma array_best_correct:
  assumes "array_holds x s m"
  shows "array_best x = (case content_levels s m of [] \<Rightarrow> None | l # _ \<Rightarrow> Some l)"
proof -
  have inv: "base_ok x" "window_ok x" "best_ok x" "spill_ok x"
      "\<not> as_anchored x \<longrightarrow> as_window_count x = 0 \<and> as_overflow x = []"
    using assms by (auto simp: array_holds_def array_inv_def)
  have c: "as_window_count x = length (filter (occupied x) [0..<as_slots x])"
    using inv(2) by (auto simp: window_ok_def occupied_count)
  have m: "content_levels s m = merged x"
    using assms merged_contents [of x m] inv by (auto simp: array_holds_def)
  have ov: "\<exists>r. book_order (as_side x) (as_overflow x) = overflow_touch x # r" if "as_overflow x \<noteq> []"
  proof (cases "as_side x")
    case Bid
    with that show ?thesis
      by (cases "as_overflow x" rule: rev_cases) (auto simp: overflow_touch_def book_order_def)
  next
    case Ask
    with that show ?thesis
      by (cases "as_overflow x") (auto simp: overflow_touch_def book_order_def)
  qed
  let ?W = "map level_of (book_order (as_side x) (window_pairs x))"
  have W: "\<exists>r. ?W = window_level x (as_best_index x) # r" if "0 < as_window_count x"
    using walk_all [OF inv(3) that] window_levels [OF inv(1), of "as_side x"] inv(3) that
      walk_occupied [of "int (as_best_index x)" x]
    by (auto simp: best_ok_def)
  have W0: "?W = []" if "as_window_count x = 0"
    using c that by (simp add: window_pairs_def)
  consider "as_window_count x = 0" "as_overflow x = []" | "as_window_count x = 0" "as_overflow x \<noteq> []"
    | "0 < as_window_count x" "as_overflow x = []" | "0 < as_window_count x" "as_overflow x \<noteq> []"
    by blast
  then show ?thesis
    unfolding m merged_def merge_book_hd
    by cases (use inv(5) ov W W0 in \<open>auto simp: array_best_def Let_def\<close>)
qed

lemma ascending_distinct_list: "ascending m \<Longrightarrow> distinct m"
  using ascending_distinct [of m] by (simp add: keys_def distinct_map)

lemma array_size_correct:
  assumes "array_holds x s m"
  shows "array_size x = length m"
proof -
  have inv: "base_ok x" "window_ok x" "spill_ok x"
    using assms by (auto simp: array_holds_def array_inv_def)
  have d: "distinct m" "distinct (window_pairs x)" "distinct (spill_pairs x)"
    using assms inv(3) ascending_window_pairs
    by (auto simp: array_holds_def contents_ok_def spill_ok_def intro: ascending_distinct_list)
  have "set (window_pairs x) \<inter> set (spill_pairs x) = {}"
    using inv by (force simp: spill_ok_def set_window_pairs in_window_def keys_def)
  then have "card (set m) = length (window_pairs x) + length (spill_pairs x)"
    using assms d by (simp add: array_holds_def entries_def card_Un_disjoint distinct_card)
  moreover have "length (window_pairs x) = as_window_count x"
    using inv(2) by (simp add: window_pairs_def window_ok_def occupied_count)
  ultimately show ?thesis
    using d(1) by (simp add: array_size_def distinct_card spill_pairs_def)
qed

lemma clear_window_slots_zero:
  assumes "length (as_window x) = as_slots x" "dirty_ok x"
  shows "clear_window_slots x =
     x\<lparr>as_window := replicate (as_slots x) 0, as_dirty_lo := kNoDirty, as_dirty_hi := 0\<rparr>"
proof -
  let ?lo = "as_dirty_lo x" and ?hi = "as_dirty_hi x" and ?w = "as_window x"
  have z: "?w ! j = 0" if "j < as_slots x" "\<not> (?lo \<le> j \<and> j \<le> ?hi)" for j
    using assms(2) that by (auto simp: dirty_ok_def occupied_def)
  show ?thesis
  proof (cases "?lo \<le> ?hi")
    case True
    then have hi: "?hi < as_slots x" using assms(2) by (simp add: dirty_ok_def)
    have "take ?lo ?w @ replicate (?hi + 1 - ?lo) 0 @ drop (?hi + 1) ?w = replicate (as_slots x) 0"
      using True hi z assms(1)
      by (intro nth_equalityI) (auto simp: nth_append min_def)
    with True show ?thesis by (simp add: clear_window_slots_def Let_def)
  next
    case False
    then have "?w = replicate (as_slots x) 0"
      using z assms(1) by (intro nth_equalityI) auto
    with False show ?thesis by (simp add: clear_window_slots_def Let_def)
  qed
qed

lemma array_empty_holds:
  assumes "int (as_slots x) \<le> i64_max" "as_window x = replicate (as_slots x) 0"
    "as_overflow x = []" "as_window_count x = 0" "as_base x = 0"
    "as_dirty_lo x = kNoDirty" "as_dirty_hi x = 0"
  shows "array_holds x (as_side x) []"
  using assms
  by (auto simp: array_holds_def array_inv_def base_ok_def window_ok_def best_ok_def spill_ok_def
      dirty_ok_def entries_def window_pairs_def spill_pairs_def occupied_def count_nz_def
      filter_empty_conv kNoDirty_def int_limits)

lemma array_clear_holds:
  assumes "array_holds x s m"
  shows "array_holds (array_clear x) s []"
proof -
  have inv: "base_ok x" "window_ok x" "dirty_ok x" "as_side x = s"
    using assms by (auto simp: array_holds_def array_inv_def)
  then have "clear_window_slots x =
     x\<lparr>as_window := replicate (as_slots x) 0, as_dirty_lo := kNoDirty, as_dirty_hi := 0\<rparr>"
    by (intro clear_window_slots_zero) (auto simp: window_ok_def)
  then show ?thesis
    using inv array_empty_holds [of "array_clear x"] by (simp add: array_clear_def base_ok_def)
qed

lemma array_new_holds:
  "int slots \<le> i64_max \<Longrightarrow> array_holds (array_side_new slots s) s []"
  using array_empty_holds [of "array_side_new slots s"] by (simp add: array_side_new_def)

end
