(* ===== verification/Side_Array_Step.thy ===== *)
theory Side_Array_Step
  imports Side_Array_Inv
begin

text \<open>
  The single steps of an update of \<open>ArraySide\<close>: the spill list as an ascending map, a write to
  one slot of the window, the dirty span, and the scan for the next best slot after a removal.
\<close>


section \<open>Updates\<close>

definition entries_apply :: "int \<Rightarrow> int \<Rightarrow> (int \<times> int) set \<Rightarrow> (int \<times> int) set" where
  "entries_apply p q E = {e \<in> E. fst e \<noteq> p} \<union> (if q = 0 then {} else {(p, q)})"

lemma set_contents_apply:
  "contents_ok m \<Longrightarrow> set (contents_apply p q m) = entries_apply p q (set m)"
  by (auto simp: contents_apply_def entries_apply_def contents_ok_def set_amap_set amap_erase_def)

lemma array_holds_step:
  assumes "array_holds x s m" "i64 p" "i64 q" "array_inv x'" "as_side x' = as_side x"
    "entries x' = entries_apply p q (entries x)"
  shows "array_holds x' s (contents_apply p q m)"
  using assms contents_apply_ok [of m p q] set_contents_apply [of m p q]
  by (auto simp: array_holds_def)

subsection \<open>The spill list\<close>

lemma overflow_set_Cons:
  "overflow_set t u (l # ov) =
     (if level_key l < t then l # overflow_set t u ov
      else if level_key l = t then Level (price l) (Qty u) # ov
      else Level (Price t) (Qty u) # l # ov)"
  by (auto simp: overflow_set_def overflow_lower_bound_def Let_def)

lemma overflow_erase_Cons:
  "overflow_erase t (l # ov) =
     (if level_key l < t then l # overflow_erase t ov else if level_key l = t then ov else l # ov)"
  by (auto simp: overflow_erase_def overflow_lower_bound_def Let_def)

lemma overflow_set_pairs:
  "ascending (map pair_of ov) \<Longrightarrow> map pair_of (overflow_set t u ov) = amap_set t u (map pair_of ov)"
proof (induction ov)
  case Nil
  then show ?case by (simp add: overflow_set_def overflow_lower_bound_def amap_set_def pair_of_def)
next
  case (Cons l ov)
  have "dropWhile (\<lambda>q. fst q \<le> t) (map pair_of ov) = map pair_of ov" if "t \<le> level_key l"
    using Cons.prems that by (intro dropWhile_le_id [of "pair_of l"]) auto
  with Cons show ?case
    by (auto simp: overflow_set_Cons amap_set_Cons) (auto simp: pair_of_def)
qed

lemma overflow_erase_pairs:
  "ascending (map pair_of ov) \<Longrightarrow> map pair_of (overflow_erase t ov) = amap_erase t (map pair_of ov)"
proof (induction ov)
  case Nil
  then show ?case by (simp add: overflow_erase_def overflow_lower_bound_def amap_erase_def)
next
  case (Cons l ov)
  have "\<forall>e \<in> set (map pair_of ov). level_key l < fst e" using Cons.prems by (auto simp: keys_def)
  then have "filter (\<lambda>q. fst q \<noteq> t) (map pair_of ov) = map pair_of ov" if "t \<le> level_key l"
    using that by (intro filter_True) auto
  with Cons show ?case by (auto simp: overflow_erase_Cons amap_erase_def)
qed

subsection \<open>Inside the window\<close>

lemma count_nz_update:
  "i < length w \<Longrightarrow>
     count_nz (w[i := v]) + (if w ! i \<noteq> 0 then 1 else 0) = count_nz w + (if v \<noteq> 0 then 1 else 0)"
proof (induction w arbitrary: i)
  case (Cons a w)
  show ?case
  proof (cases i)
    case 0
    then show ?thesis by (simp add: count_nz_def)
  next
    case (Suc j)
    then show ?thesis using Cons.IH [of j] Cons.prems by (auto simp: count_nz_def split: if_splits)
  qed
qed simp

lemma window_pairs_update:
  assumes "length (as_window x) = as_slots x" "i < as_slots x"
    "as_window x' = (as_window x)[i := v]" "as_slots x' = as_slots x" "as_base x' = as_base x"
  shows "set (window_pairs x') = entries_apply (as_base x + int i) v (set (window_pairs x))"
  using assms by (auto simp: set_window_pairs entries_apply_def occupied_def nth_list_update)

lemma entries_window_update:
  assumes "array_inv x" "i < as_slots x" "as_window x' = (as_window x)[i := v]"
    "as_slots x' = as_slots x" "as_base x' = as_base x" "as_overflow x' = as_overflow x"
  shows "entries x' = entries_apply (as_base x + int i) v (entries x)"
proof -
  have "length (as_window x) = as_slots x" "spill_ok x"
    using assms(1) by (auto simp: array_inv_def window_ok_def)
  moreover have "\<forall>e \<in> set (spill_pairs x). fst e \<noteq> as_base x + int i"
    using calculation(2) assms(2) by (auto simp: spill_ok_def keys_def in_window_def)
  ultimately show ?thesis
    using window_pairs_update [of x i x' v] assms
    by (auto simp: entries_def entries_apply_def spill_pairs_def)
qed

lemma window_ok_update:
  assumes "window_ok x" "i < as_slots x" "i64 v"
    "as_window x' = (as_window x)[i := v]" "as_slots x' = as_slots x"
    "as_window_count x' + (if occupied x i then 1 else 0) = as_window_count x + (if v \<noteq> 0 then 1 else 0)"
  shows "window_ok x'"
  using assms count_nz_update [of i "as_window x" v] set_update_subset_insert [of "as_window x" i v]
  by (auto simp: window_ok_def occupied_def split: if_splits)

lemma mark_dirty_fields [simp]:
  "as_side (mark_dirty i x) = as_side x" "as_slots (mark_dirty i x) = as_slots x"
  "as_window (mark_dirty i x) = as_window x" "as_overflow (mark_dirty i x) = as_overflow x"
  "as_base (mark_dirty i x) = as_base x" "as_window_count (mark_dirty i x) = as_window_count x"
  "as_best_index (mark_dirty i x) = as_best_index x" "as_anchored (mark_dirty i x) = as_anchored x"
  by (simp_all add: mark_dirty_def Let_def)

lemma mark_dirty_range:
  "as_dirty_lo (mark_dirty i x) \<le> i" "i \<le> as_dirty_hi (mark_dirty i x)"
  "as_dirty_lo x \<le> j \<Longrightarrow> j \<le> as_dirty_hi x \<Longrightarrow>
     as_dirty_lo (mark_dirty i x) \<le> j \<and> j \<le> as_dirty_hi (mark_dirty i x)"
  "i < n \<Longrightarrow> (as_dirty_lo x \<le> as_dirty_hi x \<longrightarrow> as_dirty_hi x < n) \<Longrightarrow>
     as_dirty_hi (mark_dirty i x) < n"
  by (auto simp: mark_dirty_def Let_def split: if_splits)

lemma dirty_ok_mark:
  assumes "dirty_ok x" "i < as_slots x" "length (as_window x) = as_slots x"
    "as_window y = (as_window x)[i := v]" "as_slots y = as_slots x"
    "as_dirty_lo y = as_dirty_lo x" "as_dirty_hi y = as_dirty_hi x"
  shows "dirty_ok (mark_dirty i y)"
proof -
  have occ: "occupied (mark_dirty i y) j \<longrightarrow> j = i \<or> occupied x j" if "j < as_slots x" for j
    using assms that by (auto simp: occupied_def nth_list_update)
  show ?thesis
    unfolding dirty_ok_def
  proof (intro conjI allI impI)
    fix j
    assume "j < as_slots (mark_dirty i y)" "occupied (mark_dirty i y) j"
    then have "j = i \<or> as_dirty_lo y \<le> j \<and> j \<le> as_dirty_hi y"
      using occ assms by (auto simp: dirty_ok_def)
    then show "as_dirty_lo (mark_dirty i y) \<le> j" "j \<le> as_dirty_hi (mark_dirty i y)"
      using mark_dirty_range by blast+
  next
    show "as_dirty_hi (mark_dirty i y) < as_slots (mark_dirty i y)"
      using mark_dirty_range(4) [of i "as_slots x" y] assms by (simp add: dirty_ok_def)
  qed
qed

lemma set_walk:
  assumes "0 \<le> j" "j < int (as_slots x)"
  shows "set (walk x j) = {k. k < as_slots x \<and> occupied x k \<and> \<not> better_index x k (nat j)}"
  using assms
  by (cases "as_side x") (auto simp: walk_def better_index_def less_Suc_eq_le simp del: upt_Suc)

lemma length_walk: "length (walk x j) = card (set (walk x j))"
  by (rule distinct_card [symmetric]) (auto simp: walk_def)

lemma count_card:
  "window_ok x \<Longrightarrow> as_window_count x = card {k. k < as_slots x \<and> occupied x k}"
  using occupied_count [of x] distinct_card [of "filter (occupied x) [0..<as_slots x]"]
  by (simp add: window_ok_def Collect_conj_eq [symmetric])

lemma best_after_removal:
  assumes "best_ok x" "window_ok x" "i < as_slots x" "i = as_best_index x" "0 < as_window_count x"
    "as_window y = (as_window x)[i := 0]" "as_slots y = as_slots x" "as_side y = as_side x"
    "as_best_index y = i" "window_ok y"
  shows "best_ok (advance_best_after_removal y)"
proof (cases "as_window_count y = 0")
  case True
  then show ?thesis by (simp add: advance_best_after_removal_def best_ok_def)
next
  case False
  let ?i = "step_index y (int i)"
  let ?j = "scan_slots (as_side y = Ask) (as_window y) ?i"
  have len: "length (as_window y) = as_slots y" "length (as_window x) = as_slots x"
    using assms by (auto simp: window_ok_def)
  have bi: "\<not> better_index y k i \<and> k \<noteq> i" if "k < as_slots y" "occupied y k" for k
  proof (cases "k = i")
    case True
    with that len assms show ?thesis by (simp add: occupied_def)
  next
    case False
    then have "occupied x k" using that len assms by (simp add: occupied_def)
    then show ?thesis using False that assms by (auto simp: best_ok_def better_index_def)
  qed
  obtain k where k: "k < as_slots y" "occupied y k"
    using False count_card [OF assms(10)] by (metis (no_types, lifting) card.empty empty_Collect_eq)
  have in_walk: "k' \<in> set (walk y ?i)" if "k' < as_slots y" "occupied y k'" for k'
    using bi [OF that] that
    by (cases "as_side y")
      (auto simp: walk_def step_index_def better_index_def less_Suc_eq_le simp del: upt_Suc)
  have sc: "walk y ?j = walk y ?i" "0 \<le> ?j \<and> ?j < int (as_slots y) \<longrightarrow> occupied y (nat ?j)"
      "\<not> (0 \<le> ?j \<and> ?j < int (as_slots y)) \<longrightarrow> walk y ?i = []"
    using scan_slots_walk [OF len(1), of ?i] assms(3,7) by (auto simp: step_index_def Let_def)
  have r: "0 \<le> ?j \<and> ?j < int (as_slots y)" using sc(3) in_walk [OF k] by auto
  have "\<not> better_index y k' (nat ?j)" if "k' < as_slots y" "occupied y k'" for k'
    using in_walk [OF that] set_walk [of ?j y] r sc(1) by auto
  then show ?thesis
    using False r sc(2) assms(9)
    by (auto simp: advance_best_after_removal_def best_ok_def step_index_def Let_def
        better_index_def occupied_def cong: if_cong split: if_splits)
qed

end
