(* ===== verification/Side_Array_Refine.thy ===== *)
theory Side_Array_Refine
  imports Side_Array_Step
begin

text \<open>
  \<open>ArraySide\<close> keeps the contract of a book side: every branch of \<open>apply\<close>, the
  recentring rebuild included, changes the contents exactly as the update asks
  and keeps the representation invariant.  The interpretation at the end is for the default
  window; \<open>array_book_side\<close> holds for every window size.
\<close>


lemma advance_best_fields [simp]:
  "as_side (advance_best_after_removal x) = as_side x"
  "as_slots (advance_best_after_removal x) = as_slots x"
  "as_window (advance_best_after_removal x) = as_window x"
  "as_overflow (advance_best_after_removal x) = as_overflow x"
  "as_base (advance_best_after_removal x) = as_base x"
  "as_window_count (advance_best_after_removal x) = as_window_count x"
  "as_dirty_lo (advance_best_after_removal x) = as_dirty_lo x"
  "as_dirty_hi (advance_best_after_removal x) = as_dirty_hi x"
  "as_anchored (advance_best_after_removal x) = as_anchored x"
  by (simp_all add: advance_best_after_removal_def Let_def)

text \<open>The conditions that depend on a few fields only.\<close>

lemma inv_part_cong:
  assumes "as_side y = as_side x" "as_slots y = as_slots x" "as_base y = as_base x"
  shows "base_ok y = base_ok x"
    and "as_overflow y = as_overflow x \<Longrightarrow> spill_ok y = spill_ok x"
    and "as_window y = as_window x \<Longrightarrow> as_window_count y = as_window_count x \<Longrightarrow>
      window_ok y = window_ok x"
    and "as_window y = as_window x \<Longrightarrow> as_dirty_lo y = as_dirty_lo x \<Longrightarrow>
      as_dirty_hi y = as_dirty_hi x \<Longrightarrow> dirty_ok y = dirty_ok x"
    and "as_window y = as_window x \<Longrightarrow> as_window_count y = as_window_count x \<Longrightarrow>
      as_best_index y = as_best_index x \<Longrightarrow> best_ok y = best_ok x"
    and "as_window y = as_window x \<Longrightarrow> as_overflow y = as_overflow x \<Longrightarrow> entries y = entries x"
  using assms
  by (auto simp: base_ok_def spill_ok_def spill_pairs_def in_window_def window_ok_def dirty_ok_def
      best_ok_def occupied_def better_index_def entries_def window_pairs_def)

lemma advance_best_parts [simp]:
  "base_ok (advance_best_after_removal x) = base_ok x"
  "spill_ok (advance_best_after_removal x) = spill_ok x"
  "window_ok (advance_best_after_removal x) = window_ok x"
  "dirty_ok (advance_best_after_removal x) = dirty_ok x"
  "entries (advance_best_after_removal x) = entries x"
  by (rule inv_part_cong; simp)+

lemma dirty_ok_removal:
  assumes "dirty_ok x" "length (as_window x) = as_slots x" "as_window y = (as_window x)[i := 0]"
    "i < as_slots x" "as_slots y = as_slots x" "as_dirty_lo y = as_dirty_lo x" "as_dirty_hi y = as_dirty_hi x"
  shows "dirty_ok y"
  using assms by (auto simp: dirty_ok_def occupied_def nth_list_update split: if_splits)

lemma remove_in_window:
  assumes inv: "array_inv x" and i: "i < as_slots x" "occupied x i"
  defines "y \<equiv> x\<lparr>as_window := (as_window x)[i := 0], as_window_count := as_window_count x - 1\<rparr>"
  shows "array_inv (if i = as_best_index y then advance_best_after_removal y else y)"
    and "entries (if i = as_best_index y then advance_best_after_removal y else y) =
      entries_apply (as_base x + int i) 0 (entries x)"
proof -
  have x: "base_ok x" "window_ok x" "best_ok x" "spill_ok x" "dirty_ok x"
    using inv by (auto simp: array_inv_def)
  have len: "length (as_window x) = as_slots x" using x(2) by (simp add: window_ok_def)
  have pos: "0 < as_window_count x"
    using count_card [OF x(2)] i by (auto simp: card_gt_0_iff)
  have wy: "window_ok y"
    using window_ok_update [OF x(2) i(1), of 0 y] i(2) pos by (simp add: y_def int_limits)
  have "base_ok y = base_ok x" "spill_ok y = spill_ok x"
    by (rule inv_part_cong; simp add: y_def)+
  then have rest: "base_ok y" "spill_ok y" "dirty_ok y"
    using x(1,4) dirty_ok_removal [OF x(5) len, of y i] i(1) by (simp_all add: y_def)
  have anch: "as_anchored x" using inv pos by (auto simp: array_inv_def)
  have ya: "as_anchored y = as_anchored x" "as_best_index y = as_best_index x" by (simp_all add: y_def)
  have e: "entries y = entries_apply (as_base x + int i) 0 (entries x)"
    using entries_window_update [OF inv i(1), of y 0] by (simp add: y_def)
  show "array_inv (if i = as_best_index y then advance_best_after_removal y else y)"
  proof (cases "i = as_best_index x")
    case True
    then have "best_ok (advance_best_after_removal y)"
      using best_after_removal [OF x(3,2) i(1) True pos, of y] wy by (simp add: y_def)
    then show ?thesis
      using True wy rest anch ya by (simp add: array_inv_def)
  next
    case False
    have "best_ok y"
      using x(3) False len i
      by (auto simp: best_ok_def y_def occupied_def better_index_def nth_list_update split: if_splits)
    then show ?thesis using False wy rest anch ya by (simp add: array_inv_def)
  qed
  show "entries (if i = as_best_index y then advance_best_after_removal y else y) =
      entries_apply (as_base x + int i) 0 (entries x)"
    using e by simp
qed

lemma store_in_window:
  assumes inv: "array_inv x" and i: "i < as_slots x" and q: "i64 q" "q \<noteq> 0" and "as_anchored x"
  defines "y \<equiv>
    (let x1 = (if as_window x ! i = 0 then
                 (let x0 = (if as_window_count x = 0 \<or> better_index x i (as_best_index x)
                            then x\<lparr>as_best_index := i\<rparr> else x)
                  in x0\<lparr>as_window_count := as_window_count x0 + 1\<rparr>)
               else x)
     in mark_dirty i (x1\<lparr>as_window := (as_window x1)[i := q]\<rparr>))"
  shows "array_inv y" and "entries y = entries_apply (as_base x + int i) q (entries x)"
    and "as_side y = as_side x" and "as_slots y = as_slots x" and "as_anchored y"
    and "as_base y = as_base x"
proof -
  have x: "base_ok x" "window_ok x" "best_ok x" "spill_ok x" "dirty_ok x"
    using inv by (auto simp: array_inv_def)
  have len: "length (as_window x) = as_slots x" using x(2) by (simp add: window_ok_def)
  have f: "as_side y = as_side x" "as_slots y = as_slots x" "as_base y = as_base x"
      "as_overflow y = as_overflow x" "as_anchored y = as_anchored x"
      "as_window y = (as_window x)[i := q]"
      "as_window_count y = (if occupied x i then as_window_count x else as_window_count x + 1)"
    by (auto simp: y_def Let_def occupied_def)
  have bi: "as_best_index y =
      (if \<not> occupied x i \<and> (as_window_count x = 0 \<or> better_index x i (as_best_index x))
       then i else as_best_index x)"
    by (auto simp: y_def Let_def occupied_def)
  have wy: "window_ok y"
    using window_ok_update [OF x(2) i q(1), of y] f q(2) by (auto split: if_splits)
  have dy: "dirty_ok y"
    unfolding y_def Let_def
    by (rule dirty_ok_mark [OF x(5) i len, where v = q]) auto
  have occ: "occupied y j \<longleftrightarrow> j = i \<or> occupied x j" if "j < as_slots x" for j
    using that f(6) len q(2) i by (auto simp: occupied_def nth_list_update)
  have none: "\<not> occupied x j" if "as_window_count x = 0" "j < as_slots x" for j
    using count_card [OF x(2)] that by auto
  have "best_ok y"
    unfolding best_ok_def
  proof (intro impI conjI allI)
    have pos: "0 < as_window_count x" if "occupied x i" using none i that by blast
    then show b: "as_best_index y < as_slots y"
      using x(3) bi i f(2) by (cases "as_window_count x = 0") (auto simp: best_ok_def)
    show "occupied y (as_best_index y)"
      using x(3) bi i occ pos b f(2) by (cases "as_window_count x = 0") (auto simp: best_ok_def)
    fix j
    assume j: "j < as_slots y" "occupied y j"
    have "better_index y a b = better_index x a b" for a b
      using f(1) by (simp add: better_index_def)
    moreover have "as_window_count x > 0 \<and> j \<noteq> i \<longrightarrow> \<not> better_index x j (as_best_index x)"
      using x(3) j occ f(2) by (auto simp: best_ok_def)
    moreover have "as_window_count x = 0 \<longrightarrow> j = i" using j occ none f(2) by auto
    moreover have "occupied x i \<longrightarrow> as_window_count x > 0 \<and> \<not> better_index x i (as_best_index x)"
      using x(3) none i by (auto simp: best_ok_def)
    ultimately show "\<not> better_index y j (as_best_index y)"
      using bi by (cases "as_side x") (auto simp: better_index_def split: if_splits)
  qed
  then show "array_inv y"
    using x wy dy f assms(5) by (auto simp: array_inv_def inv_part_cong(1,2) [of y x])
  show "entries y = entries_apply (as_base x + int i) q (entries x)"
    by (rule entries_window_update [OF inv i f(6,2,3,4)])
  show "as_side y = as_side x" "as_slots y = as_slots x" "as_anchored y" "as_base y = as_base x"
    using f assms(5) by auto
qed

lemma entries_apply_absent: "(\<And>e. e \<in> E \<Longrightarrow> fst e \<noteq> p) \<Longrightarrow> entries_apply p 0 E = E"
  by (auto simp: entries_apply_def)

lemma apply_in_window_correct:
  assumes inv: "array_inv x" and i: "i < as_slots x" and q: "i64 (units q)" and a: "as_anchored x"
  shows "array_inv (apply_in_window i q x)"
    and "entries (apply_in_window i q x) = entries_apply (as_base x + int i) (units q) (entries x)"
    and "as_side (apply_in_window i q x) = as_side x"
proof -
  consider (vacant) "units q = 0" "\<not> occupied x i" | (remove) "units q = 0" "occupied x i"
    | (store) "units q \<noteq> 0" by blast
  then have "array_inv (apply_in_window i q x) \<and>
      entries (apply_in_window i q x) = entries_apply (as_base x + int i) (units q) (entries x) \<and>
      as_side (apply_in_window i q x) = as_side x"
  proof cases
    case vacant
    have "fst e \<noteq> as_base x + int i" if "e \<in> entries x" for e
      using that inv i vacant
      by (auto simp: entries_def set_window_pairs array_inv_def spill_ok_def keys_def in_window_def)
    with vacant inv show ?thesis
      by (simp add: apply_in_window_def qty_is_zero_def occupied_def entries_apply_absent)
  next
    case remove
    let ?y = "x\<lparr>as_window := (as_window x)[i := 0], as_window_count := as_window_count x - 1\<rparr>"
    have "apply_in_window i q x = (if i = as_best_index ?y then advance_best_after_removal ?y else ?y)"
      using remove by (simp only: apply_in_window_def qty_is_zero_def occupied_def Let_def if_True simp_thms)
    then show ?thesis using remove_in_window [OF inv i remove(2)] remove(1)
      by (simp only: if_cancel) simp
  next
    case store
    then have "apply_in_window i q x =
      (let x1 = (if as_window x ! i = 0 then
                 (let x0 = (if as_window_count x = 0 \<or> better_index x i (as_best_index x)
                            then x\<lparr>as_best_index := i\<rparr> else x)
                  in x0\<lparr>as_window_count := as_window_count x0 + 1\<rparr>)
               else x)
     in mark_dirty i (x1\<lparr>as_window := (as_window x1)[i := units q]\<rparr>))"
      by (simp only: apply_in_window_def qty_is_zero_def if_False simp_thms)
    then show ?thesis using store_in_window [OF inv i q store a] by (simp only: simp_thms)
  qed
  then show "array_inv (apply_in_window i q x)"
    "entries (apply_in_window i q x) = entries_apply (as_base x + int i) (units q) (entries x)"
    "as_side (apply_in_window i q x) = as_side x" by auto
qed


subsection \<open>Outside the window\<close>

lemma window_keys: "e \<in> set (window_pairs x) \<Longrightarrow> in_window x (fst e)"
  by (auto simp: set_window_pairs in_window_def)

lemma spill_update:
  assumes inv: "array_inv x" and p: "\<not> in_window x p"
    and y: "as_side y = as_side x" "as_slots y = as_slots x" "as_base y = as_base x"
      "as_window y = as_window x" "as_window_count y = as_window_count x"
      "as_best_index y = as_best_index x" "as_dirty_lo y = as_dirty_lo x"
      "as_dirty_hi y = as_dirty_hi x" "as_anchored y"
    and spill: "contents_ok (spill_pairs y)"
      "set (spill_pairs y) = entries_apply p q (set (spill_pairs x))"
  shows "array_inv y" and "entries y = entries_apply p q (entries x)"
proof -
  have x: "base_ok x" "window_ok x" "best_ok x" "spill_ok x" "dirty_ok x"
    using inv by (auto simp: array_inv_def)
  have w: "in_window y = in_window x" using y by (simp add: in_window_def fun_eq_iff)
  have "spill_ok y"
    using spill p x(4) by (auto simp: spill_ok_def w keys_def entries_apply_def split: if_splits)
  moreover have "base_ok y" "window_ok y" "best_ok y" "dirty_ok y"
    using x inv_part_cong [OF y(1,2,3)] y by auto
  ultimately show "array_inv y" using y(9) by (simp add: array_inv_def)
  have "window_pairs y = window_pairs x"
    using y by (simp add: window_pairs_def occupied_def [abs_def])
  moreover have "fst e \<noteq> p" if "e \<in> set (window_pairs x)" for e
    using window_keys [OF that] p by auto
  ultimately show "entries y = entries_apply p q (entries x)"
    by (auto simp: entries_def spill(2) entries_apply_def)
qed

lemma spill_contents_apply:
  assumes "array_inv x" "map pair_of ov = contents_apply p q (spill_pairs x)" "i64 p" "i64 q"
    "as_overflow y = ov"
  shows "contents_ok (spill_pairs y)" "set (spill_pairs y) = entries_apply p q (set (spill_pairs x))"
  using assms contents_apply_ok [of "spill_pairs x" p q] set_contents_apply [of "spill_pairs x" p q]
  by (auto simp: array_inv_def spill_ok_def spill_pairs_def [of y])

section \<open>The rebuild\<close>

text \<open>
  While the rebuild refills, the spill list is in book order; \<open>upright\<close> reads it ascending, as
  the final \<open>std::reverse\<close> of a bid side leaves it.
\<close>

definition upright :: "array_side \<Rightarrow> array_side" where
  "upright y = y\<lparr>as_overflow := book_order (as_side y) (as_overflow y)\<rparr>"

lemma upright_fields [simp]:
  "as_side (upright y) = as_side y" "as_slots (upright y) = as_slots y"
  "as_base (upright y) = as_base y" "as_window (upright y) = as_window y"
  "as_window_count (upright y) = as_window_count y" "as_best_index (upright y) = as_best_index y"
  "as_dirty_lo (upright y) = as_dirty_lo y" "as_dirty_hi (upright y) = as_dirty_hi y"
  "as_anchored (upright y) = as_anchored y"
  "as_overflow (upright y) = book_order (as_side y) (as_overflow y)"
  by (simp_all add: upright_def)

definition level_ok :: "level \<Rightarrow> bool" where
  "level_ok l \<longleftrightarrow> i64 (level_key l) \<and> i64 (units (qty l)) \<and> units (qty l) \<noteq> 0"

lemma mark_dirty_commute:
  "mark_dirty i (y\<lparr>as_window_count := n\<rparr>) = (mark_dirty i y)\<lparr>as_window_count := n\<rparr>"
  "mark_dirty i (y\<lparr>as_overflow := ov\<rparr>) = (mark_dirty i y)\<lparr>as_overflow := ov\<rparr>"
  by (simp_all add: mark_dirty_def Let_def)

lemma refill_in_window:
  assumes "window_index y (level_key l) = Some i" "as_window y ! i = 0" "units (qty l) \<noteq> 0"
    "as_window_count y = 0 \<or> \<not> better_index y i (as_best_index y)"
  shows "upright (refill_level l y) = apply_in_window i (qty l) (upright y)"
proof -
  let ?b = "if as_window_count y = 0 then i else as_best_index y"
  let ?w = "(as_window y)[i := units (qty l)]"
  have "refill_level l y =
      (mark_dirty i (y\<lparr>as_best_index := ?b, as_window := ?w\<rparr>))\<lparr>as_window_count := as_window_count y + 1\<rparr>"
    using assms(1) by (simp add: refill_level_def Let_def)
  moreover have "apply_in_window i (qty l) (upright y) =
      mark_dirty i (upright (y\<lparr>as_best_index := ?b, as_window := ?w, as_window_count := as_window_count y + 1\<rparr>))"
    using assms(2,3,4)
    by (cases y; cases "as_window_count y = 0")
      (simp_all add: apply_in_window_def qty_is_zero_def upright_def better_index_def Let_def)
  ultimately show ?thesis
    by (simp add: upright_def mark_dirty_commute)
qed

lemma refill_outside:
  assumes "window_index y (level_key l) = None"
  shows "upright (refill_level l y) =
     y\<lparr>as_overflow := book_order (as_side y) (as_overflow y @ [l])\<rparr>"
  using assms by (simp add: refill_level_def upright_def)

lemma refill_fields [simp]:
  "as_side (refill_level l y) = as_side y" "as_slots (refill_level l y) = as_slots y"
  "as_base (refill_level l y) = as_base y" "as_anchored (refill_level l y) = as_anchored y"
  by (auto simp: refill_level_def Let_def split: option.split)

lemma entries_apply_new:
  "q \<noteq> 0 \<Longrightarrow> (\<And>e. e \<in> E \<Longrightarrow> fst e \<noteq> p) \<Longrightarrow> entries_apply p q E = insert (p, q) E"
  by (auto simp: entries_apply_def)

lemma precedes_neq: "precedes s a b \<Longrightarrow> a \<noteq> b"
  by (cases s) auto

lemma refill_step:
  assumes inv: "array_inv (upright y)" and a: "as_anchored y" and l: "level_ok l"
    and before: "\<And>e. e \<in> entries (upright y) \<Longrightarrow> precedes (as_side y) (fst e) (level_key l)"
  shows "array_inv (upright (refill_level l y))"
    and "entries (upright (refill_level l y)) = insert (pair_of l) (entries (upright y))"
proof -
  have x: "base_ok (upright y)" "window_ok (upright y)" "best_ok (upright y)" "spill_ok (upright y)"
    using inv by (auto simp: array_inv_def)
  have yb: "base_ok y" using x(1) inv_part_cong(1) [of "upright y" y] by simp
  have lk: "i64 (level_key l)" "i64 (units (qty l))" "units (qty l) \<noteq> 0"
    using l by (auto simp: level_ok_def)
  have new: "entries_apply (level_key l) (units (qty l)) (entries (upright y)) =
      insert (pair_of l) (entries (upright y))"
  proof -
    have "fst e \<noteq> level_key l" if "e \<in> entries (upright y)" for e
      using before [OF that] by (rule precedes_neq)
    then show ?thesis using lk by (simp add: entries_apply_new pair_of_def)
  qed
  have "array_inv (upright (refill_level l y)) \<and>
      entries (upright (refill_level l y)) = insert (pair_of l) (entries (upright y))"
  proof (cases "in_window y (level_key l)")
    case True
    define i where "i = nat (level_key l - as_base y)"
    have wi: "window_index y (level_key l) = Some i"
      using window_index_iff [OF yb lk(1)] True by (simp add: i_def)
    have i: "i < as_slots (upright y)" "level_key l = as_base (upright y) + int i"
      using True by (auto simp: i_def in_window_def)
    have key: "j < as_slots y \<Longrightarrow> occupied (upright y) j \<Longrightarrow>
        precedes (as_side y) (as_base y + int j) (level_key l)" for j
      using before by (force simp: entries_def set_window_pairs)
    have vacant: "as_window y ! i = 0"
      using key [of i] i by (auto simp: occupied_def dest: precedes_neq)
    have worse: "as_window_count y = 0 \<or> \<not> better_index y i (as_best_index y)"
      using x(3) key [of "as_best_index y"] i
      by (cases "as_side y") (auto simp: best_ok_def better_index_def)
    show ?thesis
      using apply_in_window_correct [OF inv i(1) lk(2)] a new i(2)
      by (simp add: refill_in_window [OF wi vacant lk(3) worse])
  next
    case False
    then have wi: "window_index y (level_key l) = None"
      using window_index_iff [OF yb lk(1)] by simp
    let ?z = "y\<lparr>as_overflow := book_order (as_side y) (as_overflow y @ [l])\<rparr>"
    have nw: "\<not> in_window (upright y) (level_key l)"
      using False by (simp add: in_window_def)
    have after: "precedes (as_side y) (level_key e) (level_key l)" if "e \<in> set (as_overflow y)" for e
      using before [of "pair_of e"] that by (auto simp: entries_def spill_pairs_def)
    have "ascending (spill_pairs ?z)"
      using x(4) after
      by (cases "as_side y")
        (auto simp: spill_ok_def contents_ok_def spill_pairs_def book_order_def keys_def
          sorted_wrt_append)
    then have "contents_ok (spill_pairs ?z)"
      using x(4) lk by (auto simp: spill_ok_def contents_ok_def spill_pairs_def pair_of_def)
    moreover have "set (spill_pairs ?z) =
        entries_apply (level_key l) (units (qty l)) (set (spill_pairs (upright y)))"
    proof -
      have "level_key e \<noteq> level_key l" if "e \<in> set (as_overflow y)" for e
        using after [OF that] by (rule precedes_neq)
      then show ?thesis
        using lk by (subst entries_apply_new) (auto simp: spill_pairs_def pair_of_def)
    qed
    ultimately have "array_inv ?z"
      "entries ?z = entries_apply (level_key l) (units (qty l)) (entries (upright y))"
      using a by (intro spill_update [OF inv nw]; simp)+
    then show ?thesis using new refill_outside [OF wi] by simp
  qed
  then show "array_inv (upright (refill_level l y))"
    "entries (upright (refill_level l y)) = insert (pair_of l) (entries (upright y))" by auto
qed

lemma refill_fold:
  assumes "array_inv (upright y)" "as_anchored y" "\<forall>l \<in> set ls. level_ok l"
    "sorted_wrt (precedes (as_side y)) (map level_key ls)"
    "\<forall>e \<in> entries (upright y). \<forall>l \<in> set ls. precedes (as_side y) (fst e) (level_key l)"
  shows "array_inv (upright (fold refill_level ls y)) \<and>
     entries (upright (fold refill_level ls y)) = entries (upright y) \<union> pair_of ` set ls \<and>
     as_side (fold refill_level ls y) = as_side y \<and> as_slots (fold refill_level ls y) = as_slots y \<and>
     as_anchored (fold refill_level ls y)"
  using assms
proof (induction ls arbitrary: y)
  case (Cons l ls)
  have s: "array_inv (upright (refill_level l y))"
    "entries (upright (refill_level l y)) = insert (pair_of l) (entries (upright y))"
    using Cons.prems by (intro refill_step; simp)+
  show ?case
    using Cons.IH [OF s(1)] Cons.prems by (auto simp: s(2))
qed simp

lemma clear_window_slots_fields [simp]:
  "as_side (clear_window_slots x) = as_side x" "as_slots (clear_window_slots x) = as_slots x"
  by (simp_all add: clear_window_slots_def Let_def)

lemma array_reset_inv:
  assumes "base_ok y" "as_window y = replicate (as_slots y) 0" "as_overflow y = []"
    "as_window_count y = 0" "as_dirty_lo y = kNoDirty" "as_dirty_hi y = 0"
  shows "array_inv y" "entries y = {}"
  using assms
  by (auto simp: array_inv_def window_ok_def best_ok_def spill_ok_def
      dirty_ok_def entries_def window_pairs_def spill_pairs_def occupied_def count_nz_def
      filter_empty_conv kNoDirty_def int_limits)

lemma merged_level_ok:
  assumes "array_inv x" "l \<in> set (merged x)"
  shows "level_ok l"
proof -
  have inv: "window_ok x" "spill_ok x" "base_ok x" using assms(1) by (auto simp: array_inv_def)
  then have "pair_of l \<in> entries x" using assms(2) merged_props(2) [of x] by auto
  then show ?thesis
  proof (unfold entries_def, elim UnE)
    assume "pair_of l \<in> set (window_pairs x)"
    then show ?thesis
      using inv by (auto simp: set_window_pairs level_ok_def pair_of_def window_ok_def base_ok_def
          occupied_def int_limits)
  next
    assume "pair_of l \<in> set (spill_pairs x)"
    then show ?thesis
      using inv by (auto simp: spill_ok_def contents_ok_def level_ok_def pair_of_def)
  qed
qed

lemma rebuild_correct:
  assumes inv: "array_inv x" and a: "as_anchored x"
  shows "array_inv (rebuild_around_touch x)"
    and "entries (rebuild_around_touch x) = entries x"
    and "as_side (rebuild_around_touch x) = as_side x"
proof -
  define x0 where "x0 = x\<lparr>as_rebuild_count := as_rebuild_count x + 1\<rparr>"
  have same: "array_inv x0 = array_inv x" "entries x0 = entries x" "as_anchored x0 = as_anchored x"
      "as_side x0 = as_side x" "as_slots x0 = as_slots x"
    using inv_part_cong [of x0 x] by (simp_all add: x0_def array_inv_def)
  have inv0: "array_inv x0" "base_ok x0" "window_ok x0" "dirty_ok x0" "spill_ok x0"
    using inv same by (auto simp: array_inv_def)
  have sc: "array_for_each push_back x0 [] = merged x0"
    by (simp add: array_for_each_merged [OF inv0(1)] visit_push_back)
  note m = merged_props [OF inv0(2,5)]
  have "array_inv (rebuild_around_touch x) \<and> entries (rebuild_around_touch x) = entries x \<and>
      as_side (rebuild_around_touch x) = as_side x"
  proof (cases "merged x0 = []")
    case True
    then have "rebuild_around_touch x = x0"
      using sc by (simp add: rebuild_around_touch_def x0_def [symmetric] Let_def)
    then show ?thesis using inv0 same by simp
  next
    case False
    define touch where "touch = level_key (hd (merged x0))"
    define y where "y = (clear_window_slots x0)
        \<lparr>as_overflow := [], as_window_count := 0, as_best_index := 0,
         as_base := anchor_for (as_slots x0) touch, as_anchored := True\<rparr>"
    define z where "z = upright (fold refill_level (merged x0) y)"
    have lo: "\<forall>l \<in> set (merged x0). level_ok l" using merged_level_ok [OF inv0(1)] by blast
    then have t: "i64 touch" using False by (simp add: touch_def level_ok_def)
    have cw: "clear_window_slots x0 =
        x0\<lparr>as_window := replicate (as_slots x0) 0, as_dirty_lo := kNoDirty, as_dirty_hi := 0\<rparr>"
      using inv0 by (intro clear_window_slots_zero) (auto simp: window_ok_def)
    have "base_ok y"
      using anchor_for_ok(1) [of x0 touch] t inv0(2) by (simp add: y_def base_ok_def)
    then have "array_inv (upright y)" "entries (upright y) = {}"
      by (intro array_reset_inv; simp add: y_def cw base_ok_def)+
    then have f: "array_inv z" "entries z = entries x" "as_side z = as_side x" "as_anchored z"
      using refill_fold [of y "merged x0"] lo m same
      by (auto simp: z_def y_def)
    have "\<exists>n d. rebuild_around_touch x = z\<lparr>as_overflow_floor := n, as_degraded := d\<rparr>"
      using False sc
      by (cases "as_side (fold refill_level (merged x0) y)")
        (auto simp: rebuild_around_touch_def x0_def [symmetric] Let_def touch_def [symmetric]
          y_def [symmetric] z_def upright_def book_order_def)
    then obtain n d where r: "rebuild_around_touch x = z\<lparr>as_overflow_floor := n, as_degraded := d\<rparr>"
      by blast
    show ?thesis
      using f inv_part_cong [of "z\<lparr>as_overflow_floor := n, as_degraded := d\<rparr>" z]
      by (simp add: r array_inv_def)
  qed
  then show "array_inv (rebuild_around_touch x)" "entries (rebuild_around_touch x) = entries x"
    "as_side (rebuild_around_touch x) = as_side x" by auto
qed


section \<open>Every update keeps the contract\<close>

lemma erase_outside_shape:
  assumes "qty_is_zero q"
  shows "\<exists>n d. apply_outside t q x =
     x\<lparr>as_overflow := overflow_erase t (as_overflow x), as_overflow_floor := n, as_degraded := d\<rparr>"
proof -
  have "\<exists>n d. apply_outside t q x = (let y = x\<lparr>as_overflow := overflow_erase t (as_overflow x)\<rparr>
      in y\<lparr>as_overflow_floor := n, as_degraded := d\<rparr>)"
    using assms
    by (intro exI [of _ "min (as_overflow_floor x) (length (overflow_erase t (as_overflow x)))"]
          exI [of _ "as_degraded x \<and> overflow_erase t (as_overflow x) \<noteq> []"])
      (auto simp: apply_outside_def Let_def)
  then show ?thesis by (simp add: Let_def)
qed

lemma apply_outside_correct:
  assumes inv: "array_inv x" and a: "as_anchored x" and t: "i64 t" "\<not> in_window x t"
    and q: "i64 (units q)"
  shows "array_inv (apply_outside t q x)"
    and "entries (apply_outside t q x) = entries_apply t (units q) (entries x)"
    and "as_side (apply_outside t q x) = as_side x"
proof -
  have asc: "ascending (map pair_of (as_overflow x))"
    using inv by (simp add: array_inv_def spill_ok_def contents_ok_def spill_pairs_def)
  have step: "array_inv y \<and> entries y = entries_apply t (units q) (entries x)"
    if "as_side y = as_side x" "as_slots y = as_slots x" "as_base y = as_base x"
      "as_window y = as_window x" "as_window_count y = as_window_count x"
      "as_best_index y = as_best_index x" "as_dirty_lo y = as_dirty_lo x"
      "as_dirty_hi y = as_dirty_hi x" "as_anchored y"
      "map pair_of (as_overflow y) = contents_apply t (units q) (spill_pairs x)" for y
    using spill_update [OF inv t(2) that(1-9)] spill_contents_apply [OF inv that(10) t(1) q refl]
    by blast
  have "array_inv (apply_outside t q x) \<and>
      entries (apply_outside t q x) = entries_apply t (units q) (entries x) \<and>
      as_side (apply_outside t q x) = as_side x"
  proof (cases "qty_is_zero q")
    case True
    then obtain n d where "apply_outside t q x =
        x\<lparr>as_overflow := overflow_erase t (as_overflow x), as_overflow_floor := n, as_degraded := d\<rparr>"
      using erase_outside_shape by blast
    then show ?thesis
      using step [of "apply_outside t q x"] a True overflow_erase_pairs [OF asc]
      by (simp add: contents_apply_def spill_pairs_def qty_is_zero_def)
  next
    case False
    let ?y = "x\<lparr>as_overflow := overflow_set t (units q) (as_overflow x)\<rparr>"
    have y: "array_inv ?y \<and> entries ?y = entries_apply t (units q) (entries x)"
      using step [of ?y] a False overflow_set_pairs [OF asc]
      by (simp add: contents_apply_def spill_pairs_def qty_is_zero_def)
    then show ?thesis
      using False a rebuild_correct [of ?y] by (auto simp: apply_outside_def Let_def)
  qed
  then show "array_inv (apply_outside t q x)"
    "entries (apply_outside t q x) = entries_apply t (units q) (entries x)"
    "as_side (apply_outside t q x) = as_side x" by auto
qed

lemma anchor_inv:
  assumes inv: "array_inv x" and "\<not> as_anchored x" "i64 t"
  defines "y \<equiv> x\<lparr>as_base := anchor_for (as_slots x) t, as_anchored := True\<rparr>"
  shows "array_inv y" "entries y = {}" "entries x = {}"
proof -
  have x: "base_ok x" "window_ok x" "best_ok x" "dirty_ok x" "as_window_count x = 0" "as_overflow x = []"
    using assms by (auto simp: array_inv_def)
  have none: "\<not> occupied x j" if "j < as_slots x" for j
    using count_card [OF x(2)] x(5) that by auto
  then have w: "window_pairs x = []" by (auto simp: window_pairs_def filter_empty_conv)
  have "occupied y = occupied x" by (simp add: y_def occupied_def fun_eq_iff)
  then have wy: "window_pairs y = []" using none by (auto simp: window_pairs_def y_def filter_empty_conv)
  have sp: "spill_pairs y = []" "spill_pairs x = []" using x(6) by (simp_all add: y_def spill_pairs_def)
  show "entries y = {}" "entries x = {}" using w wy sp by (simp_all add: entries_def)
  have "base_ok y" using anchor_for_ok(1) [of x t] assms(3) x(1) by (simp add: y_def base_ok_def)
  moreover have "window_ok y" "dirty_ok y" "best_ok y"
    using x by (auto simp: y_def window_ok_def dirty_ok_def best_ok_def occupied_def)
  ultimately show "array_inv y" using sp by (simp add: array_inv_def spill_ok_def keys_def) (simp add: y_def)
qed

lemma array_apply_anchored:
  assumes inv: "array_inv x" and a: "as_anchored x" and p: "i64 t" "i64 (units q)"
  defines "y \<equiv> (case window_index x t of Some i \<Rightarrow> apply_in_window i q x | None \<Rightarrow> apply_outside t q x)"
  shows "array_inv y \<and> entries y = entries_apply t (units q) (entries x) \<and> as_side y = as_side x"
proof (cases "in_window x t")
  case True
  have "base_ok x" using inv by (simp add: array_inv_def)
  with True p have "window_index x t = Some (nat (t - as_base x))"
    by (simp add: window_index_iff)
  moreover have "nat (t - as_base x) < as_slots x" "as_base x + int (nat (t - as_base x)) = t"
    using True by (auto simp: in_window_def)
  ultimately show ?thesis
    using apply_in_window_correct [OF inv _ p(2) a, of "nat (t - as_base x)"] by (simp add: y_def)
next
  case False
  have "base_ok x" using inv by (simp add: array_inv_def)
  with False p have "window_index x t = None" by (simp add: window_index_iff)
  then show ?thesis
    using apply_outside_correct [OF inv a p(1) False p(2)] by (simp add: y_def)
qed

lemma array_apply_holds:
  assumes h: "array_holds x s m" and p: "i64 (ticks p)" "i64 (units q)"
  shows "array_holds (array_apply p q x) s (contents_apply (ticks p) (units q) m)"
proof -
  have inv: "array_inv x" using h by (simp add: array_holds_def)
  have "array_inv (array_apply p q x) \<and> as_side (array_apply p q x) = as_side x \<and>
      entries (array_apply p q x) = entries_apply (ticks p) (units q) (entries x)"
  proof (cases "as_anchored x")
    case True
    then show ?thesis using array_apply_anchored [OF inv True p] by (simp add: array_apply_def)
  next
    case False
    let ?y = "x\<lparr>as_base := anchor_for (as_slots x) (ticks p), as_anchored := True\<rparr>"
    note y = anchor_inv [OF inv False p(1)]
    show ?thesis
    proof (cases "qty_is_zero q")
      case True
      then show ?thesis
        using inv False y(3) by (simp add: array_apply_def entries_apply_def qty_is_zero_def)
    next
      case nz: False
      then have "array_apply p q x = (case window_index ?y (ticks p) of Some i \<Rightarrow> apply_in_window i q ?y
          | None \<Rightarrow> apply_outside (ticks p) q ?y)"
        using False by (simp add: array_apply_def Let_def)
      then show ?thesis using array_apply_anchored [OF y(1) _ p] y(2,3) by simp
    qed
  qed
  then show ?thesis using array_holds_step [OF h p] by blast
qed

lemma array_book_side:
  assumes "int slots \<le> i64_max"
  shows "book_side (array_impl slots) array_holds"
proof
  fix x s m p q
  assume h: "array_holds x s m"
  show "contents_ok m" using h by (simp add: array_holds_def)
  show "array_holds (si_clear (array_impl slots) x) s []"
    using array_clear_holds [OF h] by (simp add: array_impl_def)
  show "si_size (array_impl slots) x = length m"
    using array_size_correct [OF h] by (simp add: array_impl_def)
  show "si_levels (array_impl slots) x = content_levels s m"
    by (simp add: array_for_each_visit [OF h] array_impl_def visit_push_back)
  show "si_best (array_impl slots) x = (case content_levels s m of [] \<Rightarrow> None | l # _ \<Rightarrow> Some l)"
    using array_best_correct [OF h] by (simp add: array_impl_def)
  assume "i64 (ticks p)" "i64 (units q)"
  then show "array_holds (si_apply (array_impl slots) p q x) s (contents_apply (ticks p) (units q) m)"
    using array_apply_holds [OF h] by (simp add: array_impl_def)
next
  fix s
  show "array_holds (si_new (array_impl slots) s) s []"
    using array_new_holds [OF assms] by (simp add: array_impl_def)
qed

interpretation array_side: book_side "array_impl kDefaultSlots" array_holds
  by (rule array_book_side) (simp add: kDefaultSlots_def int_limits)

end
