(* ===== verification/Book.thy ===== *)
theory Book
  imports Side_Array_Refine Side_Map
begin

text \<open>
  \<open>BasicL2Book\<close> of \<open>include/crossbook/book.hpp\<close>: a two-sided book over a side container, which
  is the dictionary \<open>'s side_impl\<close> here as it is a template parameter there.  The abstract book
  is a function from sides to contents; the lemmas of the \<open>book_side\<close> context say that every
  operation of the book over a lawful container computes the abstract one.
\<close>

unbundle bit_operations_syntax

section \<open>The book\<close>

record 's l2_book =
  bk_spec :: instrument_spec
  bk_bids :: 's
  bk_asks :: 's
  bk_last_update :: timestamp

definition l2_book_new :: "'s side_impl \<Rightarrow> instrument_spec \<Rightarrow> 's l2_book" where
  "l2_book_new impl spec =
     \<lparr>bk_spec = spec, bk_bids = si_new impl Bid, bk_asks = si_new impl Ask, bk_last_update = 0\<rparr>"

definition book_side_of :: "side \<Rightarrow> 's l2_book \<Rightarrow> 's" where
  "book_side_of s b = (if s = Bid then bk_bids b else bk_asks b)"

text \<open>A mutation through the reference that the non-const \<open>side(s)\<close> returns.\<close>

definition update_side :: "side \<Rightarrow> ('s \<Rightarrow> 's) \<Rightarrow> 's l2_book \<Rightarrow> 's l2_book" where
  "update_side s f b =
     (if s = Bid then b\<lparr>bk_bids := f (bk_bids b)\<rparr> else b\<lparr>bk_asks := f (bk_asks b)\<rparr>)"

definition book_for_each ::
    "'s side_impl \<Rightarrow> side \<Rightarrow> (level \<Rightarrow> 'st \<Rightarrow> bool \<times> 'st) \<Rightarrow> 's l2_book \<Rightarrow> 'st \<Rightarrow> 'st" where
  "book_for_each impl s f b st = visit f (si_levels impl (book_side_of s b)) st"

definition book_apply ::
    "'s side_impl \<Rightarrow> side \<Rightarrow> price \<Rightarrow> qty \<Rightarrow> 's l2_book \<Rightarrow> bool \<times> 's l2_book" where
  "book_apply impl s p q b =
     (if ticks p < 0 \<or> units q < 0 then (False, b)
      else (True, update_side s (si_apply impl p q) b))"

definition book_clear :: "'s side_impl \<Rightarrow> 's l2_book \<Rightarrow> 's l2_book" where
  "book_clear impl b =
     b\<lparr>bk_bids := si_clear impl (bk_bids b), bk_asks := si_clear impl (bk_asks b)\<rparr>"

definition set_last_update :: "timestamp \<Rightarrow> 's l2_book \<Rightarrow> 's l2_book" where
  "set_last_update ts b = b\<lparr>bk_last_update := ts\<rparr>"

definition book_best :: "'s side_impl \<Rightarrow> side \<Rightarrow> 's l2_book \<Rightarrow> level option" where
  "book_best impl s b = si_best impl (book_side_of s b)"

section \<open>Trimming\<close>

definition kDoomedBatch :: nat where "kDoomedBatch = 64"

text \<open>The callback of one pass; its state is \<open>seen\<close> and the prices collected so far.\<close>

definition doom :: "nat \<Rightarrow> level \<Rightarrow> nat \<times> price list \<Rightarrow> bool \<times> (nat \<times> price list)" where
  "doom max_levels l st =
     (case st of (seen, doomed) \<Rightarrow>
        if seen < max_levels then (True, (seen + 1, doomed))
        else (length (doomed @ [price l]) < kDoomedBatch, (seen + 1, doomed @ [price l])))"

text \<open>The \<open>for (;;)\<close> of \<open>trim\<close>, which ends when a pass names no level.\<close>

partial_function (option) trim_loop ::
    "'s side_impl \<Rightarrow> side \<Rightarrow> nat \<Rightarrow> nat \<Rightarrow> 's l2_book \<Rightarrow> (nat \<times> 's l2_book) option" where
  "trim_loop impl s max_levels removed b =
     (let doomed = snd (book_for_each impl s (doom max_levels) b (0, []))
      in if doomed = [] then Some (removed, b)
         else trim_loop impl s max_levels (removed + length doomed)
                (fold (\<lambda>p b. update_side s (si_apply impl p (Qty 0)) b) doomed b))"

definition book_trim_side ::
    "'s side_impl \<Rightarrow> side \<Rightarrow> nat \<Rightarrow> 's l2_book \<Rightarrow> (nat \<times> 's l2_book) option" where
  "book_trim_side impl s max_levels b =
     (if max_levels = 0 then Some (0, b) else trim_loop impl s max_levels 0 b)"

definition book_trim :: "'s side_impl \<Rightarrow> nat \<Rightarrow> 's l2_book \<Rightarrow> (nat \<times> 's l2_book) option" where
  "book_trim impl max_levels b =
     (case book_trim_side impl Bid max_levels b of
        None \<Rightarrow> None
      | Some (n, b1) \<Rightarrow>
          (case book_trim_side impl Ask max_levels b1 of
             None \<Rightarrow> None
           | Some (k, b2) \<Rightarrow> Some (n + k, b2)))"

definition book_top :: "'s side_impl \<Rightarrow> side \<Rightarrow> nat \<Rightarrow> 's l2_book \<Rightarrow> level list" where
  "book_top impl s n b =
     book_for_each impl s (\<lambda>l acc. (length (acc @ [l]) < n, acc @ [l])) b []"

section \<open>The state hash\<close>

definition kHashBasis :: u64 where "kHashBasis = 1469598103934665603"
definition kHashPrime :: u64 where "kHashPrime = 1099511628211"
definition kHashSeparator :: u64 where "kHashSeparator = 0x5EA50FF5C0DED00D"

definition mix_byte :: "u64 \<Rightarrow> nat \<Rightarrow> u64 \<Rightarrow> u64" where
  "mix_byte v i h = (h XOR (drop_bit (i * 8) v AND 0xFF)) * kHashPrime"

definition mix_hash :: "u64 \<Rightarrow> u64 \<Rightarrow> u64" where
  "mix_hash v h = fold (mix_byte v) [0..<8] h"

definition hash_side :: "'s side_impl \<Rightarrow> 's l2_book \<Rightarrow> side \<Rightarrow> u64 \<Rightarrow> u64" where
  "hash_side impl b s h =
     (let h1 = mix_hash (word_of_int (side_value s)) h;
          h2 = mix_hash (word_of_nat (si_size impl (book_side_of s b))) h1;
          h3 = mix_hash kHashSeparator h2
      in book_for_each impl s
           (\<lambda>l h. (True, mix_hash (word_of_int (units (qty l)))
                           (mix_hash (word_of_int (ticks (price l))) h))) b h3)"

definition state_hash :: "'s side_impl \<Rightarrow> 's l2_book \<Rightarrow> u64" where
  "state_hash impl b = fold (hash_side impl b) [Bid, Ask] kHashBasis"

section \<open>The abstract book\<close>

type_synonym l2_contents = "side \<Rightarrow> contents"

definition depth :: "l2_contents \<Rightarrow> side \<Rightarrow> level list" where
  "depth m s = content_levels s (m s)"

definition l2_apply :: "side \<Rightarrow> price \<Rightarrow> qty \<Rightarrow> l2_contents \<Rightarrow> l2_contents" where
  "l2_apply s p q m =
     (if ticks p < 0 \<or> units q < 0 then m
      else m(s := contents_apply (ticks p) (units q) (m s)))"

text \<open>The \<open>n\<close> levels nearest the touch; zero stands for no limit.\<close>

definition l2_trim_side :: "side \<Rightarrow> nat \<Rightarrow> l2_contents \<Rightarrow> l2_contents" where
  "l2_trim_side s n m = (if n = 0 then m else m(s := book_order s (take n (book_order s (m s)))))"

definition hash_words :: "l2_contents \<Rightarrow> u64 list" where
  "hash_words m =
     concat (map (\<lambda>s. word_of_int (side_value s) # word_of_nat (length (m s)) # kHashSeparator #
       concat (map (\<lambda>l. [word_of_int (ticks (price l)), word_of_int (units (qty l))]) (depth m s)))
       [Bid, Ask])"

definition book_rep :: "('s \<Rightarrow> side \<Rightarrow> contents \<Rightarrow> bool) \<Rightarrow> 's l2_book \<Rightarrow> l2_contents \<Rightarrow> bool" where
  "book_rep holds b m \<longleftrightarrow> holds (bk_bids b) Bid (m Bid) \<and> holds (bk_asks b) Ask (m Ask)"

text \<open>Non-negative mantissas: what \<open>apply\<close> lets in.\<close>

definition l2_ok :: "l2_contents \<Rightarrow> bool" where
  "l2_ok m \<longleftrightarrow> (\<forall>s. contents_ok (m s) \<and> (\<forall>(p, q) \<in> set (m s). 0 \<le> p \<and> 0 < q))"

section \<open>Lemmas over any lawful container\<close>

lemma side_update_simps [simp]:
  "book_side_of s (update_side s f b) = f (book_side_of s b)"
  "s \<noteq> t \<Longrightarrow> book_side_of t (update_side s f b) = book_side_of t b"
  by (cases s; cases t; simp add: book_side_of_def update_side_def)+

lemma book_rep_iff: "book_rep holds b m \<longleftrightarrow> (\<forall>s. holds (book_side_of s b) s (m s))"
  by (auto simp: book_rep_def book_side_of_def) (metis side.exhaust)+

lemma book_rep_update:
  assumes "book_rep holds b m" "holds (f (book_side_of s b)) s c"
  shows "book_rep holds (update_side s f b) (m(s := c))"
  unfolding book_rep_iff
proof
  fix t
  show "holds (book_side_of t (update_side s f b)) t ((m(s := c)) t)"
    using assms by (cases "s = t") (auto simp: book_rep_iff)
qed

lemma update_side_fields [simp]:
  "bk_spec (update_side s f b) = bk_spec b" "bk_last_update (update_side s f b) = bk_last_update b"
  by (simp_all add: update_side_def)

context book_side
begin

lemma rep_new: "book_rep holds (l2_book_new impl spec) (\<lambda>s. [])"
  by (simp add: book_rep_def l2_book_new_def holds_new)

lemma rep_apply:
  assumes "book_rep holds b m" "i64 (ticks p)" "i64 (units q)"
  shows "book_rep holds (snd (book_apply impl s p q b)) (l2_apply s p q m)"
  using assms
  by (auto simp: book_apply_def l2_apply_def book_rep_iff intro!: book_rep_update [unfolded book_rep_iff] holds_apply)

lemma rep_clear: "book_rep holds b m \<Longrightarrow> book_rep holds (book_clear impl b) (\<lambda>s. [])"
  by (auto simp: book_rep_def book_clear_def intro: holds_clear)

lemma rep_levels: "book_rep holds b m \<Longrightarrow> si_levels impl (book_side_of s b) = depth m s"
  by (auto simp: book_rep_iff depth_def intro: levels_law)

lemma rep_size: "book_rep holds b m \<Longrightarrow> si_size impl (book_side_of s b) = length (m s)"
  by (auto simp: book_rep_iff intro: size_law)

lemma rep_best:
  "book_rep holds b m \<Longrightarrow> book_best impl s b = (case depth m s of [] \<Rightarrow> None | l # _ \<Rightarrow> Some l)"
  by (auto simp: book_rep_iff book_best_def depth_def intro: best_law)

lemma rep_contents_ok: "book_rep holds b m \<Longrightarrow> contents_ok (m s)"
  using holds_ok by (auto simp: book_rep_iff)

lemma rep_for_each: "book_rep holds b m \<Longrightarrow> book_for_each impl s f b st = visit f (depth m s) st"
  by (simp add: book_for_each_def rep_levels)

end

subsection \<open>Trimming\<close>

lemma visit_doom:
  "length d < kDoomedBatch \<Longrightarrow> snd (visit (doom n) ls (seen, d)) =
     d @ map price (take (kDoomedBatch - length d) (drop (n - seen) ls))"
proof (induction ls arbitrary: seen d)
  case (Cons l ls)
  show ?case
  proof (cases "seen < n")
    case True
    then have "n - seen = Suc (n - Suc seen)" by simp
    with True Cons show ?thesis by (simp add: doom_def)
  next
    case False
    moreover have "kDoomedBatch - length d = Suc (kDoomedBatch - Suc (length d))"
      using Cons.prems by simp
    ultimately show ?thesis
      using Cons.IH [of "d @ [price l]" "Suc seen"] Cons.prems by (auto simp: doom_def)
  qed
qed simp

lemma fst_in_book_order: "k \<in> fst ` set (take i (drop j (book_order s m))) \<Longrightarrow> k \<in> fst ` set m"
  by (auto dest!: in_set_takeD in_set_dropD intro: rev_image_eqI)

lemma filter_cut:
  assumes "distinct (map f xs)"
  shows "filter (\<lambda>e. f e \<notin> f ` set (take k (drop n xs))) xs = take n xs @ drop (n + k) xs"
proof -
  let ?a = "take n xs" and ?b = "take k (drop n xs)" and ?c = "drop (n + k) xs"
  have xs: "xs = ?a @ ?b @ ?c"
    by (metis add.commute append_take_drop_id drop_drop)
  have "distinct (map f ?a @ map f ?b @ map f ?c)"
    using assms xs by (metis map_append)
  then have "filter (\<lambda>e. f e \<notin> f ` set ?b) ?a = ?a" "filter (\<lambda>e. f e \<notin> f ` set ?b) ?c = ?c"
    by (auto simp: filter_id_conv)
  moreover have "filter (\<lambda>e. f e \<notin> f ` set ?b) ?b = []" by (simp add: filter_empty_conv)
  ultimately show ?thesis
    using xs by (metis (no_types, lifting) append_Nil filter_append)
qed

lemma distinct_book_order: "distinct (book_order s xs) = distinct xs"
  by (simp add: book_order_def)

lemma filter_book_order: "filter P (book_order s m) = book_order s (filter P m)"
  by (simp add: book_order_def rev_filter)

lemma filter_contents_ok: "contents_ok m \<Longrightarrow> contents_ok (filter P m)"
  by (auto simp: contents_ok_def ascending_filter)

context book_side
begin

lemma rep_erase_all:
  assumes "book_rep holds b m" "\<forall>p \<in> set ps. i64 (ticks p)"
  shows "book_rep holds (fold (\<lambda>p b. update_side s (si_apply impl p (Qty 0)) b) ps b)
     (m(s := filter (\<lambda>e. fst e \<notin> ticks ` set ps) (m s)))"
  using assms
proof (induction ps arbitrary: b m)
  case (Cons p ps)
  let ?m = "m(s := contents_apply (ticks p) 0 (m s))"
  have "holds (si_apply impl p (Qty 0) (book_side_of s b)) s (contents_apply (ticks p) 0 (m s))"
    using holds_apply [of "book_side_of s b" s "m s" p "Qty 0"] Cons.prems
    by (simp add: book_rep_iff int_limits)
  then have "book_rep holds (update_side s (si_apply impl p (Qty 0)) b) ?m"
    by (rule book_rep_update [OF Cons.prems(1)])
  then have "book_rep holds (fold (\<lambda>p b. update_side s (si_apply impl p (Qty 0)) b) ps
      (update_side s (si_apply impl p (Qty 0)) b))
      (?m(s := filter (\<lambda>e. fst e \<notin> ticks ` set ps) (?m s)))"
    by (rule Cons.IH) (use Cons.prems(2) in simp)
  moreover have "filter (\<lambda>e. fst e \<notin> ticks ` set ps) (contents_apply (ticks p) 0 (m s)) =
      filter (\<lambda>e. fst e \<notin> ticks ` set (p # ps)) (m s)"
    by (simp add: contents_apply_def amap_erase_def conj_commute)
  then have "?m(s := filter (\<lambda>e. fst e \<notin> ticks ` set ps) (?m s)) =
      m(s := filter (\<lambda>e. fst e \<notin> ticks ` set (p # ps)) (m s))"
    by (simp only: fun_upd_same fun_upd_upd)
  ultimately show ?case by (simp only: fold_Cons o_apply)
qed simp

text \<open>One pass of the loop drops the next batch beyond the limit.\<close>

lemma rep_trim_pass:
  fixes s :: side and n :: nat
  assumes "book_rep holds b m"
  defines "L \<equiv> book_order s (m s)"
  defines "ps \<equiv> map price (take kDoomedBatch (drop n (depth m s)))"
  shows "snd (book_for_each impl s (doom n) b (0, [])) = ps"
    and "book_rep holds (fold (\<lambda>p b. update_side s (si_apply impl p (Qty 0)) b) ps b)
      (m(s := book_order s (take n L @ drop (n + kDoomedBatch) L)))"
proof -
  show "snd (book_for_each impl s (doom n) b (0, [])) = ps"
    using visit_doom [of "[]" n "depth m s" 0] by (simp add: rep_for_each [OF assms(1)] ps_def kDoomedBatch_def)
  have ok: "contents_ok (m s)" by (rule rep_contents_ok [OF assms(1)])
  have pt: "ticks ` set ps = fst ` set (take kDoomedBatch (drop n L))"
    by (simp add: ps_def depth_def content_levels_def L_def take_map drop_map image_image)
  have "\<forall>p \<in> set ps. i64 (ticks p)"
  proof
    fix p
    assume "p \<in> set ps"
    then have "ticks p \<in> fst ` set (take kDoomedBatch (drop n L))" using pt by blast
    then have "ticks p \<in> fst ` set (m s)"
      unfolding L_def by (rule fst_in_book_order)
    then show "i64 (ticks p)" using ok by (auto simp: contents_ok_def)
  qed
  then have "book_rep holds (fold (\<lambda>p b. update_side s (si_apply impl p (Qty 0)) b) ps b)
      (m(s := filter (\<lambda>e. fst e \<notin> ticks ` set ps) (m s)))"
    by (rule rep_erase_all [OF assms(1)])
  moreover have "distinct (map fst L)"
    using ok ascending_distinct [of "m s"]
    unfolding L_def keys_def [symmetric] book_order_simps distinct_book_order contents_ok_def by blast
  then have "filter (\<lambda>e. fst e \<notin> ticks ` set ps) L = take n L @ drop (n + kDoomedBatch) L"
    by (simp add: pt filter_cut)
  then have "filter (\<lambda>e. fst e \<notin> ticks ` set ps) (m s) =
      book_order s (take n L @ drop (n + kDoomedBatch) L)"
    unfolding L_def filter_book_order by (metis book_order_simps(1))
  ultimately show "book_rep holds (fold (\<lambda>p b. update_side s (si_apply impl p (Qty 0)) b) ps b)
      (m(s := book_order s (take n L @ drop (n + kDoomedBatch) L)))" by simp
qed

lemma fold_update_fields:
  "bk_spec (fold (\<lambda>p b. update_side s (f p) b) ps b) = bk_spec b \<and>
   bk_last_update (fold (\<lambda>p b. update_side s (f p) b) ps b) = bk_last_update b"
  by (induction ps arbitrary: b) auto

lemma rep_trim_loop:
  assumes "book_rep holds b m"
  shows "\<exists>b'. trim_loop impl s n r b = Some (r + (length (m s) - n), b') \<and>
     book_rep holds b' (m(s := book_order s (take n (book_order s (m s))))) \<and>
     bk_spec b' = bk_spec b \<and> bk_last_update b' = bk_last_update b"
  using assms
proof (induction "length (m s)" arbitrary: b m r rule: less_induct)
  case less
  let ?L = "book_order s (m s)"
  let ?ps = "map price (take kDoomedBatch (drop n (depth m s)))"
  note pass = rep_trim_pass [OF less.prems, of s n]
  have len: "length (depth m s) = length (m s)" by (simp add: depth_def content_levels_def)
  show ?case
  proof (cases "length (m s) \<le> n")
    case True
    then have "?ps = []" by (simp add: len)
    then have "trim_loop impl s n r b = Some (r, b)"
      using pass(1) by (subst trim_loop.simps) simp
    with True less.prems show ?thesis by simp
  next
    case False
    let ?b = "fold (\<lambda>p b. update_side s (si_apply impl p (Qty 0)) b) ?ps b"
    let ?m = "m(s := book_order s (take n ?L @ drop (n + kDoomedBatch) ?L))"
    have ne: "?ps \<noteq> []" using False by (simp add: len kDoomedBatch_def)
    have cut: "length (?m s) < length (m s)" "length (?m s) - n + length ?ps = length (m s) - n"
      using False by (auto simp: kDoomedBatch_def len)
    have tk: "take n (book_order s (?m s)) = take n ?L" using False by simp
    from less.hyps [OF cut(1) pass(2), of "r + length ?ps"] obtain b' where
      "trim_loop impl s n (r + length ?ps) ?b = Some (r + length ?ps + (length (?m s) - n), b')"
      "book_rep holds b' (?m(s := book_order s (take n (book_order s (?m s)))))"
      "bk_spec b' = bk_spec ?b" "bk_last_update b' = bk_last_update ?b" by blast
    moreover have "trim_loop impl s n r b = trim_loop impl s n (r + length ?ps) ?b"
      using ne pass(1) by (subst trim_loop.simps) (simp add: Let_def)
    ultimately show ?thesis
      using cut(2) fold_update_fields [of s "\<lambda>p. si_apply impl p (Qty 0)" ?ps b] unfolding tk by auto
  qed
qed

lemma rep_trim_side:
  assumes "book_rep holds b m"
  obtains b' where
    "book_trim_side impl s n b = Some (if n = 0 then 0 else length (m s) - n, b')"
    "book_rep holds b' (l2_trim_side s n m)" "bk_spec b' = bk_spec b"
    "bk_last_update b' = bk_last_update b"
  using that rep_trim_loop [OF assms, of s n 0] assms
  by (cases "n = 0") (auto simp: book_trim_side_def l2_trim_side_def)

lemma rep_trim:
  assumes "book_rep holds b m"
  shows "\<exists>b'. book_trim impl n b =
       Some (if n = 0 then 0 else (length (m Bid) - n) + (length (m Ask) - n), b') \<and>
     book_rep holds b' (l2_trim_side Ask n (l2_trim_side Bid n m)) \<and>
     bk_spec b' = bk_spec b \<and> bk_last_update b' = bk_last_update b"
proof -
  obtain b1 where b1:
      "book_trim_side impl Bid n b = Some (if n = 0 then 0 else length (m Bid) - n, b1)"
      "book_rep holds b1 (l2_trim_side Bid n m)" "bk_spec b1 = bk_spec b"
      "bk_last_update b1 = bk_last_update b"
    by (rule rep_trim_side [OF assms])
  obtain b2 where b2:
      "book_trim_side impl Ask n b1 =
         Some (if n = 0 then 0 else length (l2_trim_side Bid n m Ask) - n, b2)"
      "book_rep holds b2 (l2_trim_side Ask n (l2_trim_side Bid n m))" "bk_spec b2 = bk_spec b1"
      "bk_last_update b2 = bk_last_update b1"
    by (rule rep_trim_side [OF b1(2)])
  have "l2_trim_side Bid n m Ask = m Ask" by (simp add: l2_trim_side_def)
  with b1 b2 show ?thesis by (auto simp: book_trim_def)
qed

end

subsection \<open>Reading the top\<close>

lemma visit_top:
  "visit (\<lambda>l acc. (length (acc @ [l]) < n, acc @ [l])) ls acc = acc @ take (max 1 (n - length acc)) ls"
proof (induction ls arbitrary: acc)
  case (Cons l ls)
  show ?case
  proof (cases "Suc (length acc) < n")
    case True
    then have "max 1 (n - length acc) = Suc (max 1 (n - Suc (length acc)))" by simp
    with True Cons.IH [of "acc @ [l]"] show ?thesis by simp
  next
    case False
    then have "max 1 (n - length acc) = 1" by simp
    with False show ?thesis by simp
  qed
qed simp

subsection \<open>The word stream of the hash\<close>

definition level_words :: "level list \<Rightarrow> u64 list" where
  "level_words ls = concat (map (\<lambda>l. [word_of_int (ticks (price l)), word_of_int (units (qty l))]) ls)"

lemma visit_hash_levels:
  "visit (\<lambda>l h. (True, mix_hash (word_of_int (units (qty l))) (mix_hash (word_of_int (ticks (price l))) h))) ls h
     = fold mix_hash (level_words ls) h"
  by (induction ls arbitrary: h) (simp_all add: level_words_def)

lemma depth_length [simp]: "length (depth m s) = length (m s)"
  by (simp add: depth_def content_levels_def)

lemma hash_words_split:
  "hash_words m = word_of_int (side_value Bid) # word_of_nat (length (m Bid)) # kHashSeparator #
     level_words (depth m Bid) @ word_of_int (side_value Ask) # word_of_nat (length (m Ask)) #
     kHashSeparator # level_words (depth m Ask)"
  by (simp add: hash_words_def level_words_def)

context book_side
begin

lemma rep_top: "book_rep holds b m \<Longrightarrow> book_top impl s n b = take (max 1 n) (depth m s)"
  unfolding book_top_def by (subst rep_for_each, assumption, subst visit_top) simp

lemma rep_state_hash: "book_rep holds b m \<Longrightarrow> state_hash impl b = fold mix_hash (hash_words m) kHashBasis"
  by (simp add: state_hash_def hash_side_def Let_def rep_for_each rep_size visit_hash_levels
      hash_words_split)

end

lemma length_level_words [simp]: "length (level_words ls) = 2 * length ls"
  by (induction ls) (simp_all add: level_words_def)

lemma word_of_int_inj_nonneg:
  "0 \<le> a \<Longrightarrow> a \<le> i64_max \<Longrightarrow> 0 \<le> b \<Longrightarrow> b \<le> i64_max \<Longrightarrow>
     (word_of_int a :: u64) = word_of_int b \<Longrightarrow> a = b"
  by (drule arg_cong [where f = uint]) (simp add: uint_word_of_int int_limits)

lemma level_words_inj:
  assumes "level_words xs = level_words ys"
    "\<forall>l \<in> set xs \<union> set ys. 0 \<le> ticks (price l) \<and> ticks (price l) \<le> i64_max \<and>
       0 \<le> units (qty l) \<and> units (qty l) \<le> i64_max"
  shows "xs = ys"
  using assms
proof (induction xs arbitrary: ys)
  case Nil
  then show ?case by (cases ys) (simp_all add: level_words_def)
next
  case (Cons x xs)
  then obtain y ys' where ys: "ys = y # ys'" by (cases ys) (simp_all add: level_words_def)
  have "ticks (price x) = ticks (price y)" "units (qty x) = units (qty y)"
    using Cons.prems ys by (auto simp: level_words_def intro: word_of_int_inj_nonneg)
  then have "x = y" by (auto intro: level.expand price.expand qty.expand)
  moreover have "xs = ys'" using Cons ys by (simp add: level_words_def)
  ultimately show ?case using ys by simp
qed

lemma ascending_length:
  fixes m :: contents
  assumes "ascending m" "\<forall>(p, q) \<in> set m. 0 \<le> p \<and> p \<le> i64_max"
  shows "length m < 2 ^ 64"
proof -
  have "length m = card (set (keys m))"
    using distinct_card [OF ascending_distinct [OF assms(1)]] by simp
  also have "\<dots> \<le> card {0 .. i64_max}"
    using assms(2) by (intro card_mono) (auto simp: keys_def)
  also have "\<dots> < 2 ^ 64" by (simp add: int_limits)
  finally show ?thesis .
qed

lemma l2_ok_length: "l2_ok m \<Longrightarrow> length (m s) < 2 ^ 64"
  by (rule ascending_length) (auto simp: l2_ok_def contents_ok_def int_limits)

lemma depth_inj: "depth m s = depth n s \<Longrightarrow> m s = n s"
proof -
  assume "depth m s = depth n s"
  then have "book_order s (m s) = book_order s (n s)"
    unfolding depth_def content_levels_def by (metis inj_map_eq_map injI level_of_eq)
  then show "m s = n s" by (metis book_order_simps(1))
qed

lemma depth_range:
  assumes "l2_ok m" "l \<in> set (depth m s)"
  shows "0 \<le> ticks (price l) \<and> ticks (price l) \<le> i64_max \<and> 0 \<le> units (qty l) \<and> units (qty l) \<le> i64_max"
proof -
  from assms(2) obtain p q where "(p, q) \<in> set (m s)" "l = level_of (p, q)"
    by (auto simp: depth_def content_levels_def)
  moreover have "i64 p" "i64 q" "0 \<le> p" "0 < q"
    using assms(1) calculation(1) by (fastforce simp: l2_ok_def contents_ok_def)+
  ultimately show ?thesis by (simp add: level_of_def int_limits)
qed

lemma hash_words_inj:
  assumes "l2_ok m" "l2_ok n" "hash_words m = hash_words n"
  shows "m = n"
proof -
  have eq: "(word_of_nat (length (m Bid)) :: u64) = word_of_nat (length (n Bid))"
      "level_words (depth m Bid) @ word_of_int (side_value Ask) # word_of_nat (length (m Ask)) #
         kHashSeparator # level_words (depth m Ask) =
       level_words (depth n Bid) @ word_of_int (side_value Ask) # word_of_nat (length (n Ask)) #
         kHashSeparator # level_words (depth n Ask)"
    using assms(3) unfolding hash_words_split by (simp_all only: list.inject simp_thms)
  have "length (m Bid) = length (n Bid)"
    using arg_cong [OF eq(1), of unat] l2_ok_length [OF assms(1)] l2_ok_length [OF assms(2)]
    by (simp add: unat_of_nat)
  then have "length (level_words (depth m Bid)) = length (level_words (depth n Bid))" by simp
  then have "level_words (depth m Bid) = level_words (depth n Bid)"
      "level_words (depth m Ask) = level_words (depth n Ask)"
    using eq(2) by (simp_all only: append_eq_append_conv list.inject simp_thms)
  then have "level_words (depth m s) = level_words (depth n s)" for s by (cases s) auto
  then have "depth m s = depth n s" for s
    using depth_range [OF assms(1)] depth_range [OF assms(2)] by (intro level_words_inj ballI) auto
  then show "m = n" by (intro ext depth_inj)
qed

lemma hash_prime_inj: "kHashPrime * a = kHashPrime * b \<Longrightarrow> a = b"
proof -
  assume "kHashPrime * a = kHashPrime * b"
  then have "14886173955864302971 * kHashPrime * a = 14886173955864302971 * kHashPrime * b"
    by (simp only: mult.assoc)
  moreover have "14886173955864302971 * kHashPrime = 1" by (simp add: kHashPrime_def)
  ultimately show "a = b" by simp
qed

lemma xor_cancel:
  fixes a b c :: u64
  shows "a XOR c = b XOR c \<Longrightarrow> a = b" and "c XOR a = c XOR b \<Longrightarrow> a = b"
proof -
  have "(a XOR c) XOR c = a" "(b XOR c) XOR c = b" "c XOR (c XOR a) = a" "c XOR (c XOR b) = b"
    by (simp_all add: xor.assoc)
  then show "a XOR c = b XOR c \<Longrightarrow> a = b" "c XOR a = c XOR b \<Longrightarrow> a = b" by metis+
qed

lemma mix_byte_inj: "mix_byte v i h = mix_byte v i k \<Longrightarrow> h = k"
  unfolding mix_byte_def mult.commute [of _ kHashPrime]
  by (drule hash_prime_inj) (rule xor_cancel(1))

lemma mix_byte_differs:
  "drop_bit (i * 8) v AND 0xFF \<noteq> drop_bit (i * 8) w AND 0xFF \<Longrightarrow> mix_byte v i h \<noteq> mix_byte w i h"
  unfolding mix_byte_def mult.commute [of _ kHashPrime]
  by (auto dest!: hash_prime_inj dest: xor_cancel(2))

lemma fold_inj: "(\<And>x h k. f x h = f x k \<Longrightarrow> h = k) \<Longrightarrow> fold f xs h = fold f xs k \<Longrightarrow> h = k"
proof (induction xs arbitrary: h k)
  case (Cons x xs)
  then have "f x h = f x k" by (metis fold_Cons o_apply)
  then show ?case by (rule Cons.prems(1))
qed simp

lemma mix_hash_inj: "mix_hash v h = mix_hash v k \<Longrightarrow> h = k"
proof -
  assume "mix_hash v h = mix_hash v k"
  then have "fold (mix_byte v) [0..<8] h = fold (mix_byte v) [0..<8] k"
    by (simp only: mix_hash_def)
  with mix_byte_inj show "h = k" by (rule fold_inj)
qed

lemma mix_hash_one_byte:
  assumes "i < 8" "drop_bit (i * 8) v AND 0xFF \<noteq> drop_bit (i * 8) w AND 0xFF"
    "\<And>j. j < 8 \<Longrightarrow> j \<noteq> i \<Longrightarrow> drop_bit (j * 8) v AND 0xFF = drop_bit (j * 8) w AND 0xFF"
  shows "mix_hash v h \<noteq> mix_hash w h"
proof
  assume eq: "mix_hash v h = mix_hash w h"
  have split: "[0..<8] = [0..<i] @ i # [Suc i..<8]"
    using assms(1) upt_add_eq_append [of 0 i "8 - i"] by (simp add: upt_conv_Cons)
  have same: "fold (mix_byte v) js k = fold (mix_byte w) js k" if "set js \<subseteq> {j. j < 8 \<and> j \<noteq> i}" for js k
    using that assms(3) by (induction js arbitrary: k) (auto simp: mix_byte_def)
  have "fold (mix_byte v) [Suc i..<8] (mix_byte v i (fold (mix_byte v) [0..<i] h)) =
      fold (mix_byte v) [Suc i..<8] (mix_byte w i (fold (mix_byte v) [0..<i] h))"
    using eq assms(1) unfolding mix_hash_def split
    by (simp add: same [of "[0..<i]", symmetric] same [of "[Suc i..<8]", symmetric] subset_iff)
  then have "mix_byte v i (fold (mix_byte v) [0..<i] h) = mix_byte w i (fold (mix_byte v) [0..<i] h)"
    by (rule fold_inj [rotated]) (rule mix_byte_inj)
  then show False using mix_byte_differs [OF assms(2)] by blast
qed

end
