(* ===== verification/Book_Props.thy ===== *)
theory Book_Props
  imports Book
begin

text \<open>
  What the side containers and the book promise, over every sequence of operations from a new
  one: the tick-indexed book behaves as the reference book, both compute the abstract book, no
  refused level is ever stored, trimming keeps the levels nearest the touch, and the state hash
  reads the whole state.
\<close>

section \<open>Sequences of side operations\<close>

datatype side_op = Side_apply price qty | Side_clear

fun side_op_ok :: "side_op \<Rightarrow> bool" where
  "side_op_ok (Side_apply p q) \<longleftrightarrow> i64 (ticks p) \<and> i64 (units q)"
| "side_op_ok Side_clear \<longleftrightarrow> True"

fun side_step :: "'s side_impl \<Rightarrow> side_op \<Rightarrow> 's \<Rightarrow> 's" where
  "side_step impl (Side_apply p q) x = si_apply impl p q x"
| "side_step impl Side_clear x = si_clear impl x"

fun contents_step :: "side_op \<Rightarrow> contents \<Rightarrow> contents" where
  "contents_step (Side_apply p q) m = contents_apply (ticks p) (units q) m"
| "contents_step Side_clear m = []"

definition side_run :: "'s side_impl \<Rightarrow> side \<Rightarrow> side_op list \<Rightarrow> 's" where
  "side_run impl s ops = fold (side_step impl) ops (si_new impl s)"

section \<open>Sequences of book operations\<close>

datatype book_op = Book_apply side price qty | Book_clear | Book_trim nat

fun book_op_ok :: "book_op \<Rightarrow> bool" where
  "book_op_ok (Book_apply s p q) \<longleftrightarrow> i64 (ticks p) \<and> i64 (units q)"
| "book_op_ok Book_clear \<longleftrightarrow> True"
| "book_op_ok (Book_trim n) \<longleftrightarrow> True"

fun book_step :: "'s side_impl \<Rightarrow> book_op \<Rightarrow> 's l2_book \<Rightarrow> 's l2_book option" where
  "book_step impl (Book_apply s p q) b = Some (snd (book_apply impl s p q b))"
| "book_step impl Book_clear b = Some (book_clear impl b)"
| "book_step impl (Book_trim n) b = map_option snd (book_trim impl n b)"

fun book_run :: "'s side_impl \<Rightarrow> book_op list \<Rightarrow> 's l2_book \<Rightarrow> 's l2_book option" where
  "book_run impl [] b = Some b"
| "book_run impl (op # ops) b = Option.bind (book_step impl op b) (book_run impl ops)"

fun l2_step :: "book_op \<Rightarrow> l2_contents \<Rightarrow> l2_contents" where
  "l2_step (Book_apply s p q) m = l2_apply s p q m"
| "l2_step Book_clear m = (\<lambda>s. [])"
| "l2_step (Book_trim n) m = l2_trim_side Ask n (l2_trim_side Bid n m)"

context book_side
begin

lemma side_run_holds:
  assumes "\<forall>op \<in> set ops. side_op_ok op"
  shows "holds (side_run impl s ops) s (fold contents_step ops [])"
proof -
  have "holds (fold (side_step impl) ops x) s (fold contents_step ops m)" if "holds x s m" for x m
    using that assms
  proof (induction ops arbitrary: x m)
    case (Cons op ops)
    have "holds (side_step impl op x) s (contents_step op m)"
      using Cons.prems by (cases op) (auto intro: holds_apply holds_clear)
    then show ?case using Cons by simp
  qed simp
  then show ?thesis unfolding side_run_def using holds_new by blast
qed

lemma rep_run:
  assumes "book_rep holds b m" "\<forall>op \<in> set ops. book_op_ok op"
  shows "\<exists>b'. book_run impl ops b = Some b' \<and> book_rep holds b' (fold l2_step ops m)"
  using assms
proof (induction ops arbitrary: b m)
  case (Cons op ops)
  have "\<exists>b1. book_step impl op b = Some b1 \<and> book_rep holds b1 (l2_step op m)"
  proof (cases op)
    case (Book_apply s p q)
    with Cons.prems show ?thesis by (auto intro: rep_apply)
  next
    case Book_clear
    with Cons.prems show ?thesis by (auto intro: rep_clear)
  next
    case (Book_trim n)
    with rep_trim [OF Cons.prems(1), of n] show ?thesis by auto
  qed
  then obtain b1 where b1: "book_step impl op b = Some b1" "book_rep holds b1 (l2_step op m)" by blast
  from Cons.IH [OF b1(2)] Cons.prems b1(1) show ?case by auto
qed simp

lemma rep_observe:
  assumes "book_rep holds b m"
  shows "book_best impl s b = (case depth m s of [] \<Rightarrow> None | l # _ \<Rightarrow> Some l)"
    and "si_levels impl (book_side_of s b) = depth m s"
    and "si_size impl (book_side_of s b) = length (depth m s)"
    and "book_top impl s n b = take (max 1 n) (depth m s)"
    and "state_hash impl b = fold mix_hash (hash_words m) kHashBasis"
  using rep_best [OF assms] rep_levels [OF assms] rep_size [OF assms] rep_top [OF assms]
    rep_state_hash [OF assms] by simp_all

end

lemma contents_apply_positive:
  "contents_ok m \<Longrightarrow> \<forall>(p, q) \<in> set m. 0 \<le> p \<and> 0 < q \<Longrightarrow> 0 \<le> p \<Longrightarrow> 0 \<le> q \<Longrightarrow>
     \<forall>(p, q) \<in> set (contents_apply p q m). 0 \<le> p \<and> 0 < q"
  by (auto simp: set_contents_apply entries_apply_def split: if_splits)

lemma set_take_book_order: "e \<in> set (take n (book_order s m)) \<Longrightarrow> e \<in> set m"
  using in_set_takeD [of e n "book_order s m"] by simp

lemma ascending_trim:
  fixes m :: contents
  assumes "ascending m"
  shows "ascending (book_order s (take n (book_order s m)))"
proof -
  have "sorted_wrt (precedes s) (book_order s (keys m))" using assms by (simp add: sorted_book_order)
  then have "sorted_wrt (precedes s) (take n (book_order s (keys m)))" by (rule sorted_wrt_take)
  moreover have "book_order s (keys (book_order s (take n (book_order s m)))) =
      take n (book_order s (keys m))"
    by (simp add: keys_def map_book_order take_map [symmetric])
  ultimately show ?thesis by (simp only: sorted_book_order [of s, symmetric])
qed

lemma trim_side_ok:
  fixes s :: side and n :: nat
  assumes "contents_ok m \<and> (\<forall>(p, q) \<in> set m. 0 \<le> p \<and> 0 < q)"
  defines "m' \<equiv> book_order s (take n (book_order s m))"
  shows "contents_ok m' \<and> (\<forall>(p, q) \<in> set m'. 0 \<le> p \<and> 0 < q)"
proof -
  have "set m' \<subseteq> set m" by (auto simp: m'_def dest: set_take_book_order)
  then show ?thesis using assms ascending_trim [of m s n] by (auto simp: contents_ok_def)
qed

lemma l2_trim_ok: "l2_ok m \<Longrightarrow> l2_ok (l2_trim_side s n m)"
  using trim_side_ok [of "m s" s n] by (simp add: l2_ok_def l2_trim_side_def)

lemma l2_step_ok:
  assumes "l2_ok m" "book_op_ok op"
  shows "l2_ok (l2_step op m)"
proof (cases op)
  case (Book_apply s p q)
  show ?thesis
  proof (cases "ticks p < 0 \<or> units q < 0")
    case False
    have m: "contents_ok (m s)" "\<forall>(p, q) \<in> set (m s). 0 \<le> p \<and> 0 < q"
      using assms(1) by (simp_all add: l2_ok_def)
    have "contents_ok (contents_apply (ticks p) (units q) (m s))"
      using m(1) assms(2) Book_apply by (simp add: contents_apply_ok)
    moreover have "\<forall>(p, q) \<in> set (contents_apply (ticks p) (units q) (m s)). 0 \<le> p \<and> 0 < q"
      by (intro contents_apply_positive m) (use False in auto)
    ultimately show ?thesis using False assms Book_apply by (auto simp: l2_apply_def l2_ok_def)
  qed (use assms Book_apply in \<open>simp add: l2_apply_def\<close>)
next
  case (Book_trim n)
  with assms show ?thesis by (simp add: l2_trim_ok)
qed (simp add: l2_ok_def)

lemma l2_run_ok: "l2_ok m \<Longrightarrow> \<forall>op \<in> set ops. book_op_ok op \<Longrightarrow> l2_ok (fold l2_step ops m)"
  by (induction ops arbitrary: m) (auto intro: l2_step_ok)

lemma l2_empty_ok [simp]: "l2_ok (\<lambda>s. [])"
  by (simp add: l2_ok_def)

section \<open>Two lawful containers\<close>

lemma rep_observe_equal:
  assumes "book_side impl1 holds1" "book_rep holds1 b1 m" "book_side impl2 holds2" "book_rep holds2 b2 m"
  shows "book_best impl1 s b1 = book_best impl2 s b2 \<and>
     si_levels impl1 (book_side_of s b1) = si_levels impl2 (book_side_of s b2) \<and>
     si_size impl1 (book_side_of s b1) = si_size impl2 (book_side_of s b2) \<and>
     book_top impl1 s n b1 = book_top impl2 s n b2 \<and> state_hash impl1 b1 = state_hash impl2 b2"
  using book_side.rep_observe [OF assms(1,2)] book_side.rep_observe [OF assms(3,4)] by simp

lemma map_run:
  "\<forall>op \<in> set ops. book_op_ok op \<Longrightarrow>
     \<exists>b. book_run map_impl ops (l2_book_new map_impl spec) = Some b \<and>
       book_rep map_holds b (fold l2_step ops (\<lambda>s. []))"
  using map_side.rep_run [OF map_side.rep_new] by blast

lemma array_run:
  assumes "int slots \<le> i64_max" "\<forall>op \<in> set ops. book_op_ok op"
  shows "\<exists>b. book_run (array_impl slots) ops (l2_book_new (array_impl slots) spec) = Some b \<and>
       book_rep array_holds b (fold l2_step ops (\<lambda>s. []))"
  using book_side.rep_run [OF array_book_side [OF assms(1)]
      book_side.rep_new [OF array_book_side [OF assms(1)]] assms(2)] by blast

text \<open>
  The tick-indexed side is the reference side.  After any sequence of updates and clears on a
  new \<open>ArraySide\<close> of any window size up to \<open>INT64_MAX\<close> slots, iterating it with any callback
  (early exits included) threads the same state as iterating the \<open>MapSide\<close> that received the
  same sequence, and both report the same best level and the same size.  Every path of the window,
  the spill list and the recentring rebuild is covered.
\<close>

theorem array_side_equals_map_side:
  assumes "int slots \<le> i64_max" "\<forall>op \<in> set ops. side_op_ok op"
  shows "array_for_each f (side_run (array_impl slots) s ops) st =
       map_for_each f (side_run map_impl s ops) st \<and>
     array_best (side_run (array_impl slots) s ops) = map_best (side_run map_impl s ops) \<and>
     array_size (side_run (array_impl slots) s ops) = map_size (side_run map_impl s ops)"
proof -
  let ?m = "fold contents_step ops []" and ?x = "side_run (array_impl slots) s ops"
  let ?y = "side_run map_impl s ops"
  have a: "array_holds ?x s ?m"
    by (rule book_side.side_run_holds [OF array_book_side [OF assms(1)] assms(2)])
  have b: "map_holds ?y s ?m" by (rule map_side.side_run_holds [OF assms(2)])
  have "array_for_each f ?x st = map_for_each f ?y st"
    unfolding array_for_each_visit [OF a] map_for_each_visit using b by (simp add: map_holds_def)
  moreover have "array_best ?x = map_best ?y"
    unfolding array_best_correct [OF a] using map_side.best_law [OF b] by (simp add: map_impl_def)
  moreover have "array_size ?x = map_size ?y"
    unfolding array_size_correct [OF a] using map_side.size_law [OF b] by (simp add: map_impl_def)
  ultimately show ?thesis by blast
qed

definition sample_side_ops :: "side_op list" where
  "sample_side_ops =
     [Side_apply (Price 100) (Qty 5), Side_apply (Price 101) (Qty 2), Side_apply (Price 900) (Qty 1),
      Side_apply (Price 99) (Qty 7), Side_apply (Price 100) (Qty 0)]"

lemma array_side_equals_map_side_witness:
  "array_for_each push_back (side_run (array_impl 4) Ask sample_side_ops) [] =
     map_for_each push_back (side_run map_impl Ask sample_side_ops) []"
  using array_side_equals_map_side [of 4 sample_side_ops push_back Ask "[]"]
  by (simp add: sample_side_ops_def int_limits)

text \<open>
  C1: The differential oracle.  Any sequence of book operations (updates, clears, trims) runs to
  completion on a new \<open>MapBook\<close> and on a new \<open>ArrayBook\<close>, and the two books then agree on the
  state hash, on the levels and the size of both sides, on the best level and on the top of any
  length.
\<close>

theorem array_book_equals_map_book:
  assumes "\<forall>op \<in> set ops. book_op_ok op"
  shows "\<exists>a m. book_run (array_impl kDefaultSlots) ops (l2_book_new (array_impl kDefaultSlots) spec) = Some a \<and>
     book_run map_impl ops (l2_book_new map_impl spec) = Some m \<and>
     state_hash (array_impl kDefaultSlots) a = state_hash map_impl m \<and>
     (\<forall>s n. si_levels (array_impl kDefaultSlots) (book_side_of s a) = si_levels map_impl (book_side_of s m) \<and>
       si_size (array_impl kDefaultSlots) (book_side_of s a) = si_size map_impl (book_side_of s m) \<and>
       book_best (array_impl kDefaultSlots) s a = book_best map_impl s m \<and>
       book_top (array_impl kDefaultSlots) s n a = book_top map_impl s n m)"
proof -
  have slots: "int kDefaultSlots \<le> i64_max" by (simp add: kDefaultSlots_def int_limits)
  obtain a where a: "book_run (array_impl kDefaultSlots) ops (l2_book_new (array_impl kDefaultSlots) spec) = Some a"
      "book_rep array_holds a (fold l2_step ops (\<lambda>s. []))"
    using array_run [OF slots assms] by blast
  obtain m where m: "book_run map_impl ops (l2_book_new map_impl spec) = Some m"
      "book_rep map_holds m (fold l2_step ops (\<lambda>s. []))"
    using map_run [OF assms] by blast
  show ?thesis
    using a(1) m(1) rep_observe_equal [OF array_side.book_side_axioms a(2) map_side.book_side_axioms m(2)]
    by blast
qed

definition sample_spec :: instrument_spec where
  "sample_spec = \<lparr>is_symbol = ''BTC/USD'', is_price_scale = 1, is_qty_scale = 8\<rparr>"

definition sample_ops :: "book_op list" where
  "sample_ops = [Book_apply Bid (Price 9) (Qty 1), Book_apply Bid (Price 8) (Qty 3),
     Book_apply Ask (Price 11) (Qty (- 2)), Book_apply Ask (Price 12) (Qty 4), Book_trim 1]"

lemma sample_ops_ok: "\<forall>op \<in> set sample_ops. book_op_ok op"
  by (simp add: sample_ops_def int_limits)

lemma array_book_equals_map_book_witness:
  "\<exists>a m. book_run (array_impl kDefaultSlots) sample_ops (l2_book_new (array_impl kDefaultSlots) sample_spec) = Some a \<and>
     book_run map_impl sample_ops (l2_book_new map_impl sample_spec) = Some m \<and>
     state_hash (array_impl kDefaultSlots) a = state_hash map_impl m"
  using array_book_equals_map_book [OF sample_ops_ok] by blast

text \<open>
  C2: The array book refines the abstract book for every window size: after any operations the
  levels of each side, read in iteration order, are those of the abstract book, and each of them
  has a non-negative price and a positive quantity within 64 bits, whatever signs the updates had.
\<close>

theorem array_book_refines:
  assumes "int slots \<le> i64_max" "\<forall>op \<in> set ops. book_op_ok op"
  shows "\<exists>b. book_run (array_impl slots) ops (l2_book_new (array_impl slots) spec) = Some b \<and>
     (\<forall>s. si_levels (array_impl slots) (book_side_of s b) = depth (fold l2_step ops (\<lambda>s. [])) s \<and>
       (\<forall>l \<in> set (si_levels (array_impl slots) (book_side_of s b)).
          0 \<le> ticks (price l) \<and> ticks (price l) \<le> i64_max \<and> 0 < units (qty l) \<and> units (qty l) \<le> i64_max))"
proof -
  let ?m = "fold l2_step ops (\<lambda>s. [])"
  obtain b where b: "book_run (array_impl slots) ops (l2_book_new (array_impl slots) spec) = Some b"
      "book_rep array_holds b ?m"
    using array_run [OF assms] by blast
  have ok: "l2_ok ?m" using l2_run_ok [OF l2_empty_ok assms(2)] .
  have lv: "si_levels (array_impl slots) (book_side_of s b) = depth ?m s" for s
    using book_side.rep_observe(2) [OF array_book_side [OF assms(1)] b(2)] .
  have pos: "0 < units (qty l)" if "l \<in> set (depth ?m s)" for l s
  proof -
    have "l \<in> level_of ` set (?m s)" using that by (simp add: depth_def content_levels_def)
    then obtain e where "e \<in> set (?m s)" "l = level_of e" by (elim imageE)
    then show ?thesis using ok by (fastforce simp: l2_ok_def)
  qed
  show ?thesis using b(1) lv depth_range [OF ok] pos by auto
qed

lemma array_book_refines_witness:
  "\<exists>b. book_run (array_impl 8) sample_ops (l2_book_new (array_impl 8) sample_spec) = Some b \<and>
     (\<forall>s. \<forall>l \<in> set (si_levels (array_impl 8) (book_side_of s b)). 0 < units (qty l))"
proof -
  have "int 8 \<le> i64_max" by (simp add: int_limits)
  from array_book_refines [OF this sample_ops_ok] show ?thesis by blast
qed

section \<open>Trim, top and hash\<close>

lemma depth_trim:
  "depth (l2_trim_side s n m) t = (if t = s \<and> n \<noteq> 0 then take n (depth m t) else depth m t)"
  by (simp add: depth_def l2_trim_side_def content_levels_def take_map)

lemma depth_trim_both:
  "depth (l2_trim_side Ask n (l2_trim_side Bid n m)) s =
     (if n = 0 then depth m s else take n (depth m s))"
  by (cases s) (simp_all add: depth_trim)

text \<open>
  C16: Trimming keeps the levels nearest the touch.  On any reachable array book \<open>trim\<close> returns (the
  loop of 64-price batches ends), reports exactly how many levels it removed, and leaves on each
  side the first \<open>n\<close> levels in book order; a limit of zero leaves the book as it was.
\<close>

theorem trim_keeps_the_touch:
  assumes "book_run (array_impl kDefaultSlots) ops (l2_book_new (array_impl kDefaultSlots) spec) = Some b"
    and "\<forall>op \<in> set ops. book_op_ok op"
  defines "levels \<equiv> \<lambda>b s. si_levels (array_impl kDefaultSlots) (book_side_of s b)"
  shows "\<exists>k b'. book_trim (array_impl kDefaultSlots) n b = Some (k, b') \<and>
     (\<forall>s. levels b' s = (if n = 0 then levels b s else take n (levels b s))) \<and>
     length (levels b' Bid) + length (levels b' Ask) + k = length (levels b Bid) + length (levels b Ask) \<and>
     bk_spec b' = bk_spec b \<and> bk_last_update b' = bk_last_update b"
proof -
  let ?m = "fold l2_step ops (\<lambda>s. [])" and ?m' = "\<lambda>m. l2_trim_side Ask n (l2_trim_side Bid n m)"
  have slots: "int kDefaultSlots \<le> i64_max" by (simp add: kDefaultSlots_def int_limits)
  have b: "book_rep array_holds b ?m" using array_run [OF slots assms(2), of spec] assms(1) by auto
  obtain b' where b': "book_trim (array_impl kDefaultSlots) n b =
       Some (if n = 0 then 0 else (length (?m Bid) - n) + (length (?m Ask) - n), b')"
     "book_rep array_holds b' (?m' ?m)" "bk_spec b' = bk_spec b" "bk_last_update b' = bk_last_update b"
    using array_side.rep_trim [OF b, of n] by blast
  have l: "levels b s = depth ?m s" "levels b' s = (if n = 0 then depth ?m s else take n (depth ?m s))" for s
    using array_side.rep_levels [OF b] array_side.rep_levels [OF b'(2)] by (simp_all add: levels_def depth_trim_both)
  show ?thesis using b' by (auto simp: l)
qed

lemma sample_run:
  "\<exists>b. book_run (array_impl kDefaultSlots) sample_ops (l2_book_new (array_impl kDefaultSlots) sample_spec) = Some b"
  using array_run [OF _ sample_ops_ok, of kDefaultSlots sample_spec]
  by (auto simp: kDefaultSlots_def int_limits)

lemma trim_keeps_the_touch_witness:
  "\<exists>b k b'. book_run (array_impl kDefaultSlots) sample_ops
       (l2_book_new (array_impl kDefaultSlots) sample_spec) = Some b \<and>
     book_trim (array_impl kDefaultSlots) 1 b = Some (k, b')"
  using sample_run trim_keeps_the_touch [OF _ sample_ops_ok] by blast

text \<open>
  \<open>top\<close> copies the first \<open>n\<close> levels in book order, all of them when there are fewer.  The case
  \<open>n = 0\<close> is included: the callback appends before it compares, so one level comes back.
\<close>

theorem top_returns_prefix:
  assumes "book_run (array_impl kDefaultSlots) ops (l2_book_new (array_impl kDefaultSlots) spec) = Some b"
    and "\<forall>op \<in> set ops. book_op_ok op"
  shows "book_top (array_impl kDefaultSlots) s n b =
     take (if n = 0 then 1 else n) (si_levels (array_impl kDefaultSlots) (book_side_of s b))"
proof -
  let ?m = "fold l2_step ops (\<lambda>s. [])"
  have slots: "int kDefaultSlots \<le> i64_max" by (simp add: kDefaultSlots_def int_limits)
  have b: "book_rep array_holds b ?m" using array_run [OF slots assms(2), of spec] assms(1) by auto
  have "max 1 n = (if n = 0 then 1 else n)" by simp
  then show ?thesis using array_side.rep_top [OF b, of s n] array_side.rep_levels [OF b] by simp
qed

lemma top_returns_prefix_witness:
  "\<exists>b. book_run (array_impl kDefaultSlots) sample_ops
       (l2_book_new (array_impl kDefaultSlots) sample_spec) = Some b \<and>
     book_top (array_impl kDefaultSlots) Bid 0 b =
       take 1 (si_levels (array_impl kDefaultSlots) (book_side_of Bid b))"
proof -
  obtain b where b: "book_run (array_impl kDefaultSlots) sample_ops
      (l2_book_new (array_impl kDefaultSlots) sample_spec) = Some b"
    using sample_run by blast
  from top_returns_prefix [OF b sample_ops_ok, of Bid 0] b show ?thesis by simp
qed

lemma reached_array:
  assumes "book_run (array_impl kDefaultSlots) ops (l2_book_new (array_impl kDefaultSlots) spec) = Some b"
    "\<forall>op \<in> set ops. book_op_ok op"
  shows "book_rep array_holds b (fold l2_step ops (\<lambda>s. []))"
    and "l2_ok (fold l2_step ops (\<lambda>s. []))"
proof -
  have "int kDefaultSlots \<le> i64_max" by (simp add: kDefaultSlots_def int_limits)
  then show "book_rep array_holds b (fold l2_step ops (\<lambda>s. []))"
    using array_run [OF _ assms(2), of kDefaultSlots spec] assms(1) by auto
  show "l2_ok (fold l2_step ops (\<lambda>s. []))" by (rule l2_run_ok [OF l2_empty_ok assms(2)])
qed

text \<open>
  C15: The hash reads the whole state.  On a reachable array book it is the fold of \<open>mix\<close> over the
  words of the abstract book, and that word stream determines the book: two books reached by any
  operations with the same stream have the same levels on both sides.  The level count and the
  separator are what makes the two sides unambiguous.
\<close>

theorem state_hash_stream_injective:
  assumes "\<forall>op \<in> set ops. book_op_ok op" "\<forall>op \<in> set ops'. book_op_ok op"
    and "book_run (array_impl kDefaultSlots) ops (l2_book_new (array_impl kDefaultSlots) spec) = Some b"
    and "book_run (array_impl kDefaultSlots) ops' (l2_book_new (array_impl kDefaultSlots) spec') = Some b'"
  shows "state_hash (array_impl kDefaultSlots) b =
       fold mix_hash (hash_words (fold l2_step ops (\<lambda>s. []))) kHashBasis \<and>
     (hash_words (fold l2_step ops (\<lambda>s. [])) = hash_words (fold l2_step ops' (\<lambda>s. [])) \<longrightarrow>
      (\<forall>s. si_levels (array_impl kDefaultSlots) (book_side_of s b) =
         si_levels (array_impl kDefaultSlots) (book_side_of s b')))"
proof -
  note r = reached_array [OF assms(3,1)] and r' = reached_array [OF assms(4,2)]
  show ?thesis
  proof (intro conjI impI allI)
    show "state_hash (array_impl kDefaultSlots) b =
        fold mix_hash (hash_words (fold l2_step ops (\<lambda>s. []))) kHashBasis"
      by (rule array_side.rep_state_hash [OF r(1)])
    fix s
    assume "hash_words (fold l2_step ops (\<lambda>s. [])) = hash_words (fold l2_step ops' (\<lambda>s. []))"
    then have "fold l2_step ops (\<lambda>s. []) = fold l2_step ops' (\<lambda>s. [])"
      by (rule hash_words_inj [OF r(2) r'(2)])
    then show "si_levels (array_impl kDefaultSlots) (book_side_of s b) =
        si_levels (array_impl kDefaultSlots) (book_side_of s b')"
      by (simp only: array_side.rep_levels [OF r(1)] array_side.rep_levels [OF r'(1)])
  qed
qed

lemma state_hash_stream_injective_witness:
  "\<exists>b. book_run (array_impl kDefaultSlots) sample_ops
       (l2_book_new (array_impl kDefaultSlots) sample_spec) = Some b \<and>
     state_hash (array_impl kDefaultSlots) b =
       fold mix_hash (hash_words (fold l2_step sample_ops (\<lambda>s. []))) kHashBasis"
proof -
  obtain b where b: "book_run (array_impl kDefaultSlots) sample_ops
      (l2_book_new (array_impl kDefaultSlots) sample_spec) = Some b"
    using sample_run by blast
  from state_hash_stream_injective [OF sample_ops_ok sample_ops_ok b b] b show ?thesis by blast
qed

lemma fold_mix_inj: "fold mix_hash ws h = fold mix_hash ws k \<Longrightarrow> h = k"
  using mix_hash_inj by (rule fold_inj)

text \<open>The bytes of the word stream, in the order the hash consumes them.\<close>

definition byte_of :: "u64 \<Rightarrow> nat \<Rightarrow> u64" where
  "byte_of v i = and (drop_bit (i * 8) v) 0xFF"

text \<open>
  No single-byte change goes unnoticed.  Two reachable array books whose word streams differ in
  exactly one byte of one word have different state hashes: every later step of the FNV-1a mix is
  injective because its multiplier is odd.
\<close>

theorem state_hash_one_byte:
  assumes "\<forall>op \<in> set ops. book_op_ok op" "\<forall>op \<in> set ops'. book_op_ok op"
    and "book_run (array_impl kDefaultSlots) ops (l2_book_new (array_impl kDefaultSlots) spec) = Some b"
    and "book_run (array_impl kDefaultSlots) ops' (l2_book_new (array_impl kDefaultSlots) spec') = Some b'"
    and "hash_words (fold l2_step ops (\<lambda>s. [])) = us @ v # ws"
    and "hash_words (fold l2_step ops' (\<lambda>s. [])) = us @ v' # ws"
    and "i < 8" "byte_of v i \<noteq> byte_of v' i"
    and "\<And>j. j < 8 \<Longrightarrow> j \<noteq> i \<Longrightarrow> byte_of v j = byte_of v' j"
  shows "state_hash (array_impl kDefaultSlots) b \<noteq> state_hash (array_impl kDefaultSlots) b'"
proof -
  have h: "state_hash (array_impl kDefaultSlots) b = fold mix_hash (us @ v # ws) kHashBasis"
      "state_hash (array_impl kDefaultSlots) b' = fold mix_hash (us @ v' # ws) kHashBasis"
    using array_side.rep_state_hash reached_array(1) [OF assms(3,1)] reached_array(1) [OF assms(4,2)]
      assms(5,6) by (simp_all only:)
  have "mix_hash v (fold mix_hash us kHashBasis) \<noteq> mix_hash v' (fold mix_hash us kHashBasis)"
    using mix_hash_one_byte [of i v v'] assms(7-9) by (simp add: byte_of_def)
  then show ?thesis
    using fold_mix_inj unfolding h by auto
qed

lemma state_hash_one_byte_witness:
  "\<exists>b b'. book_run (array_impl kDefaultSlots) [Book_apply Bid (Price 9) (Qty 1)]
       (l2_book_new (array_impl kDefaultSlots) sample_spec) = Some b \<and>
     book_run (array_impl kDefaultSlots) [Book_apply Bid (Price 9) (Qty 2)]
       (l2_book_new (array_impl kDefaultSlots) sample_spec) = Some b' \<and>
     state_hash (array_impl kDefaultSlots) b \<noteq> state_hash (array_impl kDefaultSlots) b'"
proof -
  have ok: "\<forall>op \<in> set [Book_apply Bid (Price 9) (Qty n)]. book_op_ok op" if "n < 3" "0 \<le> n" for n
    using that by (simp add: int_limits)
  have slots: "int kDefaultSlots \<le> i64_max" by (simp add: kDefaultSlots_def int_limits)
  obtain b where b: "book_run (array_impl kDefaultSlots) [Book_apply Bid (Price 9) (Qty 1)]
      (l2_book_new (array_impl kDefaultSlots) sample_spec) = Some b"
    using array_run [OF slots ok [of 1]] by auto
  obtain b' where b': "book_run (array_impl kDefaultSlots) [Book_apply Bid (Price 9) (Qty 2)]
      (l2_book_new (array_impl kDefaultSlots) sample_spec) = Some b'"
    using array_run [OF slots ok [of 2]] by auto
  have w: "hash_words (fold l2_step [Book_apply Bid (Price 9) (Qty 1)] (\<lambda>s. [])) =
      [0, 1, kHashSeparator, 9] @ 1 # [1, 0, kHashSeparator]"
    by code_simp
  have w': "hash_words (fold l2_step [Book_apply Bid (Price 9) (Qty 2)] (\<lambda>s. [])) =
      [0, 1, kHashSeparator, 9] @ 2 # [1, 0, kHashSeparator]"
    by code_simp
  have "byte_of 1 0 \<noteq> byte_of 2 0" by code_simp
  moreover have "byte_of 1 j = byte_of 2 j" if "j < 8" "j \<noteq> 0" for j
  proof -
    have "\<forall>j \<in> set [1..<8]. byte_of 1 j = byte_of 2 j" by code_simp
    then show ?thesis using that by auto
  qed
  ultimately have "state_hash (array_impl kDefaultSlots) b \<noteq> state_hash (array_impl kDefaultSlots) b'"
    using state_hash_one_byte [OF ok [of 1] ok [of 2] b b' w w', of 0] by simp
  then show ?thesis using b b' by blast
qed

lemma apply_slots [simp]:
  "as_slots (apply_in_window i q x) = as_slots x"
  by (auto simp: apply_in_window_def Let_def)

lemma fold_refill_slots [simp]:
  "as_slots (fold refill_level ls y) = as_slots y" "as_base (fold refill_level ls y) = as_base y"
  by (induction ls arbitrary: y) auto

lemma rebuild_slots [simp]: "as_slots (rebuild_around_touch x) = as_slots x"
  by (auto simp: rebuild_around_touch_def Let_def)

lemma array_apply_slots: "as_slots (array_apply p q x) = as_slots x"
  by (auto simp: array_apply_def apply_outside_def Let_def split: option.split)

lemma side_run_slots: "as_slots (side_run (array_impl slots) s ops) = slots"
proof -
  have "as_slots (fold (side_step (array_impl slots)) ops x) = as_slots x" for x
  proof (induction ops arbitrary: x)
    case (Cons op ops)
    then show ?case by (cases op) (simp_all add: array_impl_def array_apply_slots array_clear_def)
  qed simp
  then show ?thesis by (simp add: side_run_def array_impl_def array_side_new_def)
qed

text \<open>After the rebuild the touch is inside the window.\<close>

lemma rebuild_shape:
  assumes "array_inv x" "merged x \<noteq> []"
  shows "as_base (rebuild_around_touch x) = anchor_for (as_slots x) (level_key (hd (merged x)))"
    and "as_overflow_floor (rebuild_around_touch x) = length (as_overflow (rebuild_around_touch x))"
proof -
  let ?x0 = "x\<lparr>as_rebuild_count := as_rebuild_count x + 1\<rparr>"
  have "array_inv ?x0" using assms(1) inv_part_cong [of ?x0 x] by (simp add: array_inv_def)
  moreover have "merged ?x0 = merged x"
    by (simp add: merged_def window_pairs_def occupied_def [abs_def])
  ultimately have "array_for_each push_back ?x0 [] = merged x"
    by (simp add: array_for_each_merged visit_push_back)
  with assms(2) show "as_base (rebuild_around_touch x) = anchor_for (as_slots x) (level_key (hd (merged x)))"
    "as_overflow_floor (rebuild_around_touch x) = length (as_overflow (rebuild_around_touch x))"
    by (simp_all add: rebuild_around_touch_def Let_def)
qed

lemma rebuild_window:
  assumes h: "array_holds x s m" and a: "as_anchored x"
    and "0 < as_slots x" "array_best x = Some touch"
  shows "window_index (rebuild_around_touch x) (ticks (price touch)) \<noteq> None \<and>
     as_overflow_floor (rebuild_around_touch x) = length (as_overflow (rebuild_around_touch x))"
proof -
  have inv: "array_inv x" using h by (simp add: array_holds_def)
  have ok: "base_ok x" "spill_ok x" using inv by (auto simp: array_inv_def)
  have m: "merged x = content_levels s m"
    using h merged_contents [OF ok] by (auto simp: array_holds_def)
  then have t: "merged x \<noteq> []" "hd (merged x) = touch"
    using assms(4) array_best_correct [OF h] by (auto split: list.splits)
  have "level_ok touch" using merged_level_ok [OF inv] t by (metis hd_in_set)
  then have "i64 (level_key touch)" by (simp add: level_ok_def)
  moreover have "base_ok (rebuild_around_touch x)"
    using rebuild_correct(1) [OF inv a] by (simp add: array_inv_def)
  moreover have "in_window (rebuild_around_touch x) (level_key touch)"
    using anchor_for_ok(2) [of x "level_key touch"] rebuild_shape(1) [OF inv t(1)] t(2) ok(1) calculation(1)
      assms(3) by (simp add: in_window_def base_ok_def)
  ultimately show ?thesis
    using rebuild_shape(2) [OF inv t(1)] by (simp add: window_index_iff)
qed

text \<open>
  The rebuild moves the window and nothing else.  On any reachable, anchored \<open>ArraySide\<close> with at
  least one slot it keeps what iteration shows, and afterwards the touch is inside the window and
  the spill floor is the length of the rebuilt spill list.
\<close>

theorem rebuild_recentres:
  assumes "int slots \<le> i64_max" "0 < slots" "\<forall>op \<in> set ops. side_op_ok op"
    and "as_anchored (side_run (array_impl slots) s ops)"
    and "array_best (side_run (array_impl slots) s ops) = Some touch"
  shows "array_for_each f (rebuild_around_touch (side_run (array_impl slots) s ops)) st =
       array_for_each f (side_run (array_impl slots) s ops) st \<and>
     window_index (rebuild_around_touch (side_run (array_impl slots) s ops)) (ticks (price touch)) \<noteq> None \<and>
     as_overflow_floor (rebuild_around_touch (side_run (array_impl slots) s ops)) =
       length (as_overflow (rebuild_around_touch (side_run (array_impl slots) s ops)))"
proof -
  let ?m = "fold contents_step ops []" and ?x = "side_run (array_impl slots) s ops"
  have h: "array_holds ?x s ?m"
    by (rule book_side.side_run_holds [OF array_book_side [OF assms(1)] assms(3)])
  have "array_holds (rebuild_around_touch ?x) s ?m"
    using h rebuild_correct [OF _ assms(4)] by (simp add: array_holds_def)
  moreover have "as_slots ?x = slots" by (rule side_run_slots)
  ultimately show ?thesis
    using rebuild_window [OF h assms(4)] assms(2,5) array_for_each_visit [OF h]
      array_for_each_visit by metis
qed

lemma rebuild_recentres_witness:
  "as_anchored (side_run (array_impl 4) Ask sample_side_ops) \<and>
   array_for_each push_back (rebuild_around_touch (side_run (array_impl 4) Ask sample_side_ops)) [] =
     array_for_each push_back (side_run (array_impl 4) Ask sample_side_ops) []"
proof -
  have "as_anchored (side_run (array_impl 4) Ask sample_side_ops)" by code_simp
  moreover have "array_best (side_run (array_impl 4) Ask sample_side_ops) = Some (Level (Price 99) (Qty 7))"
    by code_simp
  moreover have "\<forall>op \<in> set sample_side_ops. side_op_ok op"
    by (simp add: sample_side_ops_def int_limits)
  ultimately show ?thesis
    using rebuild_recentres [where slots = 4 and ops = sample_side_ops and s = Ask and
        f = push_back and st = "[]"] by (simp add: int_limits)
qed

section \<open>The bookkeeping of the array side\<close>

definition spill_bounded :: "array_side \<Rightarrow> bool" where
  "spill_bounded x \<longleftrightarrow> as_overflow_floor x \<le> length (as_overflow x) \<and>
     length (as_overflow x) \<le> as_overflow_floor x + kOverflowRebuildThreshold"

lemma overflow_set_ne: "overflow_set t u ov \<noteq> []"
  by (auto simp: overflow_set_def Let_def)

lemma overflow_set_length: "length ov \<le> length (overflow_set t u ov)"
  by (auto simp: overflow_set_def Let_def)

lemma overflow_erase_length: "length (overflow_erase t ov) \<le> length ov"
  by (auto simp: overflow_erase_def Let_def)

lemma advance_best_floor [simp]:
  "as_overflow_floor (advance_best_after_removal x) = as_overflow_floor x"
  by (simp add: advance_best_after_removal_def Let_def)

lemma mark_dirty_floor [simp]: "as_overflow_floor (mark_dirty i x) = as_overflow_floor x"
  by (simp add: mark_dirty_def Let_def)

lemma apply_in_window_spill [simp]:
  "as_overflow (apply_in_window i q x) = as_overflow x"
  "as_overflow_floor (apply_in_window i q x) = as_overflow_floor x"
  by (auto simp: apply_in_window_def Let_def)

lemma rebuild_bounded:
  assumes "array_inv x" "as_overflow x \<noteq> []"
  shows "spill_bounded (rebuild_around_touch x)"
proof -
  have "spill_pairs x \<noteq> []" using assms(2) by (simp add: spill_pairs_def)
  then have "entries x \<noteq> {}" by (simp add: entries_def)
  then have "merged x \<noteq> []"
    using merged_props(2) [of x] assms(1) by (auto simp: array_inv_def)
  then show ?thesis using rebuild_shape(2) [OF assms(1)] by (simp add: spill_bounded_def)
qed

lemma apply_outside_bounded:
  assumes inv: "array_inv x" and "as_anchored x" "i64 t" "\<not> in_window x t" "i64 (units q)"
    and b: "spill_bounded x"
  shows "spill_bounded (apply_outside t q x)"
proof (cases "qty_is_zero q")
  case True
  then show ?thesis
    using b overflow_erase_length [of t "as_overflow x"]
    by (auto simp: apply_outside_def Let_def spill_bounded_def)
next
  case False
  let ?y = "x\<lparr>as_overflow := overflow_set t (units q) (as_overflow x)\<rparr>"
  have "ascending (map pair_of (as_overflow x))"
    using inv by (simp add: array_inv_def spill_ok_def contents_ok_def spill_pairs_def)
  then have "map pair_of (as_overflow ?y) = contents_apply t (units q) (spill_pairs x)"
    using False by (simp add: overflow_set_pairs contents_apply_def spill_pairs_def qty_is_zero_def)
  then have "array_inv ?y"
    using spill_update(1) [OF inv assms(4), of ?y "units q"] assms
      spill_contents_apply [OF inv _ assms(3,5), of _ ?y] by simp
  then show ?thesis
    using False b rebuild_bounded [of ?y] overflow_set_length [of "as_overflow x" t "units q"]
    by (auto simp: apply_outside_def Let_def spill_bounded_def overflow_set_ne)
qed

lemma array_apply_bounded:
  assumes "array_inv x" "i64 (ticks p)" "i64 (units q)" "spill_bounded x"
  shows "spill_bounded (array_apply p q x)"
proof -
  have step: "spill_bounded (case window_index y (ticks p) of Some i \<Rightarrow> apply_in_window i q y
      | None \<Rightarrow> apply_outside (ticks p) q y)"
    if "array_inv y" "as_anchored y" "spill_bounded y" for y
  proof (cases "window_index y (ticks p)")
    case None
    have "base_ok y" using that(1) by (simp add: array_inv_def)
    then have "\<not> in_window y (ticks p)"
      using None assms(2) by (simp add: window_index_iff split: if_splits)
    then show ?thesis using None apply_outside_bounded [OF that(1,2) assms(2) _ assms(3) that(3)] by simp
  next
    case (Some i)
    then show ?thesis using that(3) by (simp add: spill_bounded_def)
  qed
  show ?thesis
  proof (cases "as_anchored x")
    case True
    then show ?thesis using step [OF assms(1) True assms(4)] by (simp add: array_apply_def)
  next
    case False
    let ?y = "x\<lparr>as_base := anchor_for (as_slots x) (ticks p), as_anchored := True\<rparr>"
    have "spill_bounded ?y" using assms(4) by (simp add: spill_bounded_def)
    then have "spill_bounded (case window_index ?y (ticks p) of Some i \<Rightarrow> apply_in_window i q ?y
      | None \<Rightarrow> apply_outside (ticks p) q ?y)"
      using anchor_inv(1) [OF assms(1) False assms(2)] by (intro step) simp_all
    then show ?thesis using False assms(4) by (simp add: array_apply_def Let_def)
  qed
qed

lemma clear_bounded: "spill_bounded (array_clear x)"
  by (simp add: spill_bounded_def array_clear_def)

text \<open>
  The hysteresis of the rebuild.  After any sequence of updates and clears the spill list is never
  shorter than the recorded floor and never more than the threshold (64) longer: a rebuild fires
  exactly when another full threshold of new spill has accumulated, and it always leaves the floor
  where the list stands.
\<close>

theorem spill_within_threshold:
  assumes "int slots \<le> i64_max" "\<forall>op \<in> set ops. side_op_ok op"
  shows "as_overflow_floor (side_run (array_impl slots) s ops) \<le>
       length (as_overflow (side_run (array_impl slots) s ops)) \<and>
     length (as_overflow (side_run (array_impl slots) s ops)) \<le>
       as_overflow_floor (side_run (array_impl slots) s ops) + kOverflowRebuildThreshold"
proof -
  note law = array_book_side [OF assms(1)]
  have "spill_bounded (fold (side_step (array_impl slots)) ops x)"
    if "array_holds x s m" "spill_bounded x" for x m
    using that assms(2)
  proof (induction ops arbitrary: x m)
    case (Cons op ops)
    have "array_holds (side_step (array_impl slots) op x) s (contents_step op m)"
      using Cons.prems(1,3) by (cases op) (auto intro: book_side.holds_apply [OF law] book_side.holds_clear [OF law])
    moreover have "spill_bounded (side_step (array_impl slots) op x)"
      using Cons.prems by (cases op)
        (auto simp: array_impl_def array_holds_def intro!: array_apply_bounded clear_bounded)
    ultimately show ?case using Cons by simp
  qed simp
  from this [OF book_side.holds_new [OF law]] show ?thesis
    by (simp add: side_run_def array_impl_def array_side_new_def spill_bounded_def)
qed

lemma spill_within_threshold_witness:
  "length (as_overflow (side_run (array_impl 4) Ask sample_side_ops)) = 1 \<and>
   as_overflow_floor (side_run (array_impl 4) Ask sample_side_ops) \<le> 1"
proof -
  have "\<forall>op \<in> set sample_side_ops. side_op_ok op" "int 4 \<le> i64_max"
    by (simp_all add: sample_side_ops_def int_limits)
  moreover have "length (as_overflow (side_run (array_impl 4) Ask sample_side_ops)) = 1" by code_simp
  ultimately show ?thesis using spill_within_threshold [of 4 sample_side_ops Ask] by simp
qed

text \<open>
  Clearing forgets everything although it only overwrites the dirty span: after any operations the
  cleared side is a new side in every field but the lifetime counter of rebuilds, with every slot of
  the window zero.
\<close>

theorem clear_is_complete:
  assumes "int slots \<le> i64_max" "\<forall>op \<in> set ops. side_op_ok op"
  shows "array_clear (side_run (array_impl slots) s ops) =
     (array_side_new slots s)
       \<lparr>as_rebuild_count := as_rebuild_count (side_run (array_impl slots) s ops)\<rparr>"
proof -
  let ?x = "side_run (array_impl slots) s ops"
  have "array_holds ?x s (fold contents_step ops [])"
    by (rule book_side.side_run_holds [OF array_book_side [OF assms(1)] assms(2)])
  then have "window_ok ?x" "dirty_ok ?x" "as_side ?x = s" by (auto simp: array_holds_def array_inv_def)
  moreover have "as_slots ?x = slots" by (rule side_run_slots)
  ultimately have "clear_window_slots ?x =
      ?x\<lparr>as_window := replicate slots 0, as_dirty_lo := kNoDirty, as_dirty_hi := 0\<rparr>" "as_side ?x = s"
    "as_slots ?x = slots"
    using clear_window_slots_zero [of ?x] by (auto simp: window_ok_def)
  then show ?thesis by (simp add: array_clear_def array_side_new_def)
qed

lemma clear_is_complete_witness:
  "as_window (array_clear (side_run (array_impl 4) Ask sample_side_ops)) = [0, 0, 0, 0]"
proof -
  have "\<forall>op \<in> set sample_side_ops. side_op_ok op" "int 4 \<le> i64_max"
    by (simp_all add: sample_side_ops_def int_limits)
  from clear_is_complete [OF this(2,1)] show ?thesis
    by (simp add: array_side_new_def numeral_eq_Suc)
qed

end
