(* ===== verification/Sequence.thy ===== *)
theory Sequence
  imports Types
begin

text \<open>
  \<open>include/crossbook/sequence.hpp\<close>: the continuity state machine of one instrument on one venue.
  Identifiers are 64-bit words, so that \<open>snapshot_id + 1\<close> and \<open>last_final_id + 1\<close> wrap as they do
  in the code.
\<close>

section \<open>The state machine\<close>

datatype sequence_policy = BinanceSpot | BinanceFutures | StrictIncrement

record update_ids =
  first_id :: sequence_id
  final_id :: sequence_id
  prev_id :: sequence_id

datatype sequence_action = Apply | DiscardStale | ResyncRequired

definition sequence_action_string :: "sequence_action \<Rightarrow> string" where
  "sequence_action_string a =
     (case a of Apply \<Rightarrow> ''apply'' | DiscardStale \<Rightarrow> ''discard_stale''
      | ResyncRequired \<Rightarrow> ''resync_required'')"

record sequence_stats =
  st_applied :: u64
  st_discarded_stale :: u64
  st_gaps_detected :: u64
  st_snapshots_applied :: u64

record tracker =
  tr_policy :: sequence_policy
  tr_snapshot_id :: sequence_id
  tr_last_final_id :: sequence_id
  tr_have_snapshot :: bool
  tr_straddled :: bool
  tr_stats :: sequence_stats

definition tracker_new :: "sequence_policy \<Rightarrow> tracker" where
  "tracker_new p =
     \<lparr>tr_policy = p, tr_snapshot_id = 0, tr_last_final_id = 0, tr_have_snapshot = False,
      tr_straddled = False,
      tr_stats = \<lparr>st_applied = 0, st_discarded_stale = 0, st_gaps_detected = 0,
        st_snapshots_applied = 0\<rparr>\<rparr>"

definition on_snapshot :: "sequence_id \<Rightarrow> tracker \<Rightarrow> tracker" where
  "on_snapshot sid t =
     t\<lparr>tr_snapshot_id := sid, tr_have_snapshot := True, tr_straddled := False,
       tr_last_final_id := 0,
       tr_stats := (tr_stats t)\<lparr>st_snapshots_applied := st_snapshots_applied (tr_stats t) + 1\<rparr>\<rparr>"

text \<open>The three ways an update can end, with the counters they touch.\<close>

definition discard_stale :: "tracker \<Rightarrow> sequence_action \<times> tracker" where
  "discard_stale t =
     (DiscardStale,
      t\<lparr>tr_stats := (tr_stats t)\<lparr>st_discarded_stale := st_discarded_stale (tr_stats t) + 1\<rparr>\<rparr>)"

definition detect_gap :: "tracker \<Rightarrow> sequence_action \<times> tracker" where
  "detect_gap t =
     (ResyncRequired,
      t\<lparr>tr_stats := (tr_stats t)\<lparr>st_gaps_detected := st_gaps_detected (tr_stats t) + 1\<rparr>,
        tr_have_snapshot := False\<rparr>)"

definition accept_update :: "update_ids \<Rightarrow> tracker \<Rightarrow> sequence_action \<times> tracker" where
  "accept_update ids t =
     (Apply,
      t\<lparr>tr_last_final_id := final_id ids,
        tr_stats := (tr_stats t)\<lparr>st_applied := st_applied (tr_stats t) + 1\<rparr>\<rparr>)"

definition on_update :: "update_ids \<Rightarrow> tracker \<Rightarrow> sequence_action \<times> tracker" where
  "on_update ids t =
     (if \<not> tr_have_snapshot t then (ResyncRequired, t)
      else if tr_policy t = StrictIncrement then
        (if \<not> tr_straddled t then
           (if final_id ids \<le> tr_snapshot_id t then discard_stale t
            else if final_id ids \<noteq> tr_snapshot_id t + 1 then detect_gap t
            else accept_update ids (t\<lparr>tr_straddled := True\<rparr>))
         else if final_id ids \<noteq> tr_last_final_id t + 1 then
           (if final_id ids \<le> tr_last_final_id t then discard_stale t else detect_gap t)
         else accept_update ids (t\<lparr>tr_straddled := True\<rparr>))
      else
        (let anchor = (if tr_policy t = BinanceSpot then tr_snapshot_id t + 1 else tr_snapshot_id t)
         in if \<not> tr_straddled t then
              (if final_id ids < anchor then discard_stale t
               else if \<not> (first_id ids \<le> anchor \<and> final_id ids \<ge> anchor) then detect_gap t
               else accept_update ids (t\<lparr>tr_straddled := True\<rparr>))
            else
              (let continuous = (if tr_policy t = BinanceSpot
                                 then first_id ids = tr_last_final_id t + 1
                                 else prev_id ids = tr_last_final_id t)
               in if \<not> continuous then
                    (if final_id ids \<le> tr_last_final_id t then discard_stale t else detect_gap t)
                  else accept_update ids t)))"

definition synced :: "tracker \<Rightarrow> bool" where "synced t = tr_have_snapshot t"

definition invalidate :: "tracker \<Rightarrow> tracker" where
  "invalidate t = t\<lparr>tr_have_snapshot := False, tr_straddled := False\<rparr>"

section \<open>Runs\<close>

text \<open>The updates a run applies, up to the tracker's verdict on each, and the state it ends in.\<close>

fun feed_updates :: "update_ids list \<Rightarrow> tracker \<Rightarrow> sequence_action list \<times> tracker" where
  "feed_updates [] t = ([], t)"
| "feed_updates (u # us) t =
     (let (a, t1) = on_update u t; (acts, t2) = feed_updates us t1 in (a # acts, t2))"

definition actions :: "update_ids list \<Rightarrow> tracker \<Rightarrow> sequence_action list" where
  "actions us t = fst (feed_updates us t)"

definition applied_of :: "update_ids list \<Rightarrow> tracker \<Rightarrow> update_ids list" where
  "applied_of us t = map fst (filter (\<lambda>(u, a). a = Apply) (zip us (actions us t)))"

lemma actions_simps [simp]:
  "actions [] t = []"
  "actions (u # us) t = fst (on_update u t) # actions us (snd (on_update u t))"
  by (simp_all add: actions_def split: prod.split)

lemma applied_of_simps [simp]:
  "applied_of [] t = []"
  "applied_of (u # us) t =
     (if fst (on_update u t) = Apply then [u] else []) @ applied_of us (snd (on_update u t))"
  by (simp_all add: applied_of_def)

lemma feed_final_simps [simp]:
  "snd (feed_updates [] t) = t"
  "snd (feed_updates (u # us) t) = snd (feed_updates us (snd (on_update u t)))"
  by (simp_all split: prod.split)

declare feed_updates.simps [simp del]

lemma verdict_simps [simp]:
  "fst (discard_stale t) = DiscardStale" "fst (detect_gap t) = ResyncRequired"
  "fst (accept_update ids t) = Apply"
  "tr_have_snapshot (snd (discard_stale t)) = tr_have_snapshot t"
  "tr_have_snapshot (snd (detect_gap t)) = False"
  "tr_have_snapshot (snd (accept_update ids t)) = tr_have_snapshot t"
  "tr_straddled (snd (discard_stale t)) = tr_straddled t"
  "tr_straddled (snd (accept_update ids t)) = tr_straddled t"
  "tr_policy (snd (discard_stale t)) = tr_policy t" "tr_policy (snd (detect_gap t)) = tr_policy t"
  "tr_policy (snd (accept_update ids t)) = tr_policy t"
  "tr_last_final_id (snd (discard_stale t)) = tr_last_final_id t"
  "tr_last_final_id (snd (accept_update ids t)) = final_id ids"
  "tr_snapshot_id (snd (discard_stale t)) = tr_snapshot_id t"
  "tr_snapshot_id (snd (accept_update ids t)) = tr_snapshot_id t"
  by (simp_all add: discard_stale_def detect_gap_def accept_update_def)

text \<open>One update on a tracker without a snapshot changes nothing.\<close>

lemma on_update_unsynced [simp]: "\<not> tr_have_snapshot t \<Longrightarrow> on_update u t = (ResyncRequired, t)"
  by (simp add: on_update_def)

lemma unsynced_final [simp]: "\<not> tr_have_snapshot t \<Longrightarrow> snd (feed_updates us t) = t"
  by (induction us) simp_all

lemma unsynced_run: "\<not> tr_have_snapshot t \<Longrightarrow> set (actions us t) \<subseteq> {ResyncRequired} \<and> applied_of us t = []"
  by (induction us) simp_all

section \<open>Continuity\<close>

text \<open>The wire contract of each policy: how an update continues the previous one.\<close>

definition linked :: "sequence_policy \<Rightarrow> sequence_id \<Rightarrow> update_ids \<Rightarrow> bool" where
  "linked p l u =
     (case p of BinanceSpot \<Rightarrow> first_id u = l + 1
      | BinanceFutures \<Rightarrow> prev_id u = l
      | StrictIncrement \<Rightarrow> final_id u = l + 1)"

text \<open>How the first update must meet the snapshot.\<close>

definition meets_snapshot :: "sequence_policy \<Rightarrow> sequence_id \<Rightarrow> update_ids \<Rightarrow> bool" where
  "meets_snapshot p sid u =
     (case p of BinanceSpot \<Rightarrow> first_id u \<le> sid + 1 \<and> sid + 1 \<le> final_id u
      | BinanceFutures \<Rightarrow> first_id u \<le> sid \<and> sid \<le> final_id u
      | StrictIncrement \<Rightarrow> final_id u = sid + 1)"

fun chained :: "sequence_policy \<Rightarrow> sequence_id \<Rightarrow> update_ids list \<Rightarrow> bool" where
  "chained p l [] \<longleftrightarrow> True"
| "chained p l (u # us) \<longleftrightarrow> linked p l u \<and> chained p (final_id u) us"

fun from_snapshot :: "sequence_policy \<Rightarrow> sequence_id \<Rightarrow> update_ids list \<Rightarrow> bool" where
  "from_snapshot p sid [] \<longleftrightarrow> True"
| "from_snapshot p sid (u # us) \<longleftrightarrow> meets_snapshot p sid u \<and> chained p (final_id u) us"

lemma policy_other: "p \<noteq> StrictIncrement \<Longrightarrow> p \<noteq> BinanceSpot \<Longrightarrow> p = BinanceFutures"
  by (cases p) simp_all

lemma on_update_straddled:
  assumes "tr_have_snapshot t" "tr_straddled t"
  shows "on_update u t =
     (if linked (tr_policy t) (tr_last_final_id t) u then accept_update u t
      else if final_id u \<le> tr_last_final_id t then discard_stale t else detect_gap t)"
  using assms
  by (cases t; cases "tr_policy t") (auto simp: on_update_def linked_def)

lemma on_update_first:
  assumes "tr_have_snapshot t" "\<not> tr_straddled t"
  shows "on_update u t =
     (if meets_snapshot (tr_policy t) (tr_snapshot_id t) u \<and>
         \<not> (tr_policy t = StrictIncrement \<and> final_id u \<le> tr_snapshot_id t)
      then accept_update u (t\<lparr>tr_straddled := True\<rparr>)
      else if (case tr_policy t of BinanceSpot \<Rightarrow> final_id u < tr_snapshot_id t + 1
               | BinanceFutures \<Rightarrow> final_id u < tr_snapshot_id t
               | StrictIncrement \<Rightarrow> final_id u \<le> tr_snapshot_id t)
      then discard_stale t else detect_gap t)"
  using assms
  by (cases "tr_policy t") (auto simp: on_update_def meets_snapshot_def not_less Let_def)

lemma chained_after_first:
  "tr_have_snapshot t \<Longrightarrow> tr_straddled t \<Longrightarrow> chained (tr_policy t) (tr_last_final_id t) (applied_of us t)"
proof (induction us arbitrary: t)
  case (Cons u us)
  consider "linked (tr_policy t) (tr_last_final_id t) u"
    | "\<not> linked (tr_policy t) (tr_last_final_id t) u" "final_id u \<le> tr_last_final_id t"
    | "\<not> linked (tr_policy t) (tr_last_final_id t) u" "\<not> final_id u \<le> tr_last_final_id t"
    by blast
  then show ?case
  proof cases
    case 1
    then show ?thesis
      using Cons.IH [of "snd (accept_update u t)"] Cons.prems
      by (simp add: on_update_straddled)
  next
    case 2
    then show ?thesis
      using Cons.IH [of "snd (discard_stale t)"] Cons.prems by (simp add: on_update_straddled)
  next
    case 3
    then show ?thesis
      using Cons.prems unsynced_run [of "snd (detect_gap t)" us] by (simp add: on_update_straddled)
  qed
qed simp

lemma applied_chain:
  assumes "tr_have_snapshot t" "\<not> tr_straddled t"
  shows "from_snapshot (tr_policy t) (tr_snapshot_id t) (applied_of us t)"
  using assms
proof (induction us arbitrary: t)
  case (Cons u us)
  show ?case
  proof (cases "fst (on_update u t)")
    case Apply
    then have m: "meets_snapshot (tr_policy t) (tr_snapshot_id t) u"
      "on_update u t = accept_update u (t\<lparr>tr_straddled := True\<rparr>)"
      using Cons.prems by (auto simp: on_update_first split: if_splits)
    then show ?thesis
      using Cons.prems chained_after_first [of "snd (accept_update u (t\<lparr>tr_straddled := True\<rparr>))" us]
      by simp
  next
    case DiscardStale
    then have "on_update u t = discard_stale t"
      using Cons.prems by (auto simp: on_update_first split: if_splits)
    then show ?thesis using Cons.IH [of "snd (discard_stale t)"] Cons.prems by simp
  next
    case ResyncRequired
    then have "on_update u t = detect_gap t"
      using Cons.prems by (auto simp: on_update_first split: if_splits)
    then show ?thesis using unsynced_run [of "snd (detect_gap t)" us] by simp
  qed
qed simp

lemma on_snapshot_simps [simp]:
  "tr_have_snapshot (on_snapshot sid t)" "\<not> tr_straddled (on_snapshot sid t)"
  "tr_policy (on_snapshot sid t) = tr_policy t" "tr_snapshot_id (on_snapshot sid t) = sid"
  by (simp_all add: on_snapshot_def)

lemma applied_updates_chain:
  "from_snapshot (tr_policy t) sid (applied_of us (on_snapshot sid t))"
  using applied_chain [of "on_snapshot sid t" us] by simp

text \<open>
  C23: No gap is ever bridged.  After a snapshot, whatever updates arrive, the ones the tracker lets
  through are a chain under the venue's contract: the first meets the snapshot (spot one past it,
  futures at it, strict exactly one past it) and each later one continues its predecessor
  (\<open>U = u + 1\<close>, \<open>pu = u\<close>, or an increment of one).
\<close>

theorem applied_updates_are_continuous:
  "from_snapshot (tr_policy t) sid (applied_of us (on_snapshot sid t))"
  by (rule applied_updates_chain)

subsection \<open>Every update exactly once\<close>

definition covers :: "sequence_id \<Rightarrow> update_ids \<Rightarrow> bool" where
  "covers k u \<longleftrightarrow> first_id u \<le> k \<and> k \<le> final_id u"

text \<open>Identifiers below the last 64-bit value, so that the successor does not wrap.\<close>

definition ids_ok :: "update_ids \<Rightarrow> bool" where
  "ids_ok u \<longleftrightarrow> first_id u \<le> final_id u \<and> unat (final_id u) < 18446744073709551615"

lemma unat_succ: "unat (l :: u64) < 18446744073709551615 \<Longrightarrow> unat (l + 1) = unat l + 1"
  by (subst unat_plus_simple [THEN iffD1]) (simp_all add: no_olen_add_nat)

lemma covers_chain:
  assumes "chained BinanceSpot l us" "\<forall>u \<in> set us. ids_ok u" "unat l < 18446744073709551615"
  shows "length (filter (covers k) us) =
       (if us \<noteq> [] \<and> l < k \<and> k \<le> final_id (last us) then 1 else 0) \<and>
     (us \<noteq> [] \<longrightarrow> l < final_id (last us))"
  using assms
proof (induction us arbitrary: l)
  case (Cons u us)
  have f: "first_id u = l + 1" and c: "chained BinanceSpot (final_id u) us" and ok: "ids_ok u"
    using Cons.prems by (auto simp: linked_def)
  have b: "unat (first_id u) \<le> unat (final_id u)" "unat (final_id u) < 18446744073709551615"
    using ok by (auto simp: ids_ok_def word_le_nat_alt)
  have s: "unat (first_id u) = unat l + 1" using f unat_succ [OF Cons.prems(3)] by simp
  note ih = Cons.IH [OF c _ b(2)]
  then show ?case
    using Cons.prems(2) b s
    by (cases "us = []") (auto simp: covers_def word_le_nat_alt word_less_nat_alt)
qed simp

lemma applied_subset: "set (applied_of us t) \<subseteq> set us"
  by (induction us arbitrary: t) auto

text \<open>
  C22: Every update exactly once.  On a spot stream, for identifiers that are ordered and below the last
  64-bit value, each sequence number above the snapshot and up to the last applied one is carried by
  exactly one applied update, and none above it by any: nothing is dropped and nothing is applied
  twice, in whatever order and multiplicity the updates were delivered.
\<close>

theorem spot_updates_exactly_once:
  assumes "tr_policy t = BinanceSpot" "\<forall>u \<in> set us. ids_ok u"
    and "unat sid < 18446744073709551615" "sid < k"
    and "applied_of us (on_snapshot sid t) \<noteq> []"
  shows "length (filter (covers k) (applied_of us (on_snapshot sid t))) =
     (if k \<le> final_id (last (applied_of us (on_snapshot sid t))) then 1 else 0)"
proof -
  obtain u rest where a: "applied_of us (on_snapshot sid t) = u # rest"
    using assms(5) by (cases "applied_of us (on_snapshot sid t)") auto
  have m: "first_id u \<le> sid + 1" "sid + 1 \<le> final_id u" and c: "chained BinanceSpot (final_id u) rest"
    using applied_updates_chain [of t sid us] a assms(1) by (auto simp: meets_snapshot_def)
  have ok: "\<forall>u \<in> set (u # rest). ids_ok u"
    using assms(2) applied_subset [of us "on_snapshot sid t"] a by auto
  then have b: "unat (final_id u) < 18446744073709551615" by (simp add: ids_ok_def)
  have r: "\<forall>u \<in> set rest. ids_ok u" using ok by simp
  have s: "unat (first_id u) \<le> unat sid + 1" "unat sid + 1 \<le> unat (final_id u)" "unat sid < unat k"
    using m assms(4) unat_succ [OF assms(3)] by (simp_all add: word_le_nat_alt word_less_nat_alt)
  show ?thesis
    using covers_chain [OF c r b, of k] s unfolding a
    by (cases "rest = []") (auto simp: covers_def word_le_nat_alt word_less_nat_alt)
qed

lemma spot_updates_exactly_once_witness:
  "length (filter (covers 13) (applied_of
       [\<lparr>first_id = 8, final_id = 12, prev_id = 0\<rparr>, \<lparr>first_id = 8, final_id = 12, prev_id = 0\<rparr>,
        \<lparr>first_id = 13, final_id = 15, prev_id = 0\<rparr>] (on_snapshot 10 (tracker_new BinanceSpot)))) = 1"
proof -
  let ?us = "[\<lparr>first_id = 8, final_id = 12, prev_id = 0\<rparr>, \<lparr>first_id = 8, final_id = 12, prev_id = 0\<rparr>,
        \<lparr>first_id = 13, final_id = 15, prev_id = 0\<rparr>]"
  have a: "applied_of ?us (on_snapshot 10 (tracker_new BinanceSpot)) =
      [\<lparr>first_id = 8, final_id = 12, prev_id = 0\<rparr>, \<lparr>first_id = 13, final_id = 15, prev_id = 0\<rparr>]"
    by code_simp
  have "\<forall>u \<in> set ?us. ids_ok u" by (simp add: ids_ok_def)
  then show ?thesis
    using spot_updates_exactly_once [of "tracker_new BinanceSpot" ?us 10 13] unfolding a
    by (simp add: tracker_new_def)
qed

section \<open>The resync latch\<close>

lemma resync_unsyncs: "fst (on_update u t) = ResyncRequired \<Longrightarrow> \<not> tr_have_snapshot (snd (on_update u t))"
  by (cases "tr_have_snapshot t"; cases "tr_straddled t")
    (auto simp: on_update_straddled on_update_first split: if_splits)

text \<open>
  A gap latches.  Once an update is answered with \<open>ResyncRequired\<close>, every later update of the
  stream gets the same answer and none is applied, until a new snapshot arrives; an invalidated
  tracker behaves the same from the start.
\<close>

theorem resync_latches:
  assumes "fst (on_update u t) = ResyncRequired"
  shows "set (actions us (snd (on_update u t))) \<subseteq> {ResyncRequired} \<and>
     applied_of us (snd (on_update u t)) = [] \<and>
     applied_of us (invalidate t) = [] \<and> \<not> synced (snd (feed_updates us (snd (on_update u t))))"
proof -
  have ns: "\<not> tr_have_snapshot (snd (on_update u t))" using resync_unsyncs [OF assms] .
  then show ?thesis
    using unsynced_run [OF ns, of us] unsynced_run [of "invalidate t" us] ns
    by (simp add: invalidate_def synced_def)
qed

lemma resync_latches_witness:
  "fst (on_update \<lparr>first_id = 20, final_id = 21, prev_id = 0\<rparr> (on_snapshot 10 (tracker_new BinanceSpot))) =
     ResyncRequired \<and>
   applied_of [\<lparr>first_id = 11, final_id = 12, prev_id = 0\<rparr>]
     (snd (on_update \<lparr>first_id = 20, final_id = 21, prev_id = 0\<rparr>
        (on_snapshot 10 (tracker_new BinanceSpot)))) = []"
proof -
  have "fst (on_update \<lparr>first_id = 20, final_id = 21, prev_id = 0\<rparr>
      (on_snapshot 10 (tracker_new BinanceSpot))) = ResyncRequired" by code_simp
  from resync_latches [OF this] this show ?thesis by blast
qed

section \<open>No false alarm\<close>

text \<open>The identifier the first applied update must straddle.\<close>

definition anchor_of :: "sequence_policy \<Rightarrow> sequence_id \<Rightarrow> sequence_id" where
  "anchor_of p sid = (if p = BinanceSpot then sid + 1 else sid)"

text \<open>A stream as the exchange sends it: every event starts one past its predecessor and names it.\<close>

fun gapless :: "update_ids list \<Rightarrow> bool" where
  "gapless [] \<longleftrightarrow> True"
| "gapless [u] \<longleftrightarrow> True"
| "gapless (u # v # us) \<longleftrightarrow>
     first_id v = final_id u + 1 \<and> prev_id v = final_id u \<and> gapless (v # us)"

lemma gapless_linked: "p \<noteq> StrictIncrement \<Longrightarrow> gapless (u # us) \<Longrightarrow> chained p (final_id u) us"
proof (induction us arbitrary: u)
  case (Cons v us)
  then show ?case by (cases p) (auto simp: linked_def)
qed simp

lemma chained_applied:
  "tr_have_snapshot t \<Longrightarrow> tr_straddled t \<Longrightarrow> chained (tr_policy t) (tr_last_final_id t) us \<Longrightarrow>
     applied_of us t = us \<and> ResyncRequired \<notin> set (actions us t)"
proof (induction us arbitrary: t)
  case (Cons u us)
  have "on_update u t = accept_update u t"
    using Cons.prems by (simp add: on_update_straddled)
  then show ?case using Cons.IH [of "snd (accept_update u t)"] Cons.prems by simp
qed simp

lemma first_meets:
  assumes "p \<noteq> StrictIncrement"
  shows "meets_snapshot p sid u \<longleftrightarrow> first_id u \<le> anchor_of p sid \<and> anchor_of p sid \<le> final_id u"
  using assms by (cases p) (auto simp: meets_snapshot_def anchor_of_def)

lemma on_update_stale_or_first:
  assumes "tr_have_snapshot t" "\<not> tr_straddled t" "tr_policy t \<noteq> StrictIncrement"
    "first_id u \<le> anchor_of (tr_policy t) (tr_snapshot_id t)"
  shows "on_update u t =
     (if final_id u < anchor_of (tr_policy t) (tr_snapshot_id t) then discard_stale t
      else accept_update u (t\<lparr>tr_straddled := True\<rparr>))"
  using assms by (cases "tr_policy t") (auto simp: on_update_def anchor_of_def Let_def not_less)

lemma gapless_run:
  assumes "tr_have_snapshot t" "\<not> tr_straddled t" "tr_policy t \<noteq> StrictIncrement"
    and "gapless us" "\<forall>u \<in> set us. ids_ok u"
    and "us \<noteq> [] \<longrightarrow> first_id (hd us) \<le> anchor_of (tr_policy t) (tr_snapshot_id t)"
  shows "applied_of us t = dropWhile (\<lambda>u. final_id u < anchor_of (tr_policy t) (tr_snapshot_id t)) us \<and>
     ResyncRequired \<notin> set (actions us t)"
  using assms
proof (induction us arbitrary: t)
  case (Cons u us)
  let ?a = "anchor_of (tr_policy t) (tr_snapshot_id t)"
  have up: "on_update u t = (if final_id u < ?a then discard_stale t
      else accept_update u (t\<lparr>tr_straddled := True\<rparr>))"
    using Cons.prems by (intro on_update_stale_or_first) simp_all
  show ?case
  proof (cases "final_id u < ?a")
    case True
    have "gapless us" using Cons.prems(4) by (cases us) simp_all
    moreover have "us \<noteq> [] \<longrightarrow> first_id (hd us) \<le> ?a"
    proof
      assume "us \<noteq> []"
      then have "first_id (hd us) = final_id u + 1" using Cons.prems(4) by (cases us) simp_all
      then show "first_id (hd us) \<le> ?a" using True by (simp add: inc_le)
    qed
    ultimately show ?thesis
      using Cons.IH [of "snd (discard_stale t)"] Cons.prems True up by simp
  next
    case False
    then show ?thesis
      using up Cons.prems gapless_linked [OF Cons.prems(3,4)]
        chained_applied [of "snd (accept_update u (t\<lparr>tr_straddled := True\<rparr>))" us] by simp
  qed
qed simp

text \<open>
  C24: No false alarm.  A gap-free spot or futures stream whose first event starts at or before the
  anchor of the snapshot is never answered with a resync: the events the snapshot already covers
  are discarded and all the others are applied, so the reconciliation converges in one pass.
\<close>

theorem gapless_stream_converges:
  assumes "tr_policy t \<noteq> StrictIncrement" "gapless us" "\<forall>u \<in> set us. ids_ok u"
    and "us \<noteq> [] \<longrightarrow> first_id (hd us) \<le> anchor_of (tr_policy t) sid"
  shows "applied_of us (on_snapshot sid t) =
       dropWhile (\<lambda>u. final_id u < anchor_of (tr_policy t) sid) us \<and>
     ResyncRequired \<notin> set (actions us (on_snapshot sid t))"
  using gapless_run [of "on_snapshot sid t" us] assms by simp

lemma gapless_stream_converges_witness:
  "applied_of [\<lparr>first_id = 9, final_id = 10, prev_id = 8\<rparr>, \<lparr>first_id = 11, final_id = 12, prev_id = 10\<rparr>]
     (on_snapshot 10 (tracker_new BinanceSpot)) = [\<lparr>first_id = 11, final_id = 12, prev_id = 10\<rparr>]"
proof -
  let ?us = "[\<lparr>first_id = 9, final_id = 10, prev_id = 8\<rparr>, \<lparr>first_id = 11, final_id = 12, prev_id = 10\<rparr>]"
  have "gapless ?us" "\<forall>u \<in> set ?us. ids_ok u" by (simp_all add: ids_ok_def)
  then show ?thesis
    using gapless_stream_converges [of "tracker_new BinanceSpot" ?us 10]
    by (simp add: tracker_new_def anchor_of_def del: applied_of_simps)
qed

section \<open>Accounting\<close>

definition count_action :: "sequence_action \<Rightarrow> sequence_action list \<Rightarrow> u64" where
  "count_action a acts = of_nat (count_list acts a)"

lemma on_update_verdict:
  assumes "tr_have_snapshot t"
  obtains (accepted) t' where "on_update u t = accept_update u t'" "tr_stats t' = tr_stats t" "tr_have_snapshot t'"
    | (stale) "on_update u t = discard_stale t" | (gap) "on_update u t = detect_gap t"
proof (cases "tr_straddled t")
  case True
  then have e: "on_update u t = accept_update u t \<or> on_update u t = discard_stale t \<or> on_update u t = detect_gap t"
    using assms by (simp add: on_update_straddled)
  then show thesis using accepted [of t] stale gap assms by blast
next
  case False
  let ?t = "t\<lparr>tr_straddled := True\<rparr>"
  from False have "on_update u t = accept_update u ?t \<or> on_update u t = discard_stale t \<or> on_update u t = detect_gap t"
    using assms by (simp add: on_update_first)
  moreover have "tr_stats ?t = tr_stats t" "tr_have_snapshot ?t" using assms by simp_all
  ultimately show thesis using accepted [of ?t] stale gap by blast
qed

lemma verdict_stats [simp]:
  "st_applied (tr_stats (snd (accept_update u t))) = st_applied (tr_stats t) + 1"
  "st_discarded_stale (tr_stats (snd (accept_update u t))) = st_discarded_stale (tr_stats t)"
  "st_gaps_detected (tr_stats (snd (accept_update u t))) = st_gaps_detected (tr_stats t)"
  "st_snapshots_applied (tr_stats (snd (accept_update u t))) = st_snapshots_applied (tr_stats t)"
  "st_applied (tr_stats (snd (discard_stale t))) = st_applied (tr_stats t)"
  "st_discarded_stale (tr_stats (snd (discard_stale t))) = st_discarded_stale (tr_stats t) + 1"
  "st_gaps_detected (tr_stats (snd (discard_stale t))) = st_gaps_detected (tr_stats t)"
  "st_snapshots_applied (tr_stats (snd (discard_stale t))) = st_snapshots_applied (tr_stats t)"
  "st_applied (tr_stats (snd (detect_gap t))) = st_applied (tr_stats t)"
  "st_discarded_stale (tr_stats (snd (detect_gap t))) = st_discarded_stale (tr_stats t)"
  "st_gaps_detected (tr_stats (snd (detect_gap t))) = st_gaps_detected (tr_stats t) + 1"
  "st_snapshots_applied (tr_stats (snd (detect_gap t))) = st_snapshots_applied (tr_stats t)"
  by (simp_all add: accept_update_def discard_stale_def detect_gap_def)

lemma count_action_Cons [simp]:
  "count_action a [] = 0" "count_action a (b # acts) = count_action a acts + (if a = b then 1 else 0)"
  by (auto simp: count_action_def)

lemma final_mono: "tr_have_snapshot (snd (feed_updates us t)) \<Longrightarrow> tr_have_snapshot t"
  by (cases "tr_have_snapshot t") simp_all

lemma stats_run:
  "st_applied (tr_stats (snd (feed_updates us t))) =
     st_applied (tr_stats t) + count_action Apply (actions us t) \<and>
   st_discarded_stale (tr_stats (snd (feed_updates us t))) =
     st_discarded_stale (tr_stats t) + count_action DiscardStale (actions us t) \<and>
   st_gaps_detected (tr_stats (snd (feed_updates us t))) = st_gaps_detected (tr_stats t) +
     (if tr_have_snapshot t \<and> \<not> tr_have_snapshot (snd (feed_updates us t)) then 1 else 0) \<and>
   st_snapshots_applied (tr_stats (snd (feed_updates us t))) = st_snapshots_applied (tr_stats t)"
proof (induction us arbitrary: t)
  case (Cons u us)
  note ih = Cons.IH [of "snd (on_update u t)"]
  show ?case
  proof (cases "tr_have_snapshot t")
    case False
    then show ?thesis using Cons.IH [of t] by simp
  next
    case True
    then show ?thesis
    proof (cases rule: on_update_verdict [where u = u])
      case (accepted t')
      then show ?thesis using ih True by simp
    next
      case stale
      then show ?thesis using ih True by simp
    next
      case gap
      then show ?thesis using ih True by simp
    qed
  qed
qed simp

text \<open>
  The counters count.  Over any run of updates the applied and stale counters advance (modulo
  \<open>2^64\<close>) by the numbers of those verdicts, the gap counter by one exactly when the run loses
  synchronisation, and the snapshot counter not at all.
\<close>

theorem stats_count_verdicts:
  "let t' = snd (feed_updates us t) in
     st_applied (tr_stats t') = st_applied (tr_stats t) + count_action Apply (actions us t) \<and>
     st_discarded_stale (tr_stats t') =
       st_discarded_stale (tr_stats t) + count_action DiscardStale (actions us t) \<and>
     st_gaps_detected (tr_stats t') =
       st_gaps_detected (tr_stats t) + (if synced t \<and> \<not> synced t' then 1 else 0) \<and>
     st_snapshots_applied (tr_stats t') = st_snapshots_applied (tr_stats t)"
  using stats_run [of us t] by (simp add: Let_def synced_def)

end
