(* ===== verification/Venue.thy ===== *)
theory Venue
  imports Sequence
begin

text \<open>
  \<open>include/crossbook/venue.hpp\<close> and \<open>include/crossbook/divergence.hpp\<close>: the normalised message
  every decoder produces, and the bounded log of disagreements.
\<close>

section \<open>Decoded messages\<close>

datatype message_kind = KindIgnored | KindSnapshot | KindUpdate | KindVenueError

datatype decode_error =
  DecodeOk | DecodeMalformed | DecodePrecisionLoss | DecodeBadSequence | DecodeTooManyLevels
  | DecodeNonCanonical | DecodeBadChecksum | DecodeBadTimestamp

definition decode_error_string :: "decode_error \<Rightarrow> string" where
  "decode_error_string e =
     (case e of DecodeOk \<Rightarrow> ''ok'' | DecodeMalformed \<Rightarrow> ''malformed''
      | DecodePrecisionLoss \<Rightarrow> ''precision_loss'' | DecodeBadSequence \<Rightarrow> ''bad_sequence''
      | DecodeTooManyLevels \<Rightarrow> ''too_many_levels'' | DecodeNonCanonical \<Rightarrow> ''non_canonical''
      | DecodeBadChecksum \<Rightarrow> ''bad_checksum'' | DecodeBadTimestamp \<Rightarrow> ''bad_timestamp'')"

record level_update =
  lu_side :: side
  lu_price :: price
  lu_qty :: qty

definition level_update :: "side \<Rightarrow> price \<Rightarrow> qty \<Rightarrow> level_update" where
  "level_update s p q = \<lparr>lu_side = s, lu_price = p, lu_qty = q\<rparr>"

record decoded_message =
  dm_kind :: message_kind
  dm_error :: decode_error
  dm_symbol :: string
  dm_ts :: timestamp
  dm_ids :: update_ids
  dm_has_ids :: bool
  dm_checksum :: u32
  dm_has_checksum :: bool
  dm_levels :: "level_update list"
  dm_bad_token :: string

definition decoded_message_reset :: decoded_message where
  "decoded_message_reset =
     \<lparr>dm_kind = KindIgnored, dm_error = DecodeOk, dm_symbol = [], dm_ts = 0,
      dm_ids = \<lparr>first_id = 0, final_id = 0, prev_id = 0\<rparr>, dm_has_ids = False,
      dm_checksum = 0, dm_has_checksum = False, dm_levels = [], dm_bad_token = []\<rparr>"

definition dm_ok :: "decoded_message \<Rightarrow> bool" where
  "dm_ok m \<longleftrightarrow> dm_error m = DecodeOk"

definition kMaxLevelsPerMessage :: nat where "kMaxLevelsPerMessage = 10000"

section \<open>The divergence log\<close>

datatype divergence_kind =
  ChecksumMismatch | SequenceGap | PrecisionLoss | MalformedMessage | StaleFeed | VenueError

definition divergence_kind_index :: "divergence_kind \<Rightarrow> nat" where
  "divergence_kind_index k =
     (case k of ChecksumMismatch \<Rightarrow> 0 | SequenceGap \<Rightarrow> 1 | PrecisionLoss \<Rightarrow> 2
      | MalformedMessage \<Rightarrow> 3 | StaleFeed \<Rightarrow> 4 | VenueError \<Rightarrow> 5)"

definition kDivergenceKindCount :: nat where "kDivergenceKindCount = 6"

definition divergence_kind_string :: "divergence_kind \<Rightarrow> string" where
  "divergence_kind_string k =
     (case k of ChecksumMismatch \<Rightarrow> ''checksum_mismatch'' | SequenceGap \<Rightarrow> ''sequence_gap''
      | PrecisionLoss \<Rightarrow> ''precision_loss'' | MalformedMessage \<Rightarrow> ''malformed_message''
      | StaleFeed \<Rightarrow> ''stale_feed'' | VenueError \<Rightarrow> ''venue_error'')"

record divergence =
  dv_kind :: divergence_kind
  dv_venue :: string
  dv_symbol :: string
  dv_ts :: timestamp
  dv_sequence :: sequence_id
  dv_expected :: u64
  dv_actual :: u64
  dv_detail :: string

definition divergence ::
    "divergence_kind \<Rightarrow> string \<Rightarrow> string \<Rightarrow> timestamp \<Rightarrow> sequence_id \<Rightarrow> u64 \<Rightarrow> u64 \<Rightarrow> string \<Rightarrow> divergence"
where
  "divergence k v s ts q e a d =
     \<lparr>dv_kind = k, dv_venue = v, dv_symbol = s, dv_ts = ts, dv_sequence = q, dv_expected = e,
      dv_actual = a, dv_detail = d\<rparr>"

record divergence_log =
  dl_capacity :: nat
  dl_entries :: "divergence list"
  dl_counts :: "u64 list"
  dl_verified :: u64
  dl_total_recorded :: u64
  dl_dropped :: u64

definition kDefaultLogCapacity :: nat where "kDefaultLogCapacity = 4096"

definition divergence_log_new :: "nat \<Rightarrow> divergence_log" where
  "divergence_log_new capacity =
     \<lparr>dl_capacity = capacity, dl_entries = [], dl_counts = replicate kDivergenceKindCount 0,
      dl_verified = 0, dl_total_recorded = 0, dl_dropped = 0\<rparr>"

definition log_record :: "divergence \<Rightarrow> divergence_log \<Rightarrow> divergence_log" where
  "log_record d l =
     (let i = divergence_kind_index (dv_kind d);
          l1 = l\<lparr>dl_counts := (dl_counts l)[i := dl_counts l ! i + 1],
                 dl_total_recorded := dl_total_recorded l + 1\<rparr>
      in if length (dl_entries l1) < dl_capacity l1 then l1\<lparr>dl_entries := dl_entries l1 @ [d]\<rparr>
         else l1\<lparr>dl_dropped := dl_dropped l1 + 1\<rparr>)"

definition log_record_verified :: "divergence_log \<Rightarrow> divergence_log" where
  "log_record_verified l = l\<lparr>dl_verified := dl_verified l + 1\<rparr>"

definition log_count :: "divergence_kind \<Rightarrow> divergence_log \<Rightarrow> u64" where
  "log_count k l = dl_counts l ! divergence_kind_index k"

definition log_clear :: "divergence_log \<Rightarrow> divergence_log" where
  "log_clear l =
     l\<lparr>dl_entries := [], dl_counts := replicate kDivergenceKindCount 0, dl_verified := 0,
       dl_total_recorded := 0, dl_dropped := 0\<rparr>"

text \<open>
  The match rate as the pair of integers whose quotient the code takes in floating point;
  \<open>None\<close> stands for the value 1.0 of an empty denominator.
\<close>

definition match_rate :: "divergence_log \<Rightarrow> (u64 \<times> u64) option" where
  "match_rate l =
     (let total = dl_verified l + log_count ChecksumMismatch l
      in if total = 0 then None else Some (dl_verified l, total))"

lemma kind_index_bound: "divergence_kind_index k < kDivergenceKindCount"
  by (cases k) (simp_all add: divergence_kind_index_def kDivergenceKindCount_def)

lemma kind_index_inj: "divergence_kind_index j = divergence_kind_index k \<longleftrightarrow> j = k"
  by (cases j; cases k) (simp_all add: divergence_kind_index_def)

text \<open>What the log holds after a sequence of records.\<close>

lemma log_records:
  assumes "length (dl_entries l) \<le> dl_capacity l" "length (dl_counts l) = kDivergenceKindCount"
  shows "dl_entries (fold log_record ds l) = take (dl_capacity l) (dl_entries l @ ds) \<and>
     dl_capacity (fold log_record ds l) = dl_capacity l \<and>
     dl_total_recorded (fold log_record ds l) = dl_total_recorded l + of_nat (length ds) \<and>
     dl_dropped (fold log_record ds l) =
       dl_dropped l + of_nat (length (dl_entries l) + length ds - dl_capacity l) \<and>
     dl_verified (fold log_record ds l) = dl_verified l \<and>
     (\<forall>k. log_count k (fold log_record ds l) =
        log_count k l + of_nat (length (filter (\<lambda>d. dv_kind d = k) ds)))"
  using assms
proof (induction ds arbitrary: l)
  case (Cons d ds)
  let ?l = "log_record d l"
  have inv: "length (dl_entries ?l) \<le> dl_capacity ?l" "length (dl_counts ?l) = kDivergenceKindCount"
    using Cons.prems by (auto simp: log_record_def Let_def)
  have cap: "dl_capacity ?l = dl_capacity l" "dl_verified ?l = dl_verified l"
    "dl_total_recorded ?l = dl_total_recorded l + 1"
    by (simp_all add: log_record_def Let_def)
  have cnt: "log_count k ?l = log_count k l + (if dv_kind d = k then 1 else 0)" for k
    using Cons.prems(2) kind_index_bound [of "dv_kind d"] kind_index_inj [of "dv_kind d" k]
    by (auto simp: log_record_def Let_def log_count_def nth_list_update)
  show ?case
  proof (cases "length (dl_entries l) < dl_capacity l")
    case True
    then have e: "dl_entries ?l = dl_entries l @ [d]" "dl_dropped ?l = dl_dropped l"
      by (simp_all add: log_record_def Let_def)
    show ?thesis using Cons.IH [OF inv] by (simp add: cap cnt e algebra_simps)
  next
    case False
    then have e: "dl_entries ?l = dl_entries l" "dl_dropped ?l = dl_dropped l + 1"
      by (simp_all add: log_record_def Let_def)
    have full: "length (dl_entries l) = dl_capacity l" using False Cons.prems(1) by simp
    show ?thesis using Cons.IH [OF inv] full by (simp add: cap cnt e algebra_simps)
  qed
qed simp

text \<open>
  The log is bounded and its counters are exact.  After any sequence of records the first
  \<open>capacity\<close> divergences are kept in order, the rest are counted as dropped, the total and the
  counter of each kind count every record (modulo \<open>2^64\<close>), and recording never touches the count
  of verified updates.
\<close>

theorem log_is_bounded:
  "let l = fold log_record ds (divergence_log_new capacity) in
     dl_entries l = take capacity ds \<and> length (dl_entries l) \<le> capacity \<and>
     dl_dropped l = of_nat (length ds - capacity) \<and> dl_total_recorded l = of_nat (length ds) \<and>
     dl_verified l = 0 \<and>
     (\<forall>k. log_count k l = of_nat (length (filter (\<lambda>d. dv_kind d = k) ds)))"
proof -
  have z: "log_count k (divergence_log_new capacity) = 0" for k
    using kind_index_bound [of k] by (simp add: log_count_def divergence_log_new_def)
  show ?thesis
    using log_records [of "divergence_log_new capacity" ds]
    by (simp add: Let_def z) (simp add: divergence_log_new_def)
qed

end
