(* ===== verification/Crc.thy ===== *)
theory Crc
  imports Prelude
begin

text \<open>
  The CRC32 of \<open>include/crossbook/checksum.hpp\<close>: the tables as the constructor builds them, the
  slice-by-8 update with its bytewise tail, and the proof that both compute the bit-serial CRC of
  the IEEE polynomial (reflected, \<open>0xEDB88320\<close>).  The slice-by-8 body is the little-endian branch.
\<close>

unbundle bit_operations_syntax

section \<open>Tables\<close>

definition kCrcPolynomial :: u32 where "kCrcPolynomial = 0xEDB88320"

text \<open>One turn of the inner loop of the table constructor.\<close>

definition crc_bit :: "u32 \<Rightarrow> u32" where
  "crc_bit c = (if c AND 1 \<noteq> 0 then kCrcPolynomial XOR drop_bit 1 c else drop_bit 1 c)"

definition crc_table0 :: "u32 list" where
  "crc_table0 = map (\<lambda>i. (crc_bit ^^ 8) (word_of_nat i)) [0..<256]"

definition crc_next_table :: "u32 list \<Rightarrow> u32 list" where
  "crc_next_table prev_table =
     map (\<lambda>prev. drop_bit 8 prev XOR crc_table0 ! unat (prev AND 0xFF)) prev_table"

definition kCrc32Table :: "u32 list list" where
  "kCrc32Table = map (\<lambda>t. (crc_next_table ^^ t) crc_table0) [0..<8]"

definition crc_entry :: "nat \<Rightarrow> u32 \<Rightarrow> u32" where
  "crc_entry t i = kCrc32Table ! t ! unat i"

section \<open>The streaming state\<close>

text \<open>A little-endian load of four bytes.\<close>

definition load_le32 :: "u8 \<Rightarrow> u8 \<Rightarrow> u8 \<Rightarrow> u8 \<Rightarrow> u32" where
  "load_le32 b0 b1 b2 b3 =
     ucast b0 OR push_bit 8 (ucast b1) OR push_bit 16 (ucast b2) OR push_bit 24 (ucast b3)"

definition crc_slice :: "u32 \<Rightarrow> u32 \<Rightarrow> u32 \<Rightarrow> u32" where
  "crc_slice c lo hi =
     (let one = c XOR lo
      in crc_entry 7 (one AND 0xFF) XOR crc_entry 6 (drop_bit 8 one AND 0xFF) XOR
         crc_entry 5 (drop_bit 16 one AND 0xFF) XOR crc_entry 4 (drop_bit 24 one) XOR
         crc_entry 3 (hi AND 0xFF) XOR crc_entry 2 (drop_bit 8 hi AND 0xFF) XOR
         crc_entry 1 (drop_bit 16 hi AND 0xFF) XOR crc_entry 0 (drop_bit 24 hi))"

fun crc_body :: "u32 \<Rightarrow> u8 list \<Rightarrow> u32 \<times> u8 list" where
  "crc_body c (b0 # b1 # b2 # b3 # b4 # b5 # b6 # b7 # rest) =
     crc_body (crc_slice c (load_le32 b0 b1 b2 b3) (load_le32 b4 b5 b6 b7)) rest"
| "crc_body c data = (c, data)"

definition crc_tail_step :: "u8 \<Rightarrow> u32 \<Rightarrow> u32" where
  "crc_tail_step b c = crc_entry 0 ((c XOR ucast b) AND 0xFF) XOR drop_bit 8 c"

definition kCrcInit :: u32 where "kCrcInit = 0xFFFFFFFF"

definition crc_update :: "u8 list \<Rightarrow> u32 \<Rightarrow> u32" where
  "crc_update data state = (let (c, tail) = crc_body state data in fold crc_tail_step tail c)"

definition crc_value :: "u32 \<Rightarrow> u32" where
  "crc_value state = state XOR 0xFFFFFFFF"

definition bytes_of :: "string \<Rightarrow> u8 list" where
  "bytes_of s = map of_char s"

definition crc32 :: "string \<Rightarrow> u32" where
  "crc32 s = crc_value (crc_update (bytes_of s) kCrcInit)"

section \<open>The bit-serial reference\<close>

text \<open>One message bit, least significant first.\<close>

definition crc_serial :: "bool \<Rightarrow> u32 \<Rightarrow> u32" where
  "crc_serial b c = drop_bit 1 c XOR (if bit c 0 \<noteq> b then kCrcPolynomial else 0)"

definition message_bits :: "u8 list \<Rightarrow> bool list" where
  "message_bits bs = concat (map (\<lambda>b. map (bit b) [0..<8]) bs)"

section \<open>The byte step is linear\<close>

lemma crc_bit_alt: "crc_bit c = drop_bit 1 c XOR (if odd c then kCrcPolynomial else 0)"
  by (simp add: crc_bit_def and_one_eq odd_iff_mod_2_eq_one xor.commute)

lemma crc_bit_xor: "crc_bit (a XOR b) = crc_bit a XOR crc_bit b"
  by (cases "odd a"; cases "odd b")
    (simp_all add: crc_bit_alt even_xor_iff drop_bit_xor xor.assoc xor.left_commute xor.commute)

definition crc_byte :: "u32 \<Rightarrow> u32" where
  "crc_byte = crc_bit ^^ 8"

lemma funpow_xor:
  fixes f :: "u32 \<Rightarrow> u32"
  assumes "\<And>a b. f (a XOR b) = f a XOR f b"
  shows "(f ^^ n) (a XOR b) = (f ^^ n) a XOR (f ^^ n) b"
  using assms by (induction n) simp_all

lemma crc_byte_xor: "crc_byte (a XOR b) = crc_byte a XOR crc_byte b"
  unfolding crc_byte_def by (rule funpow_xor) (rule crc_bit_xor)

lemma crc_bytes_xor: "(crc_byte ^^ n) (a XOR b) = (crc_byte ^^ n) a XOR (crc_byte ^^ n) b"
  by (rule funpow_xor) (rule crc_byte_xor)

lemma crc_bit_even: "even c \<Longrightarrow> crc_bit c = drop_bit 1 c"
  by (simp add: crc_bit_alt)

lemma crc_bits_zero: "take_bit n c = 0 \<Longrightarrow> (crc_bit ^^ n) c = drop_bit n (c :: u32)"
proof (induction n arbitrary: c)
  case (Suc n)
  have z: "\<not> bit c k" if "k < Suc n" for k
    using that Suc.prems by (metis bit_0_eq bit_take_bit_iff bot_apply bot_bool_def)
  have "even c" using z [of 0] by (simp add: bit_0)
  moreover have "take_bit n (drop_bit 1 c) = 0"
    by (rule bit_eqI) (use z in \<open>auto simp: bit_take_bit_iff bit_drop_bit_eq\<close>)
  ultimately show ?case
    using Suc.IH [of "drop_bit 1 c"]
    by (simp add: crc_bit_even funpow_Suc_right drop_bit_drop_bit del: funpow.simps(2))
qed simp

lemma split_low_byte: "(x :: u32) = (x AND 0xFF) XOR push_bit 8 (drop_bit 8 x)"
proof (rule bit_eqI)
  fix k
  have "bit (0xFF :: u32) k \<longleftrightarrow> k < 8"
    using bit_mask_iff [of 8 k, where 'a = u32] by (auto simp: mask_numeral)
  then show "bit x k \<longleftrightarrow> bit ((x AND 0xFF) XOR push_bit 8 (drop_bit 8 x)) k"
    if "possible_bit TYPE(u32) k"
    using that by (auto simp: bit_xor_iff bit_and_iff bit_push_bit_iff bit_drop_bit_eq)
qed

lemma crc_byte_split: "crc_byte x = crc_byte (x AND 0xFF) XOR drop_bit 8 x"
proof -
  have "take_bit 8 (push_bit 8 (drop_bit 8 x)) = 0"
    by (simp add: take_bit_push_bit)
  then have "crc_byte (push_bit 8 (drop_bit 8 x)) = drop_bit 8 (push_bit 8 (drop_bit 8 x))"
    unfolding crc_byte_def by (rule crc_bits_zero)
  also have "\<dots> = drop_bit 8 x"
    by (rule bit_eqI) (auto simp: bit_drop_bit_eq bit_push_bit_iff dest: bit_imp_le_length)
  finally have h: "crc_byte (push_bit 8 (drop_bit 8 x)) = drop_bit 8 x" .
  have "crc_byte x = crc_byte ((x AND 0xFF) XOR push_bit 8 (drop_bit 8 x))"
    using split_low_byte [of x] by (rule arg_cong)
  then show ?thesis by (simp only: crc_byte_xor h)
qed

text \<open>The tables hold the effect of a byte followed by zero bytes.\<close>

lemma unat_low_byte: "unat (x AND (0xFF :: u32)) < 256"
proof -
  have "x AND 0xFF \<le> 0xFF" by (rule word_and_le1)
  then show ?thesis by (simp add: word_le_nat_alt)
qed

lemma crc_table0_nth: "i < 256 \<Longrightarrow> crc_table0 ! i = crc_byte (word_of_nat i)"
  by (simp add: crc_table0_def crc_byte_def)

lemma crc_next_table_map:
  "crc_next_table (map f xs) = map (\<lambda>i. crc_byte (f i)) xs"
proof -
  have "drop_bit 8 p XOR crc_table0 ! unat (p AND 0xFF) = crc_byte p" for p
    using crc_byte_split [of p] unat_low_byte [of p] by (simp add: crc_table0_nth xor.commute)
  then show ?thesis by (simp add: crc_next_table_def)
qed

lemma crc_tables: "(crc_next_table ^^ t) crc_table0 = map (\<lambda>i. (crc_byte ^^ Suc t) (word_of_nat i)) [0..<256]"
proof (induction t)
  case 0
  then show ?case by (simp add: crc_table0_def crc_byte_def)
next
  case (Suc t)
  then show ?case by (simp add: crc_next_table_map)
qed

lemma crc_entry_eq: "t < 8 \<Longrightarrow> unat i < 256 \<Longrightarrow> crc_entry t i = (crc_byte ^^ Suc t) i"
  by (simp add: crc_entry_def kCrc32Table_def crc_tables)

section \<open>Slice by eight\<close>

lemma crc_bytes_peel:
  "(crc_byte ^^ Suc n) x = (crc_byte ^^ Suc n) (x AND 0xFF) XOR (crc_byte ^^ n) (drop_bit 8 x)"
  using crc_byte_split [of x] crc_bytes_xor [of n "crc_byte (x AND 0xFF)" "drop_bit 8 x"]
  by (simp only: funpow_Suc_right o_apply)

lemma unat_high_byte: "unat (drop_bit 24 (x :: u32)) < 256"
proof -
  have "unat x < 2 ^ 32" using unsigned_less [of x] by simp
  then have "unat x div 2 ^ 24 < 2 ^ 8" by (simp add: less_mult_imp_div_less)
  then show ?thesis by (simp add: drop_bit_eq_div unat_div)
qed

text \<open>Four table lookups advance one word by any number of bytes.\<close>

lemma crc_word_lookup:
  assumes "n + 3 < 8"
  shows "crc_entry (n + 3) (x AND 0xFF) XOR crc_entry (n + 2) (drop_bit 8 x AND 0xFF) XOR
     crc_entry (n + 1) (drop_bit 16 x AND 0xFF) XOR crc_entry n (drop_bit 24 x) =
     (crc_byte ^^ (n + 4)) x"
proof -
  have "(crc_byte ^^ (n + 4)) x = (crc_byte ^^ Suc (n + 3)) (x AND 0xFF) XOR
      ((crc_byte ^^ Suc (n + 2)) (drop_bit 8 x AND 0xFF) XOR
       ((crc_byte ^^ Suc (n + 1)) (drop_bit 16 x AND 0xFF) XOR (crc_byte ^^ Suc n) (drop_bit 24 x)))"
    using crc_bytes_peel [of "n + 3" x] crc_bytes_peel [of "n + 2" "drop_bit 8 x"]
      crc_bytes_peel [of "n + 1" "drop_bit 16 x"]
    by (simp add: drop_bit_drop_bit numeral_eq_Suc del: funpow.simps)
  then show ?thesis
    using assms by (simp add: crc_entry_eq unat_low_byte unat_high_byte xor.assoc del: funpow.simps)
qed

lemma crc_slice_eq: "crc_slice c lo hi = (crc_byte ^^ 8) (c XOR lo) XOR (crc_byte ^^ 4) hi"
proof -
  let ?one = "c XOR lo"
  have "crc_slice c lo hi =
     (crc_entry (4 + 3) (?one AND 0xFF) XOR crc_entry (4 + 2) (drop_bit 8 ?one AND 0xFF) XOR
      crc_entry (4 + 1) (drop_bit 16 ?one AND 0xFF) XOR crc_entry 4 (drop_bit 24 ?one)) XOR
     (crc_entry (0 + 3) (hi AND 0xFF) XOR crc_entry (0 + 2) (drop_bit 8 hi AND 0xFF) XOR
      crc_entry (0 + 1) (drop_bit 16 hi AND 0xFF) XOR crc_entry 0 (drop_bit 24 hi))"
    by (simp add: crc_slice_def Let_def xor.assoc numeral_2_eq_2 del: drop_bit_xor)
  then show ?thesis
    using crc_word_lookup [of 4 ?one] crc_word_lookup [of 0 hi] by simp
qed

definition crc_step :: "u8 \<Rightarrow> u32 \<Rightarrow> u32" where
  "crc_step b c = crc_byte (c XOR ucast b)"

lemma drop_byte [simp]: "drop_bit 8 (ucast (b :: u8) :: u32) = 0"
  by (rule bit_eqI) (auto simp: bit_drop_bit_eq bit_ucast_iff dest: bit_imp_le_length)

lemma crc_tail_step_eq: "crc_tail_step b c = crc_step b c"
  using crc_byte_split [of "c XOR ucast b"]
  by (simp add: crc_tail_step_def crc_step_def crc_entry_eq unat_low_byte drop_bit_xor)

lemma load_le32_horner:
  "load_le32 b0 b1 b2 b3 =
     ucast b0 XOR push_bit 8 (ucast b1 XOR push_bit 8 (ucast b2 XOR push_bit 8 (ucast b3)))"
  unfolding load_le32_def
  by (rule bit_eqI)
    (auto simp: bit_xor_iff bit_or_iff bit_push_bit_iff bit_ucast_iff dest: bit_imp_le_length)

lemma crc_byte_shifted:
  "drop_bit 24 y = 0 \<Longrightarrow> crc_byte (a XOR push_bit 8 y) = crc_byte a XOR y"
proof -
  assume z: "drop_bit 24 y = 0"
  have b: "bit y k \<Longrightarrow> k < 24" for k
  proof (rule ccontr)
    assume "bit y k" "\<not> k < 24"
    then have "bit (drop_bit 24 y) (k - 24)" by (simp add: bit_drop_bit_eq)
    then show False using z by simp
  qed
  have "drop_bit 8 (push_bit 8 y) = y"
    by (rule bit_eqI) (auto simp: bit_drop_bit_eq bit_push_bit_iff dest: b bit_imp_le_length)
  moreover have "crc_byte (push_bit 8 y) = drop_bit 8 (push_bit 8 y)"
    unfolding crc_byte_def by (rule crc_bits_zero) (simp add: take_bit_push_bit)
  ultimately show ?thesis by (simp add: crc_byte_xor)
qed

lemma drop_load:
  "drop_bit 24 (ucast (b :: u8) :: u32) = 0"
  "drop_bit 24 (ucast (b :: u8) XOR push_bit 8 (ucast (b' :: u8)) :: u32) = 0"
  "drop_bit 24 (ucast (b :: u8) XOR push_bit 8 (ucast (b' :: u8) XOR push_bit 8 (ucast (b'' :: u8))) :: u32) = 0"
  by (rule bit_eqI; auto simp: bit_drop_bit_eq bit_xor_iff bit_push_bit_iff bit_ucast_iff
      dest: bit_imp_le_length)+

lemma crc_four_steps:
  "fold crc_step [b0, b1, b2, b3] c = (crc_byte ^^ 4) (c XOR load_le32 b0 b1 b2 b3)"
proof -
  have "fold crc_step [b0, b1, b2, b3] c = crc_step b3 (crc_step b2 (crc_step b1 (crc_step b0 c)))"
    by simp
  moreover have "(crc_byte ^^ 4) x = crc_byte (crc_byte (crc_byte (crc_byte x)))" for x
    by (simp add: numeral_eq_Suc)
  ultimately show ?thesis
    by (simp only: crc_step_def load_le32_horner xor.assoc [symmetric] crc_byte_shifted drop_load)
qed

lemma crc_body_correct:
  "(case crc_body c data of (c', tail) \<Rightarrow> fold crc_step tail c') = fold crc_step data c"
proof (induction c data rule: crc_body.induct)
  case (1 c b0 b1 b2 b3 b4 b5 b6 b7 rest)
  have "fold crc_step [b0, b1, b2, b3, b4, b5, b6, b7] c =
      fold crc_step [b4, b5, b6, b7] (fold crc_step [b0, b1, b2, b3] c)" by simp
  also have "\<dots> = (crc_byte ^^ 4) ((crc_byte ^^ 4) (c XOR load_le32 b0 b1 b2 b3) XOR load_le32 b4 b5 b6 b7)"
    by (simp only: crc_four_steps)
  also have "\<dots> = crc_slice c (load_le32 b0 b1 b2 b3) (load_le32 b4 b5 b6 b7)"
    by (simp add: crc_slice_eq crc_bytes_xor funpow_add [symmetric, THEN fun_cong, unfolded o_apply])
  finally show ?case using 1 by (simp del: fold_simps)
qed simp_all

lemma crc_update_eq: "crc_update data c = fold crc_step data c"
proof -
  have "crc_tail_step = crc_step" by (simp add: fun_eq_iff crc_tail_step_eq)
  then show ?thesis using crc_body_correct [of c data] by (simp add: crc_update_def)
qed

section \<open>Against the bit-serial reference\<close>

lemma crc_bit_serial: "crc_bit (c XOR w) = crc_serial (odd w) c XOR drop_bit 1 w"
  by (cases "odd c"; cases "odd w")
    (simp_all add: crc_bit_alt crc_serial_def bit_0 even_xor_iff drop_bit_xor xor.assoc xor.commute xor.left_commute)

lemma crc_serial_fold:
  "(crc_bit ^^ n) (c XOR w) = fold crc_serial (map (bit w) [0..<n]) c XOR drop_bit n w"
proof (induction n arbitrary: c w)
  case (Suc n)
  have "map (bit w) [0..<Suc n] = odd w # map (bit (drop_bit 1 w)) [0..<n]"
    by (simp only: upt_conv_Cons [of 0 "Suc n"] map_Suc_upt [symmetric])
      (simp add: bit_0 bit_drop_bit_eq o_def)
  then show ?case
    using Suc.IH [of "crc_serial (odd w) c" "drop_bit 1 w"]
    by (simp add: funpow_Suc_right crc_bit_serial drop_bit_drop_bit del: funpow.simps(2) upt_Suc)
qed simp

lemma crc_step_serial: "crc_step b c = fold crc_serial (map (bit b) [0..<8]) c"
proof -
  have "map (bit (ucast b :: u32)) [0..<8] = map (bit b) [0..<8]"
    by (simp add: bit_ucast_iff)
  then show ?thesis
    using crc_serial_fold [of 8 c "ucast b"] by (simp only: crc_step_def crc_byte_def drop_byte xor.right_neutral)
qed

lemma crc_update_serial: "crc_update data c = fold crc_serial (message_bits data) c"
  unfolding crc_update_eq message_bits_def
proof (induction data arbitrary: c)
  case (Cons b data)
  then show ?case by (simp only: fold_Cons o_apply crc_step_serial list.map concat.simps fold_append)
qed simp

section \<open>No error pattern within four consecutive bytes is missed\<close>

lemma crc_bit_top: "bit (crc_bit x) 31 = odd x"
proof -
  have "\<not> bit (drop_bit 1 x) 31" by (auto simp: bit_drop_bit_eq dest: bit_imp_le_length)
  moreover have "bit kCrcPolynomial 31" by (simp add: kCrcPolynomial_def)
  ultimately show ?thesis by (simp add: crc_bit_alt bit_xor_iff)
qed

lemma drop_one_inj: "odd a = odd b \<Longrightarrow> drop_bit 1 a = drop_bit 1 (b :: u32) \<Longrightarrow> a = b"
proof (rule bit_eqI)
  fix k
  assume o: "odd a = odd b" and d: "drop_bit 1 a = drop_bit 1 b"
  show "bit a k = bit b k"
  proof (cases k)
    case 0
    with o show ?thesis by (simp add: bit_0)
  next
    case (Suc j)
    have "bit (drop_bit 1 a) j = bit (drop_bit 1 b) j" using d by simp
    with Suc show ?thesis by (simp add: bit_drop_bit_eq)
  qed
qed

lemma crc_bit_inj: "crc_bit a = crc_bit b \<Longrightarrow> a = b"
proof -
  assume eq: "crc_bit a = crc_bit b"
  then have o: "odd a = odd b" by (metis crc_bit_top)
  have "drop_bit 1 a = crc_bit a XOR (if odd a then kCrcPolynomial else 0)"
    "drop_bit 1 b = crc_bit b XOR (if odd b then kCrcPolynomial else 0)"
    by (simp_all only: crc_bit_alt xor.assoc xor_self_eq xor.right_neutral)
  then have "drop_bit 1 a = drop_bit 1 b" using eq o by (simp only:)
  with o show "a = b" by (rule drop_one_inj)
qed

lemma funpow_inj:
  fixes f :: "u32 \<Rightarrow> u32"
  assumes "\<And>a b. f a = f b \<Longrightarrow> a = b"
  shows "(f ^^ n) a = (f ^^ n) b \<Longrightarrow> a = b"
proof (induction n)
  case (Suc n)
  then have "f ((f ^^ n) a) = f ((f ^^ n) b)" by simp
  then have "(f ^^ n) a = (f ^^ n) b" by (rule assms)
  then show ?case by (rule Suc.IH)
qed simp

lemma crc_byte_inj: "crc_byte a = crc_byte b \<Longrightarrow> a = b"
  unfolding crc_byte_def by (rule funpow_inj) (rule crc_bit_inj)

lemma crc_bytes_inj: "(crc_byte ^^ n) a = (crc_byte ^^ n) b \<Longrightarrow> a = b"
  by (rule funpow_inj) (rule crc_byte_inj)

lemma xor_right_cancel: "a XOR c = b XOR c \<Longrightarrow> a = (b :: u32)"
  and xor_left_cancel: "c XOR a = c XOR b \<Longrightarrow> a = b"
proof -
  have "(a XOR c) XOR c = a" "(b XOR c) XOR c = b" "c XOR (c XOR a) = a" "c XOR (c XOR b) = b"
    by (simp_all add: xor.assoc)
  then show "a XOR c = b XOR c \<Longrightarrow> a = b" "c XOR a = c XOR b \<Longrightarrow> a = b" by metis+
qed

lemma crc_step_inj: "crc_step b h = crc_step b k \<Longrightarrow> h = k"
  unfolding crc_step_def by (drule crc_byte_inj) (rule xor_right_cancel)

lemma fold_step_inj: "fold crc_step bs h = fold crc_step bs k \<Longrightarrow> h = k"
proof (induction bs arbitrary: h k)
  case (Cons b bs)
  then have "crc_step b h = crc_step b k" by simp
  then show ?case by (rule crc_step_inj)
qed simp

lemma load_le32_bytes:
  "ucast (load_le32 b0 b1 b2 b3) = b0" "ucast (drop_bit 8 (load_le32 b0 b1 b2 b3)) = b1"
  "ucast (drop_bit 16 (load_le32 b0 b1 b2 b3)) = b2" "ucast (drop_bit 24 (load_le32 b0 b1 b2 b3)) = b3"
  unfolding load_le32_def
  by (rule bit_eqI; auto simp: bit_or_iff bit_push_bit_iff bit_drop_bit_eq bit_ucast_iff
      dest: bit_imp_le_length)+

lemma load_le32_inj:
  "load_le32 a0 a1 a2 a3 = load_le32 b0 b1 b2 b3 \<Longrightarrow> a0 = b0 \<and> a1 = b1 \<and> a2 = b2 \<and> a3 = b3"
  by (metis load_le32_bytes)

lemma crc_burst:
  assumes "length ds = 4" "length es = 4" "ds \<noteq> es"
  shows "crc_update (xs @ ds @ ys) c \<noteq> crc_update (xs @ es @ ys) c"
proof
  assume eq: "crc_update (xs @ ds @ ys) c = crc_update (xs @ es @ ys) c"
  obtain d0 d1 d2 d3 where d: "ds = [d0, d1, d2, d3]" using assms(1) by (auto simp: numeral_eq_Suc length_Suc_conv)
  obtain e0 e1 e2 e3 where e: "es = [e0, e1, e2, e3]" using assms(2) by (auto simp: numeral_eq_Suc length_Suc_conv)
  let ?k = "fold crc_step xs c"
  have "fold crc_step ys (fold crc_step ds ?k) = fold crc_step ys (fold crc_step es ?k)"
    using eq by (simp only: crc_update_eq fold_append o_apply)
  then have "fold crc_step ds ?k = fold crc_step es ?k" by (rule fold_step_inj)
  then have "(crc_byte ^^ 4) (?k XOR load_le32 d0 d1 d2 d3) = (crc_byte ^^ 4) (?k XOR load_le32 e0 e1 e2 e3)"
    unfolding d e by (simp only: crc_four_steps)
  then have "?k XOR load_le32 d0 d1 d2 d3 = ?k XOR load_le32 e0 e1 e2 e3" by (rule crc_bytes_inj)
  then have "load_le32 d0 d1 d2 d3 = load_le32 e0 e1 e2 e3" by (rule xor_left_cancel)
  then show False using load_le32_inj assms(3) d e by blast
qed

section \<open>Properties\<close>

text \<open>
  C25: The eight-table CRC is the standard one.  For every input and every state, the slice-by-8 update
  (eight bytes per turn through the eight tables, then the bytewise tail) equals the bit-serial
  CRC32 of the polynomial \<open>0xEDB88320\<close> fed with the bits of the input, least significant first.
\<close>

theorem crc_update_is_bit_serial: "crc_update data state = fold crc_serial (message_bits data) state"
  by (rule crc_update_serial)

text \<open>The known answer of the IEEE CRC32.\<close>

lemma crc32_known_answer: "crc32 ''123456789'' = 0xCBF43926"
proof -
  have "message_bits (bytes_of ''123456789'') =
       [True, False, False, False, True, True, False, False, False, True, False, False, True,
        True, False, False, True, True, False, False, True, True, False, False, False, False,
        True, False, True, True, False, False, True, False, True, False, True, True, False,
        False, False, True, True, False, True, True, False, False, True, True, True, False,
        True, True, False, False, False, False, False, True, True, True, False, False, True,
        False, False, True, True, True, False, False]"
    by code_simp
  moreover have "fold crc_serial \<dots> kCrcInit = 0x340BC6D9"
    by (simp add: crc_serial_def kCrcPolynomial_def kCrcInit_def)
  ultimately have "fold crc_serial (message_bits (bytes_of ''123456789'')) kCrcInit = 0x340BC6D9"
    by (simp only:)
  then show ?thesis by (simp add: crc32_def crc_value_def crc_update_serial)
qed

text \<open>
  C26: No corruption confined to four consecutive bytes keeps the checksum: two inputs of the same
  length that differ only there have different CRC32 values, whatever surrounds them.
\<close>

theorem crc_detects_four_byte_burst:
  assumes "length ds = 4" "length es = 4" "ds \<noteq> es"
  shows "crc_value (crc_update (xs @ ds @ ys) state) \<noteq> crc_value (crc_update (xs @ es @ ys) state)"
  using crc_burst [OF assms] xor_right_cancel unfolding crc_value_def by metis

lemma crc_detects_four_byte_burst_witness:
  "crc_value (crc_update ([1, 2] @ [3, 4, 5, 6] @ [7]) kCrcInit) \<noteq>
   crc_value (crc_update ([1, 2] @ [3, 4, 9, 6] @ [7]) kCrcInit)"
  by (rule crc_detects_four_byte_burst) simp_all

end
