(* ===== verification/Checksum.thy ===== *)
theory Checksum
  imports Crc Fixed_Decimal Book_Props
begin

text \<open>
  The Kraken book checksum of \<open>include/crossbook/checksum.hpp\<close>: the payload built from the ten
  best asks and the ten best bids, and its CRC32.
\<close>

section \<open>The payload\<close>

definition kKrakenChecksumDepth :: nat where "kKrakenChecksumDepth = 10"
definition kMaxDigits :: nat where "kMaxDigits = 20"

definition kMaxChecksumPayload :: nat where
  "kMaxChecksumPayload = kKrakenChecksumDepth * 2 * kMaxDigits * 2"

text \<open>The do-while loop that appends digits to \<open>tmp\<close>, lowest first.\<close>

fun digit_loop :: "nat \<Rightarrow> string \<Rightarrow> string" where
  "digit_loop magnitude tmp =
     (let tmp' = tmp @ [digit_char (magnitude mod 10)]; magnitude' = magnitude div 10
      in if magnitude' \<noteq> 0 then digit_loop magnitude' tmp' else tmp')"

declare digit_loop.simps [simp del]

definition write_digits :: "int \<Rightarrow> string" where
  "write_digits v = rev (digit_loop (nat (magnitude_u64 v)) [])"

text \<open>The callback of the payload loop; its state is the buffer written so far and \<open>taken\<close>.\<close>

definition payload_level :: "level \<Rightarrow> string \<times> nat \<Rightarrow> bool \<times> (string \<times> nat)" where
  "payload_level l st =
     (case st of (buf, taken) \<Rightarrow>
        (taken + 1 < kKrakenChecksumDepth,
         (buf @ write_digits (ticks (price l)) @ write_digits (units (qty l)), taken + 1)))"

definition kraken_checksum_payload :: "'s side_impl \<Rightarrow> 's l2_book \<Rightarrow> string" where
  "kraken_checksum_payload impl b =
     fold (\<lambda>s buf. fst (book_for_each impl s payload_level b (buf, 0))) [Ask, Bid] []"

definition kraken_checksum :: "'s side_impl \<Rightarrow> 's l2_book \<Rightarrow> u32" where
  "kraken_checksum impl b =
     crc_value (crc_update (bytes_of (kraken_checksum_payload impl b)) kCrcInit)"

section \<open>What the payload is\<close>

lemma digit_loop_write: "rev (digit_loop n tmp) = write_decimal n (rev tmp)"
proof (induction n tmp rule: digit_loop.induct)
  case (1 n tmp)
  show ?case
    using 1 by (subst digit_loop.simps, subst write_decimal.simps) (simp add: Let_def)
qed

lemma write_digits_token: "write_digits v = checksum_token v"
  by (simp add: write_digits_def checksum_token_def digit_loop_write)

definition level_digits :: "level \<Rightarrow> string" where
  "level_digits l = checksum_token (ticks (price l)) @ checksum_token (units (qty l))"

lemma visit_payload:
  "taken < kKrakenChecksumDepth \<Longrightarrow>
     fst (visit payload_level ls (buf, taken)) =
       buf @ concat (map level_digits (take (kKrakenChecksumDepth - taken) ls))"
proof (induction ls arbitrary: buf taken)
  case (Cons l ls)
  have "kKrakenChecksumDepth - taken = Suc (kKrakenChecksumDepth - Suc taken)"
    using Cons.prems by simp
  then show ?case
    using Cons.IH [of "Suc taken"] Cons.prems
    by (auto simp: payload_level_def write_digits_token level_digits_def not_less)
qed simp

definition payload_of :: "level list \<Rightarrow> level list \<Rightarrow> string" where
  "payload_of asks bids =
     concat (map level_digits (take kKrakenChecksumDepth asks @ take kKrakenChecksumDepth bids))"

lemma payload_levels:
  "kraken_checksum_payload impl b =
     payload_of (si_levels impl (book_side_of Ask b)) (si_levels impl (book_side_of Bid b))"
  by (simp add: kraken_checksum_payload_def book_for_each_def visit_payload payload_of_def
      kKrakenChecksumDepth_def)

lemma checksum_token_length:
  assumes "i64 v"
  shows "length (checksum_token v) \<le> kMaxDigits"
proof -
  have "nat (magnitude_u64 v) < 10 ^ 19"
    using magnitude_u64_abs [OF assms] assms by (simp add: int_limits) linarith
  then have "length (write_decimal (nat (magnitude_u64 v)) []) \<le> 19"
    using length_write_decimal by simp
  then show ?thesis by (simp add: checksum_token_def kMaxDigits_def)
qed

lemma concat_length: "(\<And>x. x \<in> set xs \<Longrightarrow> length (f x) \<le> k) \<Longrightarrow> length (concat (map f xs)) \<le> k * length xs"
  by (induction xs) (auto simp: add_mono)

lemma write_digits_sign: "i64 v \<Longrightarrow> v \<noteq> i64_min \<Longrightarrow> write_digits (- v) = write_digits v"
  by (auto simp: write_digits_def magnitude_u64_abs int_limits)

section \<open>Properties\<close>

text \<open>
  The buffer of the checksum is large enough.  On every reachable array book the payload is the
  decimal digits of price and quantity of the ten best asks followed by the ten best bids, each
  number takes at most 20 characters, and the whole is at most the 800 bytes the buffer holds.
\<close>

theorem payload_fits_buffer:
  assumes "book_run (array_impl kDefaultSlots) ops (l2_book_new (array_impl kDefaultSlots) spec) = Some b"
    and "\<forall>op \<in> set ops. book_op_ok op"
  shows "kraken_checksum_payload (array_impl kDefaultSlots) b =
       concat (map (\<lambda>l. checksum_token (ticks (price l)) @ checksum_token (units (qty l)))
         (take 10 (si_levels (array_impl kDefaultSlots) (book_side_of Ask b)) @
          take 10 (si_levels (array_impl kDefaultSlots) (book_side_of Bid b)))) \<and>
     length (kraken_checksum_payload (array_impl kDefaultSlots) b) \<le> kMaxChecksumPayload"
proof -
  let ?lv = "\<lambda>s. si_levels (array_impl kDefaultSlots) (book_side_of s b)"
  let ?ls = "take 10 (?lv Ask) @ take 10 (?lv Bid)"
  note r = reached_array [OF assms]
  have p: "kraken_checksum_payload (array_impl kDefaultSlots) b = concat (map level_digits ?ls)"
    by (simp add: payload_levels payload_of_def kKrakenChecksumDepth_def)
  have "length (level_digits l) \<le> 40" if "l \<in> set ?ls" for l
  proof -
    from that obtain s where "l \<in> set (?lv s)" by (auto dest: in_set_takeD)
    then have "l \<in> set (depth (fold l2_step ops (\<lambda>s. [])) s)"
      using array_side.rep_levels [OF r(1)] by simp
    from depth_range [OF r(2) this] have "i64 (ticks (price l))" "i64 (units (qty l))"
      by (simp_all add: int_limits)
    then have "length (checksum_token (ticks (price l))) \<le> 20" "length (checksum_token (units (qty l))) \<le> 20"
      using checksum_token_length by (auto simp: kMaxDigits_def)
    then show ?thesis by (simp add: level_digits_def)
  qed
  then have "length (concat (map level_digits ?ls)) \<le> 40 * length ?ls" by (rule concat_length)
  then have "length (kraken_checksum_payload (array_impl kDefaultSlots) b) \<le> kMaxChecksumPayload"
    by (simp add: p kMaxChecksumPayload_def kKrakenChecksumDepth_def kMaxDigits_def)
  then show ?thesis using p by (simp add: level_digits_def [abs_def])
qed

lemma payload_fits_buffer_witness:
  "\<exists>b. book_run (array_impl kDefaultSlots) sample_ops
       (l2_book_new (array_impl kDefaultSlots) sample_spec) = Some b \<and>
     length (kraken_checksum_payload (array_impl kDefaultSlots) b) \<le> kMaxChecksumPayload"
  using sample_run payload_fits_buffer [OF _ sample_ops_ok] by blast

text \<open>
  The checksum does not depend on the container: the same operations give the same payload and the
  same CRC32 on the array book and on the reference book.
\<close>

theorem checksums_agree:
  assumes "book_run (array_impl kDefaultSlots) ops (l2_book_new (array_impl kDefaultSlots) spec) = Some a"
    and "book_run map_impl ops (l2_book_new map_impl spec) = Some b"
    and "\<forall>op \<in> set ops. book_op_ok op"
  shows "kraken_checksum_payload (array_impl kDefaultSlots) a = kraken_checksum_payload map_impl b \<and>
     kraken_checksum (array_impl kDefaultSlots) a = kraken_checksum map_impl b"
proof -
  have "book_rep map_holds b (fold l2_step ops (\<lambda>s. []))"
    using map_run [OF assms(3), of spec] assms(2) by auto
  then have "si_levels map_impl (book_side_of s b) = si_levels (array_impl kDefaultSlots) (book_side_of s a)" for s
    using map_side.rep_levels array_side.rep_levels reached_array(1) [OF assms(1,3)] by metis
  then have "kraken_checksum_payload (array_impl kDefaultSlots) a = kraken_checksum_payload map_impl b"
    by (simp add: payload_levels)
  then show ?thesis by (simp add: kraken_checksum_def)
qed

lemma checksums_agree_witness:
  "\<exists>a b. book_run (array_impl kDefaultSlots) sample_ops
       (l2_book_new (array_impl kDefaultSlots) sample_spec) = Some a \<and>
     book_run map_impl sample_ops (l2_book_new map_impl sample_spec) = Some b \<and>
     kraken_checksum (array_impl kDefaultSlots) a = kraken_checksum map_impl b"
proof -
  obtain a where a: "book_run (array_impl kDefaultSlots) sample_ops
      (l2_book_new (array_impl kDefaultSlots) sample_spec) = Some a" using sample_run by blast
  obtain b where b: "book_run map_impl sample_ops (l2_book_new map_impl sample_spec) = Some b"
    using map_run [OF sample_ops_ok] by blast
  from checksums_agree [OF a b sample_ops_ok] a b show ?thesis by blast
qed

text \<open>
  C27: The checksum is computed over what the exchange sent.  When every level among the ten best of
  either side was parsed from canonical price and quantity texts with positive values, the payload
  is the concatenation of those texts with the points and the leading zeros removed, asks first.
\<close>

theorem payload_is_wire_text:
  assumes "\<And>l. l \<in> set (take 10 (si_levels impl (book_side_of Ask b)) @
        take 10 (si_levels impl (book_side_of Bid b))) \<Longrightarrow>
      0 < ticks (price l) \<and> 0 < units (qty l) \<and>
      is_canonical_at_scale (ptext l) ps \<and> parse_fixed (ptext l) ps = parse_result (ticks (price l)) ParseOk \<and>
      is_canonical_at_scale (qtext l) qs \<and> parse_fixed (qtext l) qs = parse_result (units (qty l)) ParseOk"
  shows "kraken_checksum_payload impl b =
     concat (map (\<lambda>l. wire_token (strip_plus (ptext l)) @ wire_token (strip_plus (qtext l)))
       (take 10 (si_levels impl (book_side_of Ask b)) @ take 10 (si_levels impl (book_side_of Bid b))))"
proof -
  have "level_digits l = wire_token (strip_plus (ptext l)) @ wire_token (strip_plus (qtext l))"
    if "l \<in> set (take 10 (si_levels impl (book_side_of Ask b)) @
        take 10 (si_levels impl (book_side_of Bid b)))" for l
    using assms [OF that] by (auto simp: level_digits_def checksum_token_wire_law)
  then show ?thesis
    unfolding payload_levels payload_of_def kKrakenChecksumDepth_def
    by (intro arg_cong [where f = concat] map_cong) auto
qed

lemma payload_is_wire_text_witness:
  "kraken_checksum_payload map_impl
     (snd (book_apply map_impl Ask (Price 205) (Qty 150) (l2_book_new map_impl sample_spec))) =
   wire_token (strip_plus ''20.5'') @ wire_token (strip_plus ''0.0150'')"
proof -
  let ?b = "snd (book_apply map_impl Ask (Price 205) (Qty 150) (l2_book_new map_impl sample_spec))"
  have l: "si_levels map_impl (book_side_of Ask ?b) = [Level (Price 205) (Qty 150)]"
    "si_levels map_impl (book_side_of Bid ?b) = []"
    by code_simp+
  have c: "is_canonical_at_scale ''20.5'' 1" "parse_fixed ''20.5'' 1 = parse_result 205 ParseOk"
    "is_canonical_at_scale ''0.0150'' 4" "parse_fixed ''0.0150'' 4 = parse_result 150 ParseOk"
    by code_simp+
  define b where "b = ?b"
  have prem: "0 < ticks (price l) \<and> 0 < units (qty l) \<and>
      is_canonical_at_scale ''20.5'' 1 \<and> parse_fixed ''20.5'' 1 = parse_result (ticks (price l)) ParseOk \<and>
      is_canonical_at_scale ''0.0150'' 4 \<and> parse_fixed ''0.0150'' 4 = parse_result (units (qty l)) ParseOk"
    if "l \<in> set (take 10 (si_levels map_impl (book_side_of Ask b)) @ take 10 (si_levels map_impl (book_side_of Bid b)))" for l
    using that c unfolding b_def l by auto
  from payload_is_wire_text [of map_impl b "\<lambda>_. ''20.5''" 1 "\<lambda>_. ''0.0150''" 4, OF prem] show ?thesis
    unfolding b_def [symmetric] by (simp add: l [folded b_def])
qed

end
