(* ===== verification/Feed.thy ===== *)
theory Feed
  imports Venue Checksum
begin

text \<open>
  \<open>Feed\<close> of \<open>include/crossbook/feed.hpp\<close>: decode, check continuity, apply, verify, recover.  The
  decoder and the book's side container are parameters here as they are template parameters
  there.  A handler returns \<open>None\<close> only if the trim loop of the book does not end, which the
  properties rule out.
\<close>

section \<open>State\<close>

datatype feed_status = FeedApplied | FeedIgnored | FeedNeedsSnapshot | FeedRejected

definition feed_status_string :: "feed_status \<Rightarrow> string" where
  "feed_status_string s =
     (case s of FeedApplied \<Rightarrow> ''applied'' | FeedIgnored \<Rightarrow> ''ignored''
      | FeedNeedsSnapshot \<Rightarrow> ''needs_snapshot'' | FeedRejected \<Rightarrow> ''rejected'')"

record feed_stats =
  fs_frames :: u64
  fs_applied :: u64
  fs_ignored :: u64
  fs_rejected :: u64
  fs_resyncs_requested :: u64
  fs_snapshots_applied :: u64
  fs_checksums_verified :: u64
  fs_checksum_mismatches :: u64
  fs_venue_errors :: u64
  fs_levels_trimmed :: u64
  fs_levels_rejected :: u64

definition feed_stats_new :: feed_stats where
  "feed_stats_new =
     \<lparr>fs_frames = 0, fs_applied = 0, fs_ignored = 0, fs_rejected = 0, fs_resyncs_requested = 0,
      fs_snapshots_applied = 0, fs_checksums_verified = 0, fs_checksum_mismatches = 0,
      fs_venue_errors = 0, fs_levels_trimmed = 0, fs_levels_rejected = 0\<rparr>"

text \<open>What the feed uses of its decoder.\<close>

record 'd decoder =
  dec_decode :: "string \<Rightarrow> 'd \<Rightarrow> decoded_message \<times> 'd"
  dec_spec :: "'d \<Rightarrow> instrument_spec"

record ('s, 'd) feed =
  fd_venue :: string
  fd_decoder :: 'd
  fd_book :: "'s l2_book"
  fd_tracker :: tracker
  fd_depth :: nat
  fd_log :: divergence_log
  fd_stats :: feed_stats
  fd_last_ts :: timestamp
  fd_synced :: bool

definition feed_new ::
    "'s side_impl \<Rightarrow> 'd decoder \<Rightarrow> string \<Rightarrow> 'd \<Rightarrow> sequence_policy \<Rightarrow> nat \<Rightarrow> ('s, 'd) feed" where
  "feed_new impl D venue d policy max_depth =
     \<lparr>fd_venue = venue, fd_decoder = d, fd_book = l2_book_new impl (dec_spec D d),
      fd_tracker = tracker_new policy, fd_depth = max_depth,
      fd_log = divergence_log_new kDefaultLogCapacity, fd_stats = feed_stats_new, fd_last_ts = 0,
      fd_synced = False\<rparr>"

definition feed_log :: "divergence \<Rightarrow> ('s, 'd) feed \<Rightarrow> ('s, 'd) feed" where
  "feed_log d f = f\<lparr>fd_log := log_record d (fd_log f)\<rparr>"

definition feed_symbol :: "('s, 'd) feed \<Rightarrow> string" where
  "feed_symbol f = is_symbol (bk_spec (fd_book f))"

section \<open>Steps\<close>

definition feed_invalidate :: "divergence_kind \<Rightarrow> ('s, 'd) feed \<Rightarrow> ('s, 'd) feed" where
  "feed_invalidate reason f =
     (let f1 = (if fd_synced f
                then feed_log (divergence reason (fd_venue f) (feed_symbol f) (fd_last_ts f)
                       (tr_last_final_id (fd_tracker f)) 0 0 ''feed invalidated'') f
                else f)
      in f1\<lparr>fd_synced := False, fd_tracker := invalidate (fd_tracker f1),
            fd_stats := (fd_stats f1)\<lparr>fs_resyncs_requested := fs_resyncs_requested (fd_stats f1) + 1\<rparr>\<rparr>)"

definition check_staleness :: "timestamp \<Rightarrow> int \<Rightarrow> ('s, 'd) feed \<Rightarrow> bool \<times> ('s, 'd) feed" where
  "check_staleness now max_gap_ns f =
     (if \<not> fd_synced f \<or> fd_last_ts f = 0 \<or> max_gap_ns \<le> 0 then (False, f)
      else if now - fd_last_ts f > max_gap_ns then (True, feed_invalidate StaleFeed f)
      else (False, f))"

definition request_resync :: "('s, 'd) feed \<Rightarrow> feed_status \<times> ('s, 'd) feed" where
  "request_resync f =
     (FeedNeedsSnapshot,
      f\<lparr>fd_synced := False, fd_tracker := invalidate (fd_tracker f),
        fd_stats := (fd_stats f)\<lparr>fs_resyncs_requested := fs_resyncs_requested (fd_stats f) + 1\<rparr>\<rparr>)"

definition record_rejected_level ::
    "decoded_message \<Rightarrow> level_update \<Rightarrow> ('s, 'd) feed \<Rightarrow> ('s, 'd) feed" where
  "record_rejected_level msg l f =
     feed_log (divergence MalformedMessage (fd_venue f) (feed_symbol f) (dm_ts msg)
         (final_id (dm_ids msg)) (word_of_int (ticks (lu_price l))) (word_of_int (units (lu_qty l)))
         ''book refused level'')
       (f\<lparr>fd_stats := (fd_stats f)\<lparr>fs_levels_rejected := fs_levels_rejected (fd_stats f) + 1\<rparr>\<rparr>)"

definition apply_level ::
    "'s side_impl \<Rightarrow> decoded_message \<Rightarrow> level_update \<Rightarrow> ('s, 'd) feed \<Rightarrow> ('s, 'd) feed" where
  "apply_level impl msg l f =
     (let (ok, b) = book_apply impl (lu_side l) (lu_price l) (lu_qty l) (fd_book f);
          f1 = f\<lparr>fd_book := b\<rparr>
      in if ok then f1 else record_rejected_level msg l f1)"

definition verify_checksum ::
    "'s side_impl \<Rightarrow> decoded_message \<Rightarrow> ('s, 'd) feed \<Rightarrow> bool \<times> ('s, 'd) feed" where
  "verify_checksum impl msg f =
     (let f1 = f\<lparr>fd_stats := (fd_stats f)\<lparr>fs_checksums_verified := fs_checksums_verified (fd_stats f) + 1\<rparr>\<rparr>;
          local = kraken_checksum impl (fd_book f1)
      in if local = dm_checksum msg then (True, f1\<lparr>fd_log := log_record_verified (fd_log f1)\<rparr>)
         else
           (let f2 = f1\<lparr>fd_stats := (fd_stats f1)\<lparr>fs_checksum_mismatches := fs_checksum_mismatches (fd_stats f1) + 1\<rparr>\<rparr>
            in (False,
                feed_log (divergence ChecksumMismatch (fd_venue f2) (dm_symbol msg) (dm_ts msg)
                    (final_id (dm_ids msg)) (ucast (dm_checksum msg)) (ucast local)
                    (kraken_checksum_payload impl (fd_book f2))) f2)))"

text \<open>The levels of a message, the trim, and the two timestamps: shared by both handlers.\<close>

definition apply_levels ::
    "'s side_impl \<Rightarrow> decoded_message \<Rightarrow> ('s, 'd) feed \<Rightarrow> ('s, 'd) feed option" where
  "apply_levels impl msg f =
     (let f1 = fold (apply_level impl msg) (dm_levels msg) f
      in case book_trim impl (fd_depth f1) (fd_book f1) of
           None \<Rightarrow> None
         | Some (n, b) \<Rightarrow>
             Some (f1\<lparr>fd_book := set_last_update (dm_ts msg) b,
                      fd_stats := (fd_stats f1)\<lparr>fs_levels_trimmed := fs_levels_trimmed (fd_stats f1) + of_nat n\<rparr>,
                      fd_last_ts := dm_ts msg\<rparr>))"

definition verified_status ::
    "'s side_impl \<Rightarrow> decoded_message \<Rightarrow> ('s, 'd) feed \<Rightarrow> feed_status \<times> ('s, 'd) feed" where
  "verified_status impl msg f =
     (if dm_has_checksum msg then
        (let (ok, f1) = verify_checksum impl msg f
         in if ok then (FeedApplied, f1) else request_resync f1)
      else (FeedApplied, f))"

definition count_applied :: "('s, 'd) feed \<Rightarrow> ('s, 'd) feed" where
  "count_applied f = f\<lparr>fd_stats := (fd_stats f)\<lparr>fs_applied := fs_applied (fd_stats f) + 1\<rparr>\<rparr>"

definition count_ignored :: "('s, 'd) feed \<Rightarrow> ('s, 'd) feed" where
  "count_ignored f = f\<lparr>fd_stats := (fd_stats f)\<lparr>fs_ignored := fs_ignored (fd_stats f) + 1\<rparr>\<rparr>"

definition count_rejected :: "('s, 'd) feed \<Rightarrow> ('s, 'd) feed" where
  "count_rejected f = f\<lparr>fd_stats := (fd_stats f)\<lparr>fs_rejected := fs_rejected (fd_stats f) + 1\<rparr>\<rparr>"

definition token_or :: "string \<Rightarrow> decoded_message \<Rightarrow> string" where
  "token_or text msg = (if dm_bad_token msg = [] then text else dm_bad_token msg)"

definition apply_snapshot_message ::
    "'s side_impl \<Rightarrow> decoded_message \<Rightarrow> ('s, 'd) feed \<Rightarrow> (feed_status \<times> ('s, 'd) feed) option" where
  "apply_snapshot_message impl msg f =
     (if \<not> dm_ok msg then
        Some (FeedRejected,
          feed_log (divergence MalformedMessage (fd_venue f) (feed_symbol f) (dm_ts msg)
              (final_id (dm_ids msg)) 0 0 (token_or (decode_error_string (dm_error msg)) msg))
            (count_rejected f))
      else
        (case apply_levels impl msg (f\<lparr>fd_book := book_clear impl (fd_book f)\<rparr>) of
           None \<Rightarrow> None
         | Some f1 \<Rightarrow>
             (let f2 = (if dm_has_ids msg
                        then f1\<lparr>fd_tracker := on_snapshot (final_id (dm_ids msg)) (fd_tracker f1)\<rparr>
                        else f1);
                  f3 = f2\<lparr>fd_synced := True,
                          fd_stats := (fd_stats f2)\<lparr>fs_snapshots_applied := fs_snapshots_applied (fd_stats f2) + 1\<rparr>\<rparr>
              in Some (verified_status impl msg (count_applied f3)))))"

definition apply_update_message ::
    "'s side_impl \<Rightarrow> decoded_message \<Rightarrow> ('s, 'd) feed \<Rightarrow> (feed_status \<times> ('s, 'd) feed) option" where
  "apply_update_message impl msg f =
     (if \<not> fd_synced f then Some (FeedNeedsSnapshot, f)
      else
        (let continue = (\<lambda>f. case apply_levels impl msg f of
                                None \<Rightarrow> None
                              | Some f1 \<Rightarrow> Some (verified_status impl msg (count_applied f1)))
         in if dm_has_ids msg then
              (case on_update (dm_ids msg) (fd_tracker f) of
                 (DiscardStale, t) \<Rightarrow> Some (FeedIgnored, count_ignored (f\<lparr>fd_tracker := t\<rparr>))
               | (ResyncRequired, t) \<Rightarrow>
                   (let f1 = f\<lparr>fd_tracker := t\<rparr>
                    in Some (request_resync
                         (feed_log (divergence SequenceGap (fd_venue f1) (dm_symbol msg) (dm_ts msg)
                             (final_id (dm_ids msg)) (tr_last_final_id t) (first_id (dm_ids msg))
                             ''continuity broken; book must be rebuilt'') f1)))
               | (Apply, t) \<Rightarrow> continue (f\<lparr>fd_tracker := t\<rparr>))
            else continue f))"

definition handle ::
    "'s side_impl \<Rightarrow> 'd decoder \<Rightarrow> string \<Rightarrow> ('s, 'd) feed \<Rightarrow> (feed_status \<times> ('s, 'd) feed) option" where
  "handle impl D frame f =
     (let f0 = f\<lparr>fd_stats := (fd_stats f)\<lparr>fs_frames := fs_frames (fd_stats f) + 1\<rparr>\<rparr>;
          (msg, d) = dec_decode D frame (fd_decoder f0);
          f1 = f0\<lparr>fd_decoder := d\<rparr>
      in if \<not> dm_ok msg then
           (let spelling = (dm_error msg = DecodePrecisionLoss \<or> dm_error msg = DecodeNonCanonical)
            in Some (FeedRejected,
                 feed_log (divergence (if spelling then PrecisionLoss else MalformedMessage)
                     (fd_venue f1) (dm_symbol msg) (dm_ts msg) (final_id (dm_ids msg)) 0 0
                     (token_or (decode_error_string (dm_error msg)) msg))
                   (count_rejected f1)))
         else
           (case dm_kind msg of
              KindIgnored \<Rightarrow> Some (FeedIgnored, count_ignored f1)
            | KindVenueError \<Rightarrow>
                (let f2 = f1\<lparr>fd_stats := (fd_stats f1)\<lparr>fs_venue_errors := fs_venue_errors (fd_stats f1) + 1\<rparr>\<rparr>
                 in Some (FeedRejected,
                      feed_log (divergence VenueError (fd_venue f2) (feed_symbol f2) (dm_ts msg)
                          (final_id (dm_ids msg)) 0 0 (token_or ''venue reported an error'' msg))
                        (count_rejected f2)))
            | KindSnapshot \<Rightarrow> apply_snapshot_message impl msg f1
            | KindUpdate \<Rightarrow> apply_update_message impl msg f1))"

section \<open>What each step touches\<close>

lemma feed_log_fields [simp]:
  "fd_venue (feed_log d f) = fd_venue f" "fd_decoder (feed_log d f) = fd_decoder f"
  "fd_book (feed_log d f) = fd_book f" "fd_tracker (feed_log d f) = fd_tracker f"
  "fd_depth (feed_log d f) = fd_depth f" "fd_stats (feed_log d f) = fd_stats f"
  "fd_last_ts (feed_log d f) = fd_last_ts f" "fd_synced (feed_log d f) = fd_synced f"
  "fd_log (feed_log d f) = log_record d (fd_log f)"
  by (simp_all add: feed_log_def)

lemma count_fields [simp]:
  "fd_book (count_applied f) = fd_book f" "fd_synced (count_applied f) = fd_synced f"
  "fd_tracker (count_applied f) = fd_tracker f" "fd_log (count_applied f) = fd_log f"
  "fd_book (count_ignored f) = fd_book f" "fd_synced (count_ignored f) = fd_synced f"
  "fd_tracker (count_ignored f) = fd_tracker f" "fd_log (count_ignored f) = fd_log f"
  "fd_book (count_rejected f) = fd_book f" "fd_synced (count_rejected f) = fd_synced f"
  "fd_tracker (count_rejected f) = fd_tracker f" "fd_log (count_rejected f) = fd_log f"
  "fd_decoder (count_applied f) = fd_decoder f" "fd_decoder (count_ignored f) = fd_decoder f"
  "fd_decoder (count_rejected f) = fd_decoder f" "fd_venue (count_applied f) = fd_venue f"
  "fd_venue (count_ignored f) = fd_venue f" "fd_venue (count_rejected f) = fd_venue f"
  "fd_depth (count_applied f) = fd_depth f" "fd_depth (count_ignored f) = fd_depth f"
  "fd_depth (count_rejected f) = fd_depth f" "fd_last_ts (count_applied f) = fd_last_ts f"
  "fd_last_ts (count_ignored f) = fd_last_ts f" "fd_last_ts (count_rejected f) = fd_last_ts f"
  by (simp_all add: count_applied_def count_ignored_def count_rejected_def)

lemma request_resync_fields [simp]:
  "fst (request_resync f) = FeedNeedsSnapshot" "fd_book (snd (request_resync f)) = fd_book f"
  "\<not> fd_synced (snd (request_resync f))" "fd_log (snd (request_resync f)) = fd_log f"
  "fd_tracker (snd (request_resync f)) = invalidate (fd_tracker f)"
  "fd_decoder (snd (request_resync f)) = fd_decoder f"
  by (simp_all add: request_resync_def)

lemma verify_checksum_fields [simp]:
  "fst (verify_checksum impl msg f) \<longleftrightarrow> kraken_checksum impl (fd_book f) = dm_checksum msg"
  "fd_book (snd (verify_checksum impl msg f)) = fd_book f"
  "fd_synced (snd (verify_checksum impl msg f)) = fd_synced f"
  "fd_tracker (snd (verify_checksum impl msg f)) = fd_tracker f"
  "fd_decoder (snd (verify_checksum impl msg f)) = fd_decoder f"
  by (simp_all add: verify_checksum_def Let_def)

lemma verified_status_fields [simp]:
  "fd_book (snd (verified_status impl msg f)) = fd_book f"
  "fd_decoder (snd (verified_status impl msg f)) = fd_decoder f"
  "fst (verified_status impl msg f) =
     (if dm_has_checksum msg \<and> kraken_checksum impl (fd_book f) \<noteq> dm_checksum msg
      then FeedNeedsSnapshot else FeedApplied)"
  "fd_synced (snd (verified_status impl msg f)) \<longleftrightarrow>
     fd_synced f \<and> fst (verified_status impl msg f) = FeedApplied"
  "tr_have_snapshot (fd_tracker (snd (verified_status impl msg f))) \<longleftrightarrow>
     tr_have_snapshot (fd_tracker f) \<and> fst (verified_status impl msg f) = FeedApplied"
  using verify_checksum_fields [of impl msg f]
  by (cases "verify_checksum impl msg f"; auto simp: verified_status_def invalidate_def)+

lemma apply_level_fields [simp]:
  "fd_synced (apply_level impl msg l f) = fd_synced f"
  "fd_tracker (apply_level impl msg l f) = fd_tracker f"
  "fd_decoder (apply_level impl msg l f) = fd_decoder f"
  "fd_depth (apply_level impl msg l f) = fd_depth f" "fd_venue (apply_level impl msg l f) = fd_venue f"
  "fd_book (apply_level impl msg l f) =
     snd (book_apply impl (lu_side l) (lu_price l) (lu_qty l) (fd_book f))"
  by (cases "book_apply impl (lu_side l) (lu_price l) (lu_qty l) (fd_book f)";
      simp add: apply_level_def record_rejected_level_def Let_def)+

lemma fold_apply_level_fields [simp]:
  "fd_synced (fold (apply_level impl msg) ls f) = fd_synced f"
  "fd_tracker (fold (apply_level impl msg) ls f) = fd_tracker f"
  "fd_decoder (fold (apply_level impl msg) ls f) = fd_decoder f"
  "fd_depth (fold (apply_level impl msg) ls f) = fd_depth f"
  "fd_venue (fold (apply_level impl msg) ls f) = fd_venue f"
  by (induction ls arbitrary: f) simp_all

lemma apply_levels_fields:
  assumes "apply_levels impl msg f = Some f'"
  shows "fd_synced f' = fd_synced f" "fd_tracker f' = fd_tracker f" "fd_decoder f' = fd_decoder f"
    "bk_last_update (fd_book f') = dm_ts msg" "fd_last_ts f' = dm_ts msg" "fd_depth f' = fd_depth f"
  using assms
  by (auto simp: apply_levels_def Let_def set_last_update_def split: option.splits prod.splits)

section \<open>Properties of one frame\<close>

text \<open>The verdict and the state after a successful application.\<close>

definition truthful ::
    "'s side_impl \<Rightarrow> decoded_message \<Rightarrow> ('s, 'd) feed \<Rightarrow> feed_status \<Rightarrow> ('s, 'd) feed \<Rightarrow> bool" where
  "truthful impl msg f st f' \<longleftrightarrow>
     (case st of
        FeedApplied \<Rightarrow> fd_synced f' \<and> bk_last_update (fd_book f') = dm_ts msg \<and>
          (dm_has_checksum msg \<longrightarrow> kraken_checksum impl (fd_book f') = dm_checksum msg)
      | FeedNeedsSnapshot \<Rightarrow> \<not> fd_synced f'
      | FeedIgnored \<Rightarrow> fd_book f' = fd_book f \<and> fd_synced f' = fd_synced f
      | FeedRejected \<Rightarrow> fd_book f' = fd_book f \<and> fd_synced f' = fd_synced f)"

lemma verified_truthful:
  assumes "fd_synced f1" "bk_last_update (fd_book f1) = dm_ts msg"
    "verified_status impl msg (count_applied f1) = (st, f')"
  shows "truthful impl msg f st f'"
  using verified_status_fields [of impl msg "count_applied f1"] assms
  by (auto simp: truthful_def split: feed_status.split if_splits)

lemma snapshot_truthful:
  assumes "apply_snapshot_message impl msg f = Some (st, f')"
  shows "truthful impl msg f st f'"
proof (cases "dm_ok msg")
  case False
  with assms show ?thesis by (auto simp: apply_snapshot_message_def truthful_def)
next
  case True
  with assms obtain f1 where f1: "apply_levels impl msg (f\<lparr>fd_book := book_clear impl (fd_book f)\<rparr>) = Some f1"
    by (auto simp: apply_snapshot_message_def split: option.splits)
  let ?f2 = "if dm_has_ids msg
      then f1\<lparr>fd_tracker := on_snapshot (final_id (dm_ids msg)) (fd_tracker f1)\<rparr> else f1"
  let ?f3 = "?f2\<lparr>fd_synced := True,
      fd_stats := (fd_stats ?f2)\<lparr>fs_snapshots_applied := fs_snapshots_applied (fd_stats ?f2) + 1\<rparr>\<rparr>"
  have "verified_status impl msg (count_applied ?f3) = (st, f')"
    using assms True f1 by (simp add: apply_snapshot_message_def Let_def)
  then show ?thesis
    using apply_levels_fields(4) [OF f1] by (intro verified_truthful [of ?f3]) simp_all
qed

lemma update_truthful:
  assumes "apply_update_message impl msg f = Some (st, f')"
  shows "truthful impl msg f st f'"
proof -
  have go: "truthful impl msg f st f'"
    if "fd_synced g" "(case apply_levels impl msg g of None \<Rightarrow> None
        | Some f1 \<Rightarrow> Some (verified_status impl msg (count_applied f1))) = Some (st, f')" for g
    using that apply_levels_fields [of impl msg g]
    by (auto intro!: verified_truthful split: option.splits)
  show ?thesis
  proof (cases "fd_synced f \<and> (dm_has_ids msg \<longrightarrow> fst (on_update (dm_ids msg) (fd_tracker f)) = Apply)")
    case True
    then show ?thesis
      using assms go [of f] go [of "f\<lparr>fd_tracker := snd (on_update (dm_ids msg) (fd_tracker f))\<rparr>"]
      by (auto simp: apply_update_message_def Let_def split: if_splits prod.splits)
  next
    case False
    then show ?thesis
      using assms
      by (auto simp: apply_update_message_def Let_def truthful_def request_resync_def split: if_splits
          prod.splits sequence_action.splits)
  qed
qed

lemma status_facts:
  assumes "handle impl D frame f = Some (st, f')"
  shows "(st = FeedApplied \<longrightarrow> fd_synced f' \<and>
       bk_last_update (fd_book f') = dm_ts (fst (dec_decode D frame (fd_decoder f))) \<and>
       (dm_has_checksum (fst (dec_decode D frame (fd_decoder f))) \<longrightarrow>
          kraken_checksum impl (fd_book f') = dm_checksum (fst (dec_decode D frame (fd_decoder f))))) \<and>
     (st = FeedNeedsSnapshot \<longrightarrow> \<not> fd_synced f') \<and>
     (st = FeedIgnored \<or> st = FeedRejected \<longrightarrow> fd_book f' = fd_book f \<and> fd_synced f' = fd_synced f)"
proof -
  obtain msg d where md: "dec_decode D frame (fd_decoder f) = (msg, d)" by (cases "dec_decode D frame (fd_decoder f)")
  let ?f1 = "f\<lparr>fd_stats := (fd_stats f)\<lparr>fs_frames := fs_frames (fd_stats f) + 1\<rparr>, fd_decoder := d\<rparr>"
  have "truthful impl msg ?f1 st f'"
  proof (cases "dm_ok msg")
    case False
    with assms md show ?thesis by (auto simp: handle_def truthful_def Let_def)
  next
    case True
    with assms md snapshot_truthful [of impl msg ?f1 st f'] update_truthful [of impl msg ?f1 st f']
    show ?thesis
      by (cases "dm_kind msg") (auto simp: handle_def truthful_def Let_def)
  qed
  then show ?thesis by (auto simp: truthful_def md split: feed_status.splits)
qed

text \<open>
  C21: The status tells the truth, for any container and decoder.  \<open>Applied\<close> means the feed is synced, the
  book carries the time stamp of the message, and if the message had a checksum the book's checksum
  equals it; \<open>NeedsSnapshot\<close> means the feed is not synced; \<open>Ignored\<close> and \<open>Rejected\<close> mean neither
  the book nor the sync flag changed.
\<close>

theorem status_tells_the_truth:
  assumes "handle impl D frame f = Some (st, f')"
  shows "(st = FeedApplied \<longrightarrow> fd_synced f' \<and>
       bk_last_update (fd_book f') = dm_ts (fst (dec_decode D frame (fd_decoder f))) \<and>
       (dm_has_checksum (fst (dec_decode D frame (fd_decoder f))) \<longrightarrow>
          kraken_checksum impl (fd_book f') = dm_checksum (fst (dec_decode D frame (fd_decoder f))))) \<and>
     (st = FeedNeedsSnapshot \<longrightarrow> \<not> fd_synced f') \<and>
     (st = FeedIgnored \<or> st = FeedRejected \<longrightarrow> fd_book f' = fd_book f \<and> fd_synced f' = fd_synced f)"
  by (rule status_facts [OF assms])

section \<open>Runs of frames\<close>

fun handle_all ::
    "'s side_impl \<Rightarrow> 'd decoder \<Rightarrow> string list \<Rightarrow> ('s, 'd) feed \<Rightarrow> (feed_status list \<times> ('s, 'd) feed) option" where
  "handle_all impl D [] f = Some ([], f)"
| "handle_all impl D (frame # frames) f =
     (case handle impl D frame f of
        None \<Rightarrow> None
      | Some (st, f1) \<Rightarrow>
          (case handle_all impl D frames f1 of
             None \<Rightarrow> None
           | Some (sts, f2) \<Rightarrow> Some (st # sts, f2)))"

definition no_snapshot :: "'d decoder \<Rightarrow> string \<Rightarrow> bool" where
  "no_snapshot D frame \<longleftrightarrow>
     (\<forall>d. dm_ok (fst (dec_decode D frame d)) \<longrightarrow> dm_kind (fst (dec_decode D frame d)) \<noteq> KindSnapshot)"

lemma unsynced_step:
  assumes "handle impl D frame f = Some (st, f')" "\<not> fd_synced f" "no_snapshot D frame"
  shows "fd_book f' = fd_book f \<and> \<not> fd_synced f' \<and> st \<noteq> FeedApplied"
proof -
  obtain msg d where md: "dec_decode D frame (fd_decoder f) = (msg, d)" by (cases "dec_decode D frame (fd_decoder f)")
  have "dm_ok msg \<longrightarrow> dm_kind msg \<noteq> KindSnapshot"
    using assms(3) md unfolding no_snapshot_def by (metis fst_conv)
  then show ?thesis
    using assms(1,2) md
    by (cases "dm_kind msg") (auto simp: handle_def apply_update_message_def Let_def split: if_splits)
qed

text \<open>
  A book known to be wrong is neither served nor updated.  From any unsynced feed, whatever frames
  arrive, as long as none of them is a snapshot the book stays exactly as it is, the feed stays
  unsynced and no frame is reported as applied.
\<close>

theorem unsynced_book_is_frozen:
  assumes "handle_all impl D frames f = Some (sts, f')" "\<not> fd_synced f"
    and "\<forall>frame \<in> set frames. no_snapshot D frame"
  shows "fd_book f' = fd_book f \<and> \<not> fd_synced f' \<and> FeedApplied \<notin> set sts"
  using assms
proof (induction frames arbitrary: f sts)
  case (Cons frame frames)
  then obtain st f1 sts' where h: "handle impl D frame f = Some (st, f1)"
      "handle_all impl D frames f1 = Some (sts', f')" "sts = st # sts'"
    by (auto split: option.splits)
  have s: "fd_book f1 = fd_book f \<and> \<not> fd_synced f1 \<and> st \<noteq> FeedApplied"
    using unsynced_step [OF h(1)] Cons.prems by simp
  with Cons.IH [OF h(2)] Cons.prems(3) h(3) show ?case by auto
qed simp

section \<open>The container does not matter\<close>

text \<open>Levels as the code holds them, in 64-bit fields.\<close>

definition message_ok :: "decoded_message \<Rightarrow> bool" where
  "message_ok msg \<longleftrightarrow>
     (\<forall>l \<in> set (dm_levels msg). i64 (ticks (lu_price l)) \<and> i64 (units (lu_qty l)))"

definition decoder_ok :: "'d decoder \<Rightarrow> bool" where
  "decoder_ok D \<longleftrightarrow> (\<forall>frame d. message_ok (fst (dec_decode D frame d)))"

text \<open>Everything but the two containers.\<close>

definition feed_view :: "('s, 'd) feed \<Rightarrow>
    string \<times> 'd \<times> tracker \<times> nat \<times> divergence_log \<times> feed_stats \<times> timestamp \<times> bool \<times> instrument_spec \<times> timestamp" where
  "feed_view f =
     (fd_venue f, fd_decoder f, fd_tracker f, fd_depth f, fd_log f, fd_stats f, fd_last_ts f,
      fd_synced f, bk_spec (fd_book f), bk_last_update (fd_book f))"

definition feed_sim ::
    "('s \<Rightarrow> side \<Rightarrow> contents \<Rightarrow> bool) \<Rightarrow> ('s, 'd) feed \<Rightarrow> (map_side, 'd) feed \<Rightarrow> l2_contents \<Rightarrow> bool" where
  "feed_sim holds f g m \<longleftrightarrow>
     book_rep holds (fd_book f) m \<and> book_rep map_holds (fd_book g) m \<and> feed_view f = feed_view g"

definition l2_update :: "level_update \<Rightarrow> l2_contents \<Rightarrow> l2_contents" where
  "l2_update l m = l2_apply (lu_side l) (lu_price l) (lu_qty l) m"

text \<open>What a message does to the abstract book.\<close>

definition l2_message :: "decoded_message \<Rightarrow> nat \<Rightarrow> l2_contents \<Rightarrow> l2_contents" where
  "l2_message msg n m =
     (let m1 = fold l2_update (dm_levels msg) m in l2_trim_side Ask n (l2_trim_side Bid n m1))"

lemma sim_feed_log: "feed_sim holds f g m \<Longrightarrow> feed_sim holds (feed_log d f) (feed_log d g) m"
  by (simp add: feed_sim_def feed_view_def feed_log_def)

lemma sim_same:
  assumes "feed_sim holds f g m"
  shows "fd_venue f = fd_venue g" "fd_decoder f = fd_decoder g" "fd_tracker f = fd_tracker g"
    "fd_depth f = fd_depth g" "fd_log f = fd_log g" "fd_stats f = fd_stats g"
    "fd_last_ts f = fd_last_ts g" "fd_synced f = fd_synced g" "feed_symbol f = feed_symbol g"
  using assms by (simp_all add: feed_sim_def feed_view_def feed_symbol_def)

lemma sim_update_fields:
  assumes "feed_sim holds f g m"
  shows "feed_sim holds (f\<lparr>fd_stats := s\<rparr>) (g\<lparr>fd_stats := s\<rparr>) m"
    and "feed_sim holds (f\<lparr>fd_tracker := t\<rparr>) (g\<lparr>fd_tracker := t\<rparr>) m"
    and "feed_sim holds (f\<lparr>fd_synced := b\<rparr>) (g\<lparr>fd_synced := b\<rparr>) m"
    and "feed_sim holds (f\<lparr>fd_log := l\<rparr>) (g\<lparr>fd_log := l\<rparr>) m"
    and "feed_sim holds (f\<lparr>fd_decoder := d\<rparr>) (g\<lparr>fd_decoder := d\<rparr>) m"
    and "feed_sim holds (f\<lparr>fd_last_ts := ts\<rparr>) (g\<lparr>fd_last_ts := ts\<rparr>) m"
  using assms by (simp_all add: feed_sim_def feed_view_def)

lemma sim_counts:
  assumes "feed_sim holds f g m"
  shows "feed_sim holds (count_applied f) (count_applied g) m"
    "feed_sim holds (count_ignored f) (count_ignored g) m"
    "feed_sim holds (count_rejected f) (count_rejected g) m"
  using sim_update_fields(1) [OF assms] sim_same(6) [OF assms]
  by (simp_all add: count_applied_def count_ignored_def count_rejected_def)

lemma sim_request_resync:
  assumes "feed_sim holds f g m"
  shows "feed_sim holds (snd (request_resync f)) (snd (request_resync g)) m"
  using assms by (simp add: request_resync_def feed_sim_def feed_view_def)

lemma book_apply_fields [simp]:
  "fst (book_apply impl s p q b) \<longleftrightarrow> \<not> (ticks p < 0 \<or> units q < 0)"
  "bk_spec (snd (book_apply impl s p q b)) = bk_spec b"
  "bk_last_update (snd (book_apply impl s p q b)) = bk_last_update b"
  by (auto simp: book_apply_def)

context book_side
begin

lemma sim_apply_level:
  assumes "feed_sim holds f g m" "i64 (ticks (lu_price l))" "i64 (units (lu_qty l))"
  shows "feed_sim holds (apply_level impl msg l f) (apply_level map_impl msg l g) (l2_update l m)"
proof -
  let ?f1 = "f\<lparr>fd_book := snd (book_apply impl (lu_side l) (lu_price l) (lu_qty l) (fd_book f))\<rparr>"
  let ?g1 = "g\<lparr>fd_book := snd (book_apply map_impl (lu_side l) (lu_price l) (lu_qty l) (fd_book g))\<rparr>"
  have s: "feed_sim holds ?f1 ?g1 (l2_update l m)"
    using assms rep_apply [of "fd_book f" m] map_side.rep_apply [of "fd_book g" m]
    by (simp add: feed_sim_def feed_view_def l2_update_def)
  have e: "apply_level impl msg l f = (if ticks (lu_price l) < 0 \<or> units (lu_qty l) < 0
      then record_rejected_level msg l ?f1 else ?f1)"
    "apply_level map_impl msg l g = (if ticks (lu_price l) < 0 \<or> units (lu_qty l) < 0
      then record_rejected_level msg l ?g1 else ?g1)"
    by (auto simp: apply_level_def book_apply_def Let_def)
  show ?thesis
    unfolding e record_rejected_level_def
    using s sim_same [OF s] by (auto intro!: sim_feed_log sim_update_fields)
qed

lemma sim_apply_all:
  assumes "feed_sim holds f g m" "\<forall>l \<in> set ls. i64 (ticks (lu_price l)) \<and> i64 (units (lu_qty l))"
  shows "feed_sim holds (fold (apply_level impl msg) ls f) (fold (apply_level map_impl msg) ls g)
     (fold l2_update ls m)"
  using assms by (induction ls arbitrary: f g m) (auto intro!: sim_apply_level)

lemma sim_apply_levels:
  assumes "feed_sim holds f g m" "message_ok msg"
  shows "\<exists>f' g'. apply_levels impl msg f = Some f' \<and> apply_levels map_impl msg g = Some g' \<and>
     feed_sim holds f' g' (l2_message msg (fd_depth f) m)"
proof -
  let ?f1 = "fold (apply_level impl msg) (dm_levels msg) f"
  let ?g1 = "fold (apply_level map_impl msg) (dm_levels msg) g"
  let ?m = "fold l2_update (dm_levels msg) m"
  have s: "feed_sim holds ?f1 ?g1 ?m"
    using sim_apply_all [OF assms(1)] assms(2) by (simp add: message_ok_def)
  have d: "fd_depth ?g1 = fd_depth ?f1" "fd_depth ?f1 = fd_depth f"
    using sim_same(4) [OF s] by simp_all
  obtain b where b: "book_trim impl (fd_depth ?f1) (fd_book ?f1) = Some
       (if fd_depth ?f1 = 0 then 0 else (length (?m Bid) - fd_depth ?f1) + (length (?m Ask) - fd_depth ?f1), b)"
     "book_rep holds b (l2_trim_side Ask (fd_depth ?f1) (l2_trim_side Bid (fd_depth ?f1) ?m))"
     "bk_spec b = bk_spec (fd_book ?f1)"
    using rep_trim [of "fd_book ?f1" ?m "fd_depth ?f1"] s by (auto simp: feed_sim_def)
  obtain c where c: "book_trim map_impl (fd_depth ?f1) (fd_book ?g1) = Some
       (if fd_depth ?f1 = 0 then 0 else (length (?m Bid) - fd_depth ?f1) + (length (?m Ask) - fd_depth ?f1), c)"
     "book_rep map_holds c (l2_trim_side Ask (fd_depth ?f1) (l2_trim_side Bid (fd_depth ?f1) ?m))"
     "bk_spec c = bk_spec (fd_book ?g1)"
    using map_side.rep_trim [of "fd_book ?g1" ?m "fd_depth ?f1"] s by (auto simp: feed_sim_def)
  show ?thesis
    using b c s d
    by (simp add: apply_levels_def Let_def feed_sim_def feed_view_def set_last_update_def
        book_rep_def l2_message_def)
qed

lemma sim_checksum:
  assumes "feed_sim holds f g m"
  shows "kraken_checksum_payload impl (fd_book f) = kraken_checksum_payload map_impl (fd_book g)"
    and "kraken_checksum impl (fd_book f) = kraken_checksum map_impl (fd_book g)"
proof -
  show "kraken_checksum_payload impl (fd_book f) = kraken_checksum_payload map_impl (fd_book g)"
    using assms rep_levels [of "fd_book f" m] map_side.rep_levels [of "fd_book g" m]
    by (simp add: payload_levels feed_sim_def)
  then show "kraken_checksum impl (fd_book f) = kraken_checksum map_impl (fd_book g)"
    by (simp add: kraken_checksum_def)
qed

lemma sim_verify:
  assumes "feed_sim holds f g m"
  shows "feed_sim holds (snd (verify_checksum impl msg f)) (snd (verify_checksum map_impl msg g)) m"
proof -
  let ?f = "f\<lparr>fd_stats := (fd_stats f)\<lparr>fs_checksums_verified := fs_checksums_verified (fd_stats f) + 1\<rparr>\<rparr>"
  let ?g = "g\<lparr>fd_stats := (fd_stats g)\<lparr>fs_checksums_verified := fs_checksums_verified (fd_stats g) + 1\<rparr>\<rparr>"
  have s: "feed_sim holds ?f ?g m"
    using sim_update_fields(1) [OF assms] sim_same(6) [OF assms] by simp
  let ?f2 = "?f\<lparr>fd_stats := (fd_stats ?f)\<lparr>fs_checksum_mismatches := fs_checksum_mismatches (fd_stats ?f) + 1\<rparr>\<rparr>"
  let ?g2 = "?g\<lparr>fd_stats := (fd_stats ?g)\<lparr>fs_checksum_mismatches := fs_checksum_mismatches (fd_stats ?g) + 1\<rparr>\<rparr>"
  have s2: "feed_sim holds ?f2 ?g2 m"
    using sim_update_fields(1) [OF s] sim_same(6) [OF s] by simp
  have ok: "feed_sim holds (?f\<lparr>fd_log := log_record_verified (fd_log ?f)\<rparr>)
      (?g\<lparr>fd_log := log_record_verified (fd_log ?g)\<rparr>) m"
    using sim_update_fields(4) [OF s] sim_same(5) [OF s] by simp
  note c = sim_checksum [OF s] sim_checksum [OF s2]
  show ?thesis
    unfolding verify_checksum_def Let_def
    using ok sim_feed_log [OF s2] sim_same(1) [OF s2] c by auto
qed

lemma sim_verified_status:
  assumes "feed_sim holds f g m"
  shows "fst (verified_status impl msg f) = fst (verified_status map_impl msg g)"
    and "feed_sim holds (snd (verified_status impl msg f)) (snd (verified_status map_impl msg g)) m"
proof -
  show "fst (verified_status impl msg f) = fst (verified_status map_impl msg g)"
    using sim_checksum(2) [OF assms] by simp
  have e: "snd (verified_status I msg h) =
      (if dm_has_checksum msg then
         (if kraken_checksum I (fd_book h) = dm_checksum msg then snd (verify_checksum I msg h)
          else snd (request_resync (snd (verify_checksum I msg h))))
       else h)" for I and h :: "('x, 'y) feed"
    using verify_checksum_fields(1) [of I msg h]
    by (cases "verify_checksum I msg h") (auto simp: verified_status_def)
  show "feed_sim holds (snd (verified_status impl msg f)) (snd (verified_status map_impl msg g)) m"
    unfolding e using assms sim_verify [OF assms] sim_request_resync [OF sim_verify [OF assms]]
      sim_checksum(2) [OF assms] by simp
qed

lemma sim_clear:
  assumes "feed_sim holds f g m"
  shows "feed_sim holds (f\<lparr>fd_book := book_clear impl (fd_book f)\<rparr>)
     (g\<lparr>fd_book := book_clear map_impl (fd_book g)\<rparr>) (\<lambda>s. [])"
  using assms rep_clear [of "fd_book f" m] map_side.rep_clear [of "fd_book g" m]
  by (simp add: feed_sim_def feed_view_def book_clear_def)

lemma sim_rejected_message:
  assumes "feed_sim holds f g m"
  shows "feed_sim holds (feed_log (divergence k (fd_venue f) sy ts q a b txt) (count_rejected f))
     (feed_log (divergence k (fd_venue g) sy ts q a b txt) (count_rejected g)) m"
  using sim_feed_log [OF sim_counts(3) [OF assms]] sim_same(1) [OF assms] by simp

text \<open>Two handlers in step: both answer, with the same status and related feeds.\<close>

definition in_step ::
    "(feed_status \<times> ('s, 'd) feed) option \<Rightarrow> (feed_status \<times> (map_side, 'd) feed) option \<Rightarrow> bool" where
  "in_step r r' \<longleftrightarrow>
     (\<exists>st f g m. r = Some (st, f) \<and> r' = Some (st, g) \<and> feed_sim holds f g m)"

lemma sim_finish:
  assumes "feed_sim holds f g m"
  shows "in_step (Some (verified_status impl msg f)) (Some (verified_status map_impl msg g))"
  unfolding in_step_def
  using sim_verified_status [OF assms, of msg]
  by (metis prod.collapse)

lemma sim_snapshot:
  assumes "feed_sim holds f g m" "message_ok msg"
  shows "in_step (apply_snapshot_message impl msg f) (apply_snapshot_message map_impl msg g)"
proof (cases "dm_ok msg")
  case False
  then show ?thesis
    using sim_rejected_message [OF assms(1)] sim_same(9) [OF assms(1)]
    by (simp add: apply_snapshot_message_def in_step_def) blast
next
  case True
  obtain f1 g1 where a: "apply_levels impl msg (f\<lparr>fd_book := book_clear impl (fd_book f)\<rparr>) = Some f1"
      "apply_levels map_impl msg (g\<lparr>fd_book := book_clear map_impl (fd_book g)\<rparr>) = Some g1"
      and s: "feed_sim holds f1 g1 (l2_message msg (fd_depth f) (\<lambda>s. []))"
    using sim_apply_levels [OF sim_clear [OF assms(1)] assms(2)] by auto
  let ?f2 = "if dm_has_ids msg
      then f1\<lparr>fd_tracker := on_snapshot (final_id (dm_ids msg)) (fd_tracker f1)\<rparr> else f1"
  let ?g2 = "if dm_has_ids msg
      then g1\<lparr>fd_tracker := on_snapshot (final_id (dm_ids msg)) (fd_tracker g1)\<rparr> else g1"
  have s2: "feed_sim holds ?f2 ?g2 (l2_message msg (fd_depth f) (\<lambda>s. []))"
    using s sim_update_fields(2) [OF s] sim_same(3) [OF s] by simp
  have s3: "feed_sim holds (?f2\<lparr>fd_synced := True,
        fd_stats := (fd_stats ?f2)\<lparr>fs_snapshots_applied := fs_snapshots_applied (fd_stats ?f2) + 1\<rparr>\<rparr>)
      (?g2\<lparr>fd_synced := True,
        fd_stats := (fd_stats ?g2)\<lparr>fs_snapshots_applied := fs_snapshots_applied (fd_stats ?g2) + 1\<rparr>\<rparr>)
      (l2_message msg (fd_depth f) (\<lambda>s. []))"
    using sim_update_fields(1) [OF sim_update_fields(3) [OF s2]] sim_same(6) [OF s2] by simp
  show ?thesis
    using sim_finish [OF sim_counts(1) [OF s3]] True a
    by (simp add: apply_snapshot_message_def Let_def)
qed

lemma sim_continue:
  assumes "feed_sim holds f g m" "message_ok msg"
  shows "in_step (case apply_levels impl msg f of None \<Rightarrow> None
      | Some f1 \<Rightarrow> Some (verified_status impl msg (count_applied f1)))
    (case apply_levels map_impl msg g of None \<Rightarrow> None
      | Some f1 \<Rightarrow> Some (verified_status map_impl msg (count_applied f1)))"
  using sim_apply_levels [OF assms] sim_finish [OF sim_counts(1)] by auto

lemma sim_update:
  assumes "feed_sim holds f g m" "message_ok msg"
  shows "in_step (apply_update_message impl msg f) (apply_update_message map_impl msg g)"
proof -
  note same = sim_same [OF assms(1)]
  obtain a t where at: "on_update (dm_ids msg) (fd_tracker g) = (a, t)"
    by (cases "on_update (dm_ids msg) (fd_tracker g)")
  have s: "feed_sim holds (f\<lparr>fd_tracker := t\<rparr>) (g\<lparr>fd_tracker := t\<rparr>) m"
    using sim_update_fields(2) [OF assms(1)] .
  consider "\<not> fd_synced g" | "fd_synced g" "\<not> dm_has_ids msg" | "fd_synced g" "dm_has_ids msg" by blast
  then show ?thesis
  proof cases
    case 1
    then show ?thesis using assms(1) same by (auto simp: apply_update_message_def in_step_def)
  next
    case 2
    then show ?thesis using sim_continue [OF assms] same by (simp add: apply_update_message_def Let_def)
  next
    case 3
    show ?thesis
    proof (cases a)
      case Apply
      then show ?thesis
        using 3 at same sim_continue [OF s assms(2)] by (simp add: apply_update_message_def Let_def)
    next
      case DiscardStale
      then show ?thesis
        using 3 at same sim_counts(2) [OF s] by (auto simp: apply_update_message_def Let_def in_step_def)
    next
      case ResyncRequired
      then show ?thesis
        using 3 at same sim_request_resync [OF sim_feed_log [OF s]] sim_same(1) [OF s]
        by (auto simp: apply_update_message_def Let_def in_step_def request_resync_def)
    qed
  qed
qed

lemma sim_handle:
  assumes "feed_sim holds f g m" "decoder_ok D"
  shows "in_step (handle impl D frame f) (handle map_impl D frame g)"
proof -
  note same = sim_same [OF assms(1)]
  obtain msg d where md: "dec_decode D frame (fd_decoder g) = (msg, d)"
    by (cases "dec_decode D frame (fd_decoder g)")
  have ok: "message_ok msg" using assms(2) md unfolding decoder_ok_def by (metis fst_conv)
  let ?f1 = "f\<lparr>fd_stats := (fd_stats f)\<lparr>fs_frames := fs_frames (fd_stats f) + 1\<rparr>, fd_decoder := d\<rparr>"
  let ?g1 = "g\<lparr>fd_stats := (fd_stats g)\<lparr>fs_frames := fs_frames (fd_stats g) + 1\<rparr>, fd_decoder := d\<rparr>"
  have s: "feed_sim holds ?f1 ?g1 m"
    using sim_update_fields(5) [OF sim_update_fields(1) [OF assms(1)]] same(6) by simp
  let ?f2 = "?f1\<lparr>fd_stats := (fd_stats ?f1)\<lparr>fs_venue_errors := fs_venue_errors (fd_stats ?f1) + 1\<rparr>\<rparr>"
  let ?g2 = "?g1\<lparr>fd_stats := (fd_stats ?g1)\<lparr>fs_venue_errors := fs_venue_errors (fd_stats ?g1) + 1\<rparr>\<rparr>"
  have s2: "feed_sim holds ?f2 ?g2 m"
    using sim_update_fields(1) [OF s] sim_same(6) [OF s] by simp
  show ?thesis
  proof (cases "dm_ok msg")
    case False
    then show ?thesis
      using sim_rejected_message [OF s] md same sim_same(1) [OF s]
      by (simp add: handle_def Let_def in_step_def) blast
  next
    case True
    show ?thesis
    proof (cases "dm_kind msg")
      case KindIgnored
      then show ?thesis
        using True md same sim_counts(2) [OF s] by (auto simp: handle_def Let_def in_step_def)
    next
      case KindSnapshot
      then show ?thesis using True md same sim_snapshot [OF s ok] by (simp add: handle_def Let_def)
    next
      case KindUpdate
      then show ?thesis using True md same sim_update [OF s ok] by (simp add: handle_def Let_def)
    next
      case KindVenueError
      then show ?thesis
        using True md same sim_rejected_message [OF s2] sim_same(1,9) [OF s2]
        by (simp add: handle_def Let_def in_step_def) blast
    qed
  qed
qed

lemma sim_new:
  "feed_sim holds (feed_new impl D venue d policy n) (feed_new map_impl D venue d policy n) (\<lambda>s. [])"
  using rep_new [of "dec_spec D d"] map_side.rep_new [of "dec_spec D d"]
  by (simp add: feed_sim_def feed_view_def feed_new_def l2_book_new_def)

lemma sim_handle_all:
  assumes "feed_sim holds f g m" "decoder_ok D"
  shows "\<exists>sts f' g' m'. handle_all impl D frames f = Some (sts, f') \<and>
     handle_all map_impl D frames g = Some (sts, g') \<and> feed_sim holds f' g' m'"
  using assms(1)
proof (induction frames arbitrary: f g m)
  case (Cons frame frames)
  obtain st f1 g1 m1 where h: "handle impl D frame f = Some (st, f1)"
      "handle map_impl D frame g = Some (st, g1)" "feed_sim holds f1 g1 m1"
    using sim_handle [OF Cons.prems assms(2), of frame] unfolding in_step_def by blast
  from Cons.IH [OF h(3)] h(1,2) show ?case by auto
qed auto

lemma rep_apply_levels:
  assumes "book_rep holds (fd_book f) m" "message_ok msg"
  shows "\<exists>f'. apply_levels impl msg f = Some f' \<and>
     book_rep holds (fd_book f') (l2_message msg (fd_depth f) m)"
proof -
  have "book_rep holds (fd_book (fold (apply_level impl msg) ls f)) (fold l2_update ls m)"
    if "book_rep holds (fd_book f) m" "\<forall>l \<in> set ls. i64 (ticks (lu_price l)) \<and> i64 (units (lu_qty l))"
    for f :: "('s, 'b) feed" and m ls
    using that
  proof (induction ls arbitrary: f m)
    case (Cons l ls)
    have "book_rep holds (fd_book (apply_level impl msg l f)) (l2_update l m)"
      using Cons.prems by (auto simp: l2_update_def intro!: rep_apply)
    then show ?case using Cons by simp
  qed simp
  then have r: "book_rep holds (fd_book (fold (apply_level impl msg) (dm_levels msg) f))
      (fold l2_update (dm_levels msg) m)"
    using assms by (simp add: message_ok_def)
  show ?thesis
    using rep_trim [OF r, of "fd_depth f"]
    by (auto simp: apply_levels_def Let_def set_last_update_def book_rep_def l2_message_def)
qed

lemma rep_snapshot:
  assumes "book_rep holds (fd_book f) m" "message_ok msg" "dm_ok msg"
  shows "\<exists>st f'. apply_snapshot_message impl msg f = Some (st, f') \<and>
     book_rep holds (fd_book f') (l2_message msg (fd_depth f) (\<lambda>s. []))"
proof -
  let ?f = "f\<lparr>fd_book := book_clear impl (fd_book f)\<rparr>"
  obtain f1 where f1: "apply_levels impl msg ?f = Some f1"
      "book_rep holds (fd_book f1) (l2_message msg (fd_depth f) (\<lambda>s. []))"
    using rep_apply_levels [of ?f "\<lambda>s. []" msg] rep_clear [OF assms(1)] assms(2) by auto
  let ?f2 = "if dm_has_ids msg
      then f1\<lparr>fd_tracker := on_snapshot (final_id (dm_ids msg)) (fd_tracker f1)\<rparr> else f1"
  let ?f3 = "count_applied (?f2\<lparr>fd_synced := True,
      fd_stats := (fd_stats ?f2)\<lparr>fs_snapshots_applied := fs_snapshots_applied (fd_stats ?f2) + 1\<rparr>\<rparr>)"
  have "apply_snapshot_message impl msg f = Some (verified_status impl msg ?f3)"
    using f1(1) assms(3) by (simp add: apply_snapshot_message_def Let_def)
  then show ?thesis
    using f1(2) verified_status_fields(1) [of impl msg ?f3]
    by (cases "verified_status impl msg ?f3") auto
qed

end

text \<open>
  C20: The feed does not depend on the container, and every handler returns.  A feed over the array
  book and a feed over the reference book that start new and see the same frames, through the same
  decoder, both answer every frame, with the same statuses, and end with the same log, statistics,
  tracker, sync flag and time stamps and the same levels on both sides.
\<close>

theorem feeds_agree:
  assumes "decoder_ok D"
  shows "\<exists>sts a b.
     handle_all (array_impl kDefaultSlots) D frames
       (feed_new (array_impl kDefaultSlots) D venue d policy n) = Some (sts, a) \<and>
     handle_all map_impl D frames (feed_new map_impl D venue d policy n) = Some (sts, b) \<and>
     feed_view a = feed_view b \<and>
     (\<forall>s. si_levels (array_impl kDefaultSlots) (book_side_of s (fd_book a)) =
        si_levels map_impl (book_side_of s (fd_book b)))"
proof -
  obtain sts a b m where r:
    "handle_all (array_impl kDefaultSlots) D frames
       (feed_new (array_impl kDefaultSlots) D venue d policy n) = Some (sts, a)"
    "handle_all map_impl D frames (feed_new map_impl D venue d policy n) = Some (sts, b)"
    "feed_sim array_holds a b m"
    using array_side.sim_handle_all [OF array_side.sim_new assms] by blast
  then show ?thesis
    using array_side.rep_levels [of "fd_book a" m] map_side.rep_levels [of "fd_book b" m]
    by (auto simp: feed_sim_def)
qed

text \<open>A decoder that knows two frames, for the witnesses.\<close>

definition sample_message :: "message_kind \<Rightarrow> u64 \<Rightarrow> level_update list \<Rightarrow> decoded_message" where
  "sample_message k n ls = decoded_message_reset
     \<lparr>dm_kind := k, dm_ts := 5, dm_ids := \<lparr>first_id = n, final_id = n, prev_id = n - 1\<rparr>,
      dm_has_ids := True, dm_levels := ls\<rparr>"

definition sample_decoder :: "unit decoder" where
  "sample_decoder =
     \<lparr>dec_decode = (\<lambda>frame d.
        (if frame = ''snapshot'' then
           sample_message KindSnapshot 7 [level_update Bid (Price 9) (Qty 1), level_update Ask (Price 11) (Qty 2)]
         else if frame = ''update'' then sample_message KindUpdate 8 [level_update Bid (Price 9) (Qty 0)]
         else if frame = ''gap'' then sample_message KindUpdate 20 []
         else decoded_message_reset, d)),
      dec_spec = (\<lambda>d. sample_spec)\<rparr>"

lemma sample_decoder_ok: "decoder_ok sample_decoder"
  by (simp add: decoder_ok_def sample_decoder_def message_ok_def sample_message_def level_update_def
      decoded_message_reset_def int_limits)

lemma feeds_agree_witness:
  "\<exists>sts a b.
     handle_all (array_impl kDefaultSlots) sample_decoder [''snapshot'', ''update'', ''gap'']
       (feed_new (array_impl kDefaultSlots) sample_decoder ''venue'' () BinanceSpot 10) = Some (sts, a) \<and>
     handle_all map_impl sample_decoder [''snapshot'', ''update'', ''gap'']
       (feed_new map_impl sample_decoder ''venue'' () BinanceSpot 10) = Some (sts, b) \<and>
     feed_view a = feed_view b"
  using feeds_agree [OF sample_decoder_ok] by blast

definition sample_feed :: "(map_side, unit) feed" where
  "sample_feed = feed_new map_impl sample_decoder ''venue'' () BinanceSpot 0"

definition feed_after :: "string list \<Rightarrow> (map_side, unit) feed" where
  "feed_after frames = snd (the (handle_all map_impl sample_decoder frames sample_feed))"

lemma status_tells_the_truth_witness:
  "\<exists>f'. handle map_impl sample_decoder ''gap'' (feed_after [''snapshot'']) = Some (FeedNeedsSnapshot, f') \<and>
     \<not> fd_synced f'"
proof -
  obtain st f' where h: "handle map_impl sample_decoder ''gap'' (feed_after [''snapshot'']) = Some (st, f')"
      and st: "st = FeedNeedsSnapshot"
  proof -
    have "map_option fst (handle map_impl sample_decoder ''gap'' (feed_after [''snapshot''])) =
        Some FeedNeedsSnapshot" by code_simp
    then show thesis using that by (auto simp: map_option_case split: option.splits)
  qed
  from status_tells_the_truth [OF h] h st show ?thesis by blast
qed

lemma unsynced_book_is_frozen_witness:
  "\<exists>sts f'. handle_all map_impl sample_decoder [''update'', ''gap''] sample_feed = Some (sts, f') \<and>
     fd_book f' = fd_book sample_feed \<and> FeedApplied \<notin> set sts"
proof -
  have n: "\<forall>frame \<in> set [''update'', ''gap'']. no_snapshot sample_decoder frame"
    by (simp add: no_snapshot_def sample_decoder_def sample_message_def decoded_message_reset_def)
  have u: "\<not> fd_synced sample_feed" by (simp add: sample_feed_def feed_new_def)
  obtain sts f' where h: "handle_all map_impl sample_decoder [''update'', ''gap''] sample_feed = Some (sts, f')"
    using map_side.sim_handle_all [OF map_side.sim_new sample_decoder_ok] unfolding sample_feed_def by blast
  from unsynced_book_is_frozen [OF h u n] h show ?thesis by blast
qed

section \<open>Snapshots replace\<close>

text \<open>
  A snapshot is a replacement, never a merge.  On a feed whose array book stands for any contents
  at all, a well-formed snapshot leaves exactly the levels obtained by applying the message to an
  empty book and trimming to the subscribed depth: no level of the old book survives.
\<close>

theorem snapshot_replaces:
  assumes "book_rep array_holds (fd_book f) m" "message_ok msg" "dm_ok msg"
  shows "\<exists>st f'. apply_snapshot_message (array_impl kDefaultSlots) msg f = Some (st, f') \<and>
     (\<forall>s. si_levels (array_impl kDefaultSlots) (book_side_of s (fd_book f')) =
        depth (l2_message msg (fd_depth f) (\<lambda>s. [])) s)"
  using array_side.rep_snapshot [OF assms] array_side.rep_levels by blast

lemma snapshot_replaces_witness:
  "\<exists>st f'. apply_snapshot_message (array_impl kDefaultSlots)
       (sample_message KindSnapshot 7 [level_update Bid (Price 9) (Qty 1)])
       (feed_new (array_impl kDefaultSlots) sample_decoder ''venue'' () BinanceSpot 10) = Some (st, f') \<and>
     si_levels (array_impl kDefaultSlots) (book_side_of Bid (fd_book f')) = [Level (Price 9) (Qty 1)]"
proof -
  let ?msg = "sample_message KindSnapshot 7 [level_update Bid (Price 9) (Qty 1)]"
  let ?f = "feed_new (array_impl kDefaultSlots) sample_decoder ''venue'' () BinanceSpot 10"
  have "book_rep array_holds (fd_book ?f) (\<lambda>s. [])"
    using array_side.rep_new by (simp add: feed_new_def)
  moreover have "message_ok ?msg" "dm_ok ?msg"
    by (simp_all add: message_ok_def dm_ok_def sample_message_def level_update_def
        decoded_message_reset_def int_limits)
  moreover have "depth (l2_message ?msg 10 (\<lambda>s. [])) Bid = [Level (Price 9) (Qty 1)]" by code_simp
  moreover have "fd_depth ?f = 10" by (simp add: feed_new_def)
  ultimately show ?thesis using snapshot_replaces [of ?f "\<lambda>s. []" ?msg] by metis
qed

section \<open>Nothing is silent\<close>

lemma apply_level_log: "\<exists>ds. fd_log (apply_level impl msg l f) = fold log_record ds (fd_log f)"
proof (cases "fst (book_apply impl (lu_side l) (lu_price l) (lu_qty l) (fd_book f))")
  case True
  then have "fd_log (apply_level impl msg l f) = fold log_record [] (fd_log f)"
    by (simp add: apply_level_def case_prod_unfold Let_def)
  then show ?thesis by blast
next
  case False
  then have "\<exists>d. fd_log (apply_level impl msg l f) = fold log_record [d] (fd_log f)"
    by (auto simp: apply_level_def case_prod_unfold Let_def record_rejected_level_def)
  then show ?thesis by blast
qed

lemma apply_all_log: "\<exists>ds. fd_log (fold (apply_level impl msg) ls f) = fold log_record ds (fd_log f)"
proof (induction ls arbitrary: f)
  case Nil
  have "fd_log f = fold log_record [] (fd_log f)" by simp
  then show ?case by (metis fold_simps(1))
next
  case (Cons l ls)
  obtain ds where d: "fd_log (apply_level impl msg l f) = fold log_record ds (fd_log f)"
    using apply_level_log by blast
  obtain es where "fd_log (fold (apply_level impl msg) ls (apply_level impl msg l f)) =
      fold log_record es (fd_log (apply_level impl msg l f))"
    using Cons.IH by blast
  then have "fd_log (fold (apply_level impl msg) (l # ls) f) = fold log_record (ds @ es) (fd_log f)"
    by (simp add: d)
  then show ?case by blast
qed

lemma apply_levels_log:
  "apply_levels impl msg f = Some f' \<Longrightarrow> \<exists>ds. fd_log f' = fold log_record ds (fd_log f)"
  using apply_all_log [of impl msg "dm_levels msg" f]
  by (auto simp: apply_levels_def Let_def split: option.splits prod.splits)

lemma rejection_recorded:
  "f' = feed_log (divergence k v s ts q e a txt) g \<Longrightarrow> fd_log g = fd_log f \<Longrightarrow> k \<in> ks \<Longrightarrow>
     \<exists>d. fd_log f' = log_record d (fd_log f) \<and> dv_kind d \<in> ks"
  by (rule exI [of _ "divergence k v s ts q e a txt"]) (simp add: divergence_def)

definition recorded_last :: "divergence_kind set \<Rightarrow> ('s, 'd) feed \<Rightarrow> ('s, 'd) feed \<Rightarrow> bool" where
  "recorded_last ks f f' \<longleftrightarrow>
     (\<exists>ds d. fd_log f' = fold log_record (ds @ [d]) (fd_log f) \<and> dv_kind d \<in> ks)"

lemma recorded_lastI:
  "fd_log f' = log_record d (fold log_record ds (fd_log f)) \<Longrightarrow> dv_kind d \<in> ks \<Longrightarrow> recorded_last ks f f'"
  unfolding recorded_last_def by (intro exI [of _ ds] exI [of _ d]) simp

lemma divergence_kind_of [simp]: "dv_kind (divergence k v s ts q e a txt) = k"
  by (simp add: divergence_def)

lemma mismatch_recorded:
  assumes "verified_status impl msg f = (FeedNeedsSnapshot, f')"
  shows "\<exists>d. fd_log f' = log_record d (fd_log f) \<and> dv_kind d = ChecksumMismatch"
proof -
  have c: "dm_has_checksum msg" "kraken_checksum impl (fd_book f) \<noteq> dm_checksum msg"
    using verified_status_fields(3) [of impl msg f] assms by (auto split: if_splits)
  then show ?thesis
    using assms by (auto simp: verified_status_def verify_checksum_def Let_def request_resync_def)
qed

lemma verified_recorded:
  assumes "apply_levels impl msg g = Some f1" "fd_log g = fd_log f" "fd_log f3 = fd_log f1"
    "verified_status impl msg f3 = (FeedNeedsSnapshot, f')"
  shows "recorded_last {SequenceGap, ChecksumMismatch} f f'"
proof -
  obtain ds where "fd_log f1 = fold log_record ds (fd_log f)"
    using apply_levels_log [OF assms(1)] assms(2) by auto
  moreover obtain d where "fd_log f' = log_record d (fd_log f3)" "dv_kind d = ChecksumMismatch"
    using mismatch_recorded [OF assms(4)] by blast
  ultimately show ?thesis using assms(3) by (intro recorded_lastI [of _ d ds]) simp_all
qed

text \<open>
  No trouble is silent.  A rejected frame always adds exactly one divergence of a rejection kind to
  the log; a frame that makes a feed ask for a snapshot adds, as its last divergence, a sequence
  gap or a checksum mismatch, unless the feed was already unsynced and nothing at all was logged.
\<close>

theorem trouble_is_recorded:
  assumes "handle impl D frame f = Some (st, f')"
  shows "(st = FeedRejected \<longrightarrow>
       (\<exists>d. fd_log f' = log_record d (fd_log f) \<and> dv_kind d \<in> {PrecisionLoss, MalformedMessage, VenueError})) \<and>
     (st = FeedNeedsSnapshot \<longrightarrow>
       (\<exists>ds d. fd_log f' = fold log_record (ds @ [d]) (fd_log f) \<and> dv_kind d \<in> {SequenceGap, ChecksumMismatch}) \<or>
       \<not> fd_synced f \<and> fd_log f' = fd_log f)"
proof -
  obtain msg d where md: "dec_decode D frame (fd_decoder f) = (msg, d)" by (cases "dec_decode D frame (fd_decoder f)")
  let ?f1 = "f\<lparr>fd_stats := (fd_stats f)\<lparr>fs_frames := fs_frames (fd_stats f) + 1\<rparr>, fd_decoder := d\<rparr>"
  have status: "verified_status impl msg g = (s, g') \<Longrightarrow> s \<noteq> FeedRejected \<and> s \<noteq> FeedIgnored" for g g' s
    using verified_status_fields(3) [of impl msg g] by (auto split: if_splits)
  have snap: "st \<noteq> FeedRejected \<and> (st = FeedNeedsSnapshot \<longrightarrow> recorded_last {SequenceGap, ChecksumMismatch} f f')"
    if h: "apply_snapshot_message impl msg ?f1 = Some (st, f')" and ok: "dm_ok msg"
  proof -
    obtain g1 where g1: "apply_levels impl msg (?f1\<lparr>fd_book := book_clear impl (fd_book ?f1)\<rparr>) = Some g1"
      using h ok by (auto simp: apply_snapshot_message_def split: option.splits)
    let ?g2 = "if dm_has_ids msg
        then g1\<lparr>fd_tracker := on_snapshot (final_id (dm_ids msg)) (fd_tracker g1)\<rparr> else g1"
    let ?f3 = "count_applied (?g2\<lparr>fd_synced := True,
        fd_stats := (fd_stats ?g2)\<lparr>fs_snapshots_applied := fs_snapshots_applied (fd_stats ?g2) + 1\<rparr>\<rparr>)"
    have f3: "fd_log ?f3 = fd_log g1" "verified_status impl msg ?f3 = (st, f')"
      using h ok g1 by (simp_all add: apply_snapshot_message_def Let_def)
    show ?thesis
      using verified_recorded [OF g1 _ f3(1), of f f'] f3(2) status by auto
  qed
  have cont: "st \<noteq> FeedRejected \<and> (st = FeedNeedsSnapshot \<longrightarrow> recorded_last {SequenceGap, ChecksumMismatch} f f')"
    if go: "(case apply_levels impl msg g of None \<Rightarrow> None
        | Some f1 \<Rightarrow> Some (verified_status impl msg (count_applied f1))) = Some (st, f')"
      and lg: "fd_log g = fd_log f" for g
  proof -
    obtain g1 where g1: "apply_levels impl msg g = Some g1" "verified_status impl msg (count_applied g1) = (st, f')"
      using go by (cases "apply_levels impl msg g") simp_all
    show ?thesis using verified_recorded [OF g1(1) lg, of "count_applied g1" f'] g1(2) status by auto
  qed
  show ?thesis
  proof (cases "dm_ok msg")
    case False
    let ?g = "count_rejected ?f1"
    let ?k = "if dm_error msg = DecodePrecisionLoss \<or> dm_error msg = DecodeNonCanonical
      then PrecisionLoss else MalformedMessage"
    have "st = FeedRejected" and f': "f' = feed_log (divergence ?k (fd_venue ?f1) (dm_symbol msg) (dm_ts msg)
        (final_id (dm_ids msg)) 0 0 (token_or (decode_error_string (dm_error msg)) msg)) ?g"
      using assms md False by (simp_all add: handle_def Let_def)
    with rejection_recorded [OF f', of f "{PrecisionLoss, MalformedMessage, VenueError}"] show ?thesis by simp
  next
    case ok: True
    show ?thesis
    proof (cases "dm_kind msg")
      case KindSnapshot
      then show ?thesis using assms md ok snap by (auto simp: handle_def Let_def recorded_last_def)
    next
      case KindUpdate
      then have h: "apply_update_message impl msg ?f1 = Some (st, f')"
        using assms md ok by (simp add: handle_def Let_def)
      show ?thesis
      proof (cases "fd_synced f \<and> \<not> (dm_has_ids msg \<and> fst (on_update (dm_ids msg) (fd_tracker f)) \<noteq> Apply)")
        case True
        then show ?thesis
          using h cont [of ?f1] cont [of "?f1\<lparr>fd_tracker := snd (on_update (dm_ids msg) (fd_tracker f))\<rparr>"]
          by (auto simp: apply_update_message_def Let_def recorded_last_def split: if_splits prod.splits)
      next
        case False
        then show ?thesis
          using h
          by (auto simp: apply_update_message_def Let_def request_resync_def recorded_last_def
              intro!: exI [of _ "[]"] split: if_splits prod.splits sequence_action.splits)
      qed
    next
      case KindVenueError
      let ?f2 = "?f1\<lparr>fd_stats := (fd_stats ?f1)\<lparr>fs_venue_errors := fs_venue_errors (fd_stats ?f1) + 1\<rparr>\<rparr>"
      have "st = FeedRejected" and f': "f' = feed_log (divergence VenueError (fd_venue ?f2) (feed_symbol ?f2)
          (dm_ts msg) (final_id (dm_ids msg)) 0 0 (token_or ''venue reported an error'' msg)) (count_rejected ?f2)"
        using assms md ok KindVenueError by (simp_all add: handle_def Let_def)
      with rejection_recorded [OF f', of f "{PrecisionLoss, MalformedMessage, VenueError}"] show ?thesis by simp
    qed (use assms md ok in \<open>simp add: handle_def Let_def\<close>)
  qed
qed

lemma trouble_is_recorded_witness:
  "\<exists>f'. handle map_impl sample_decoder ''gap'' (feed_after [''snapshot'']) = Some (FeedNeedsSnapshot, f') \<and>
     (\<exists>ds d. fd_log f' = fold log_record (ds @ [d]) (fd_log (feed_after [''snapshot''])))"
proof -
  have "map_option fst (handle map_impl sample_decoder ''gap'' (feed_after [''snapshot''])) =
      Some FeedNeedsSnapshot" by code_simp
  then obtain f' where h: "handle map_impl sample_decoder ''gap'' (feed_after [''snapshot'']) = Some (FeedNeedsSnapshot, f')"
    by (auto simp: map_option_case split: option.splits)
  have "fd_synced (feed_after [''snapshot''])" by code_simp
  with trouble_is_recorded [OF h] h show ?thesis by blast
qed

end
