(* ===== verification/L3_Table.thy ===== *)
theory L3_Table
  imports Types
begin

text \<open>
  The order index of \<open>include/crossbook/l3.hpp\<close>: an open-addressed hash table from order identifiers to
  arena references, with linear probing, tombstones and doubling at 70% load.

  The table is the list of its slots; a position is a \<open>nat\<close>, masked as the code masks it.  The two
  unbounded probes of the code (\<open>while (table_[i].occupied)\<close>) carry the number of slots as fuel: a
  probe that passes every slot of the table and still sees only occupied ones would go round for ever,
  and is \<open>None\<close>.  \<open>holds_index\<close> states what the table promises, and the interpretation of
  \<open>id_index\<close> shows that every probe ends and every lookup is exact.
\<close>

unbundle bit_operations_syntax

section \<open>References and slots\<close>

type_synonym order_id = u64

definition kNoOrder :: nat where "kNoOrder = 4294967295"

record slot =
  sl_id :: order_id
  sl_ref :: nat
  sl_occupied :: bool
  sl_tombstone :: bool

definition slot0 :: slot where
  "slot0 = \<lparr>sl_id = 0, sl_ref = kNoOrder, sl_occupied = False, sl_tombstone = False\<rparr>"

record index =
  ix_table :: "slot list"
  ix_used :: nat

section \<open>Probing\<close>

function pow2_from :: "nat \<Rightarrow> nat \<Rightarrow> nat" where
  "pow2_from n p = (if 0 < p \<and> p < n then pow2_from n (p * 2) else p)"
  by pat_completeness auto
termination by (relation "measure (\<lambda>(n, p). n - p)") auto

declare pow2_from.simps [simp del]

definition next_pow2 :: "nat \<Rightarrow> nat" where
  "next_pow2 n = pow2_from n 16"

definition mix :: "order_id \<Rightarrow> u64" where
  "mix i =
     (let z = i + 0x9E3779B97F4A7C15;
          z = (z XOR drop_bit 30 z) * 0xBF58476D1CE4E5B9;
          z = (z XOR drop_bit 27 z) * 0x94D049BB133111EB
      in z XOR drop_bit 31 z)"

definition home_slot :: "slot list \<Rightarrow> order_id \<Rightarrow> nat" where
  "home_slot t i = and (unat (mix i)) (length t - 1)"

definition next_slot :: "slot list \<Rightarrow> nat \<Rightarrow> nat" where
  "next_slot t k = and (k + 1) (length t - 1)"

fun find_probe :: "slot list \<Rightarrow> order_id \<Rightarrow> nat \<Rightarrow> nat \<Rightarrow> nat" where
  "find_probe t i 0 k = kNoOrder"
| "find_probe t i (Suc n) k =
     (let s = t ! k in
      if \<not> sl_occupied s \<and> \<not> sl_tombstone s then kNoOrder
      else if sl_occupied s \<and> sl_id s = i then sl_ref s
      else find_probe t i n (next_slot t k))"

definition find_ref :: "order_id \<Rightarrow> index \<Rightarrow> nat" where
  "find_ref i x =
     (let t = ix_table x in
      if t = [] then kNoOrder else find_probe t i (length t) (home_slot t i))"

fun free_probe :: "slot list \<Rightarrow> nat \<Rightarrow> nat \<Rightarrow> nat option" where
  "free_probe t 0 k = None"
| "free_probe t (Suc n) k =
     (if sl_occupied (t ! k) then free_probe t n (next_slot t k) else Some k)"

fun reinsert :: "slot list \<Rightarrow> index \<Rightarrow> index option" where
  "reinsert [] x = Some x"
| "reinsert (s # old) x =
     (if sl_occupied s then
        (let t = ix_table x in
         case free_probe t (length t) (home_slot t (sl_id s)) of
           None \<Rightarrow> None
         | Some k \<Rightarrow>
             reinsert old
               (x\<lparr>ix_table := t[k := \<lparr>sl_id = sl_id s, sl_ref = sl_ref s, sl_occupied = True, sl_tombstone = False\<rparr>],
                  ix_used := ix_used x + 1\<rparr>))
      else reinsert old x)"

definition rehash :: "nat \<Rightarrow> index \<Rightarrow> index option" where
  "rehash capacity x = reinsert (ix_table x) \<lparr>ix_table = replicate capacity slot0, ix_used = 0\<rparr>"

definition index_new :: "nat \<Rightarrow> index option" where
  "index_new expected_orders = rehash (next_pow2 (expected_orders * 2)) \<lparr>ix_table = [], ix_used = 0\<rparr>"

definition grow :: "index \<Rightarrow> index option" where
  "grow x =
     (if length (ix_table x) * 7 \<le> (ix_used x + 1) * 10 then rehash (length (ix_table x) * 2) x
      else Some x)"

definition insert_ref :: "order_id \<Rightarrow> nat \<Rightarrow> index \<Rightarrow> index option" where
  "insert_ref i r x0 =
     (case grow x0 of
        None \<Rightarrow> None
      | Some x \<Rightarrow>
          (let t = ix_table x in
           case free_probe t (length t) (home_slot t i) of
             None \<Rightarrow> None
           | Some k \<Rightarrow>
               Some (x\<lparr>ix_used := (if \<not> sl_tombstone (t ! k) then ix_used x + 1 else ix_used x),
                       ix_table := t[k := \<lparr>sl_id = i, sl_ref = r, sl_occupied = True, sl_tombstone = False\<rparr>]\<rparr>)))"

fun erase_probe :: "slot list \<Rightarrow> order_id \<Rightarrow> nat \<Rightarrow> nat \<Rightarrow> slot list" where
  "erase_probe t i 0 k = t"
| "erase_probe t i (Suc n) k =
     (let s = t ! k in
      if \<not> sl_occupied s \<and> \<not> sl_tombstone s then t
      else if sl_occupied s \<and> sl_id s = i then t[k := s\<lparr>sl_occupied := False, sl_tombstone := True\<rparr>]
      else erase_probe t i n (next_slot t k))"

definition erase_ref :: "order_id \<Rightarrow> index \<Rightarrow> index" where
  "erase_ref i x =
     (let t = ix_table x in x\<lparr>ix_table := erase_probe t i (length t) (home_slot t i)\<rparr>)"

definition index_clear :: "index \<Rightarrow> index" where
  "index_clear x = \<lparr>ix_table = map (\<lambda>_. slot0) (ix_table x), ix_used = 0\<rparr>"

section \<open>Positions\<close>

definition table_size_ok :: "slot list \<Rightarrow> bool" where
  "table_size_ok t \<longleftrightarrow> 16 \<le> length t \<and> (\<exists>k. length t = 2 ^ k)"

definition slot_at :: "slot list \<Rightarrow> order_id \<Rightarrow> nat \<Rightarrow> nat" where
  "slot_at t i d = (home_slot t i + d) mod length t"

lemma and_pow2: "and (n :: nat) (2 ^ k - 1) = n mod 2 ^ k"
  using take_bit_eq_mask [of k n] by (simp add: take_bit_eq_mod mask_eq_exp_minus_1)

lemma next_slot_mod: "table_size_ok t \<Longrightarrow> next_slot t k = (k + 1) mod length t"
  using and_pow2 [of "k + 1"] by (auto simp: next_slot_def table_size_ok_def)

lemma home_slot_less: "table_size_ok t \<Longrightarrow> home_slot t i < length t"
  using and_pow2 [of "unat (mix i)"] by (auto simp: home_slot_def table_size_ok_def)

lemma home_slot_cong: "length t = length t' \<Longrightarrow> home_slot t i = home_slot t' i"
  by (simp add: home_slot_def)

lemma pow2_from_pow2:
  "(\<exists>k. p = 2 ^ k) \<Longrightarrow> 16 \<le> p \<Longrightarrow> 16 \<le> pow2_from n p \<and> (\<exists>k. pow2_from n p = 2 ^ k)"
proof (induction n p rule: pow2_from.induct)
  case (1 n p)
  show ?case
  proof (cases "0 < p \<and> p < n")
    case True
    obtain k where "p = 2 ^ k" using "1.prems" by blast
    then have "p * 2 = 2 ^ Suc k" by simp
    then have "\<exists>k. p * 2 = 2 ^ k" by blast
    with True 1 show ?thesis by (simp add: pow2_from.simps [of n p])
  next
    case False
    then show ?thesis using "1.prems" by (simp add: pow2_from.simps [of n p])
  qed
qed

lemma next_pow2_ok: "16 \<le> next_pow2 n" "\<exists>k. next_pow2 n = 2 ^ k"
proof -
  have "\<exists>k. (16 :: nat) = 2 ^ k" by (rule exI [of _ 4]) simp
  then show "16 \<le> next_pow2 n" "\<exists>k. next_pow2 n = 2 ^ k"
    using pow2_from_pow2 [of 16 n] by (auto simp: next_pow2_def)
qed

section \<open>What the probes find\<close>

definition used :: "slot \<Rightarrow> bool" where
  "used s \<longleftrightarrow> sl_occupied s \<or> sl_tombstone s"

definition matches :: "order_id \<Rightarrow> slot \<Rightarrow> bool" where
  "matches i s \<longleftrightarrow> sl_occupied s \<and> sl_id s = i"

lemma step_mod: "table_size_ok t \<Longrightarrow> (next_slot t k + d) mod length t = (k + Suc d) mod length t"
  by (simp add: next_slot_mod mod_add_left_eq)

lemma next_slot_less: "table_size_ok t \<Longrightarrow> next_slot t k < length t"
  by (auto simp: next_slot_mod table_size_ok_def intro: mod_less_divisor)

lemma find_probe_hit:
  "table_size_ok t \<Longrightarrow> k < length t \<Longrightarrow> d < n \<Longrightarrow> matches i (t ! ((k + d) mod length t)) \<Longrightarrow>
   \<forall>d' < d. used (t ! ((k + d') mod length t)) \<Longrightarrow>
   \<forall>s \<in> set t. matches i s \<longrightarrow> sl_ref s = r \<Longrightarrow> find_probe t i n k = r"
proof (induction n arbitrary: k d)
  case (Suc n)
  show ?case
  proof (cases "matches i (t ! k)")
    case True
    then show ?thesis using Suc.prems by (auto simp: matches_def Let_def)
  next
    case False
    then obtain e where d: "d = Suc e"
      using Suc.prems by (cases d) auto
    have "used (t ! k)" using Suc.prems(5) Suc.prems(2) d by (metis add_0_right mod_less zero_less_Suc)
    moreover have "find_probe t i n (next_slot t k) = r"
      using Suc.prems d
      by (intro Suc.IH [where d = e]) (auto simp: step_mod next_slot_less)
    ultimately show ?thesis using False by (auto simp: matches_def used_def Let_def)
  qed
qed simp

lemma find_probe_miss:
  "table_size_ok t \<Longrightarrow> k < length t \<Longrightarrow> \<forall>s \<in> set t. \<not> matches i s \<Longrightarrow> find_probe t i n k = kNoOrder"
  by (induction n arbitrary: k) (auto simp: matches_def Let_def next_slot_less)

lemma free_probe_ends:
  "table_size_ok t \<Longrightarrow> k < length t \<Longrightarrow> d < n \<Longrightarrow> \<not> sl_occupied (t ! ((k + d) mod length t)) \<Longrightarrow>
   \<exists>e. free_probe t n k = Some ((k + e) mod length t) \<and> \<not> sl_occupied (t ! ((k + e) mod length t)) \<and>
     (\<forall>e' < e. sl_occupied (t ! ((k + e') mod length t))) \<and> e < n"
proof (induction n arbitrary: k d)
  case (Suc n)
  show ?case
  proof (cases "sl_occupied (t ! k)")
    case False
    then show ?thesis using Suc.prems by (intro exI [of _ 0]) auto
  next
    case True
    then obtain d0 where d: "d = Suc d0" using Suc.prems by (cases d) auto
    obtain e where e: "free_probe t n (next_slot t k) = Some ((next_slot t k + e) mod length t)"
      "\<not> sl_occupied (t ! ((next_slot t k + e) mod length t))" "e < n"
      "\<forall>e' < e. sl_occupied (t ! ((next_slot t k + e') mod length t))"
      using Suc.IH [of "next_slot t k" d0] Suc.prems d by (auto simp: step_mod next_slot_less)
    have "sl_occupied (t ! ((k + e') mod length t))" if "e' < Suc e" for e'
      using that e(4) True Suc.prems by (cases e') (auto simp: step_mod)
    with e True Suc.prems show ?thesis by (intro exI [of _ "Suc e"]) (auto simp: step_mod)
  qed
qed simp

lemma erase_probe_hit:
  "table_size_ok t \<Longrightarrow> k < length t \<Longrightarrow> d < n \<Longrightarrow> matches i (t ! ((k + d) mod length t)) \<Longrightarrow>
   \<forall>d' < d. used (t ! ((k + d') mod length t)) \<Longrightarrow>
   \<exists>p < length t. matches i (t ! p) \<and>
     erase_probe t i n k = t[p := (t ! p)\<lparr>sl_occupied := False, sl_tombstone := True\<rparr>]"
proof (induction n arbitrary: k d)
  case (Suc n)
  show ?case
  proof (cases "matches i (t ! k)")
    case True
    then show ?thesis using Suc.prems by (intro exI [of _ k]) (auto simp: matches_def Let_def)
  next
    case False
    then obtain e where d: "d = Suc e"
      using Suc.prems by (cases d) auto
    have "used (t ! k)" using Suc.prems(5) Suc.prems(2) d by (metis add_0_right mod_less zero_less_Suc)
    moreover have "\<exists>p < length t. matches i (t ! p) \<and> erase_probe t i n (next_slot t k) =
        t[p := (t ! p)\<lparr>sl_occupied := False, sl_tombstone := True\<rparr>]"
      using Suc.prems d
      by (intro Suc.IH [where d = e]) (auto simp: step_mod next_slot_less)
    ultimately show ?thesis using False by (auto simp: matches_def used_def Let_def)
  qed
qed simp

lemma erase_probe_miss:
  "table_size_ok t \<Longrightarrow> k < length t \<Longrightarrow> \<forall>s \<in> set t. \<not> matches i s \<Longrightarrow> erase_probe t i n k = t"
  by (induction n arbitrary: k) (auto simp: matches_def Let_def next_slot_less)

section \<open>What the table promises\<close>

definition chain_ok :: "slot list \<Rightarrow> (order_id \<rightharpoonup> nat) \<Rightarrow> bool" where
  "chain_ok t M \<longleftrightarrow>
     (\<forall>p < length t. sl_occupied (t ! p) \<longrightarrow> M (sl_id (t ! p)) = Some (sl_ref (t ! p))) \<and>
     (\<forall>p < length t. \<forall>q < length t. sl_occupied (t ! p) \<longrightarrow> sl_occupied (t ! q) \<longrightarrow>
        sl_id (t ! p) = sl_id (t ! q) \<longrightarrow> p = q) \<and>
     (\<forall>i r. M i = Some r \<longrightarrow>
        (\<exists>d < length t. matches i (t ! slot_at t i d) \<and> (\<forall>d' < d. used (t ! slot_at t i d'))))"

definition holds_index :: "index \<Rightarrow> (order_id \<rightharpoonup> nat) \<Rightarrow> bool" where
  "holds_index x M \<longleftrightarrow>
     table_size_ok (ix_table x) \<and> chain_ok (ix_table x) M \<and>
     ix_used x = length (filter used (ix_table x)) \<and>
     ix_used x * 10 < length (ix_table x) * 7"

lemma slot_at_less: "table_size_ok t \<Longrightarrow> slot_at t i d < length t"
  by (auto simp: slot_at_def table_size_ok_def intro: mod_less_divisor)

lemma slot_at_update [simp]: "slot_at (t[k := s]) i d = slot_at t i d"
  by (simp add: slot_at_def home_slot_def)

lemma table_size_update [simp]: "table_size_ok (t[k := s]) = table_size_ok t"
  by (simp add: table_size_ok_def)

lemma reach_slot: "h < n \<Longrightarrow> p < n \<Longrightarrow> \<exists>d < n. (h + d) mod n = (p :: nat)"
  by (intro exI [of _ "(p + (n - h)) mod n"]) (auto simp: mod_add_right_eq)

lemma free_slot_reachable:
  assumes "table_size_ok t" "length (filter used t) < length t"
  shows "\<exists>d < length t. \<not> sl_occupied (t ! slot_at t i d)"
proof -
  obtain s where "s \<in> set t" "\<not> used s"
    using assms(2) by (metis filter_id_conv less_irrefl)
  then obtain p where "p < length t" "\<not> sl_occupied (t ! p)"
    by (auto simp: in_set_conv_nth used_def)
  then show ?thesis
    using reach_slot [OF home_slot_less [OF assms(1), of i]] unfolding slot_at_def by metis
qed

lemma free_probe_ok:
  assumes "table_size_ok t" "length (filter used t) < length t"
  shows "\<exists>e < length t. free_probe t (length t) (home_slot t i) = Some (slot_at t i e) \<and>
     \<not> sl_occupied (t ! slot_at t i e) \<and> (\<forall>e' < e. sl_occupied (t ! slot_at t i e'))"
  using free_slot_reachable [OF assms, of i] free_probe_ends [OF assms(1) home_slot_less [OF assms(1)]]
  unfolding slot_at_def by metis

lemma chain_ok_place:
  assumes ok: "table_size_ok t" and c: "chain_ok t M" and new: "M i = None"
    and free: "\<not> sl_occupied (t ! slot_at t i e)" and e: "e < length t"
    and path: "\<forall>e' < e. sl_occupied (t ! slot_at t i e')"
    and s: "s = \<lparr>sl_id = i, sl_ref = r, sl_occupied = True, sl_tombstone = False\<rparr>"
  shows "chain_ok (t[slot_at t i e := s]) (M(i \<mapsto> r))"
proof -
  define k where "k = slot_at t i e"
  have k: "k < length t" using ok by (simp add: k_def slot_at_less)
  have ids: "sl_id (t ! p) \<noteq> i" if "p < length t" "sl_occupied (t ! p)" for p
    using c that new by (auto simp: chain_ok_def)
  have used_mono: "used (t[k := s] ! p)" if "used (t ! p)" "p < length t" for p
    using that k by (auto simp: nth_list_update used_def s)
  have a: "\<forall>p < length (t[k := s]). sl_occupied (t[k := s] ! p) \<longrightarrow>
      (M(i \<mapsto> r)) (sl_id (t[k := s] ! p)) = Some (sl_ref (t[k := s] ! p))"
    using c ids k by (auto simp: nth_list_update s chain_ok_def)
  have b: "\<forall>p < length (t[k := s]). \<forall>q < length (t[k := s]).
      sl_occupied (t[k := s] ! p) \<longrightarrow> sl_occupied (t[k := s] ! q) \<longrightarrow>
      sl_id (t[k := s] ! p) = sl_id (t[k := s] ! q) \<longrightarrow> p = q"
    using c ids k by (auto simp: nth_list_update s chain_ok_def)
  have d: "\<exists>d < length (t[k := s]). matches j (t[k := s] ! slot_at t j d) \<and>
      (\<forall>d' < d. used (t[k := s] ! slot_at t j d'))" if j: "(M(i \<mapsto> r)) j = Some r'" for j r'
  proof (cases "j = i")
    case True
    have "matches j (t[k := s] ! slot_at t j e)"
      using True k by (simp add: k_def matches_def s)
    moreover have "\<forall>d' < e. used (t[k := s] ! slot_at t j d')"
      using True path used_mono ok by (auto simp: used_def slot_at_less)
    ultimately show ?thesis using e by auto
  next
    case False
    then have "M j = Some r'" using j by simp
    then obtain d where d: "d < length t" "matches j (t ! slot_at t j d)"
      "\<forall>d' < d. used (t ! slot_at t j d')"
      using c unfolding chain_ok_def by blast
    have "slot_at t j d \<noteq> k" using d(2) free by (auto simp: k_def matches_def)
    then have "matches j (t[k := s] ! slot_at t j d)" using d(2) by simp
    with d used_mono ok show ?thesis by (auto simp: slot_at_less)
  qed
  show ?thesis
    using a b d unfolding chain_ok_def slot_at_update k_def by blast
qed

lemma filter_update:
  "k < length xs \<Longrightarrow>
   length (filter P (xs[k := v])) + (if P (xs ! k) then 1 else 0) =
   length (filter P xs) + (if P v then 1 else 0)"
proof -
  assume k: "k < length xs"
  have "length (filter P xs) = length (filter P (take k xs @ xs ! k # drop (Suc k) xs))"
    using k by (simp only: id_take_nth_drop [symmetric])
  moreover have "xs[k := v] = take k xs @ v # drop (Suc k) xs"
    using k by (simp add: upd_conv_take_nth_drop)
  ultimately show ?thesis by simp
qed

section \<open>Rehashing\<close>

definition entries :: "slot list \<Rightarrow> (order_id \<times> nat) list" where
  "entries t = map (\<lambda>s. (sl_id s, sl_ref s)) (filter sl_occupied t)"

lemma entries_simps [simp]:
  "entries [] = []"
  "entries (s # t) = (if sl_occupied s then (sl_id s, sl_ref s) # entries t else entries t)"
  by (simp_all add: entries_def)

lemma reinsert_ok:
  "table_size_ok (ix_table x) \<Longrightarrow> chain_ok (ix_table x) M \<Longrightarrow>
   ix_used x = length (filter used (ix_table x)) \<Longrightarrow> list_all (\<lambda>s. \<not> sl_tombstone s) (ix_table x) \<Longrightarrow>
   ix_used x + length (entries old) < length (ix_table x) \<Longrightarrow>
   distinct (map fst (entries old)) \<Longrightarrow> dom M \<inter> fst ` set (entries old) = {} \<Longrightarrow>
   \<exists>x'. reinsert old x = Some x' \<and> chain_ok (ix_table x') (M ++ map_of (entries old)) \<and>
     length (ix_table x') = length (ix_table x) \<and>
     ix_used x' = ix_used x + length (entries old) \<and>
     ix_used x' = length (filter used (ix_table x'))"
proof (induction old arbitrary: x M)
  case (Cons s old)
  show ?case
  proof (cases "sl_occupied s")
    case False
    with Cons show ?thesis by simp
  next
    case True
    define t where "t = ix_table x"
    note ok = Cons.prems(1) [folded t_def]
    obtain e where e: "e < length t" "free_probe t (length t) (home_slot t (sl_id s)) = Some (slot_at t (sl_id s) e)"
      "\<not> sl_occupied (t ! slot_at t (sl_id s) e)" "\<forall>e' < e. sl_occupied (t ! slot_at t (sl_id s) e')"
      using free_probe_ok [OF ok, of "sl_id s"] Cons.prems(3,5) by (auto simp: t_def)
    define k where "k = slot_at t (sl_id s) e"
    define s' where "s' = \<lparr>sl_id = sl_id s, sl_ref = sl_ref s, sl_occupied = True, sl_tombstone = False\<rparr>"
    have k: "k < length t" using ok by (simp add: k_def slot_at_less)
    have fresh: "M (sl_id s) = None" "sl_id s \<notin> fst ` set (entries old)"
      using Cons.prems(6,7) True by (auto simp: domIff)
    have nt: "\<not> used (t ! k)"
      using Cons.prems(4) e(3) k by (auto simp: used_def k_def t_def list_all_length)
    have us: "used s'" by (simp add: s'_def used_def)
    define N where "N = M(sl_id s \<mapsto> sl_ref s)"
    have 1: "chain_ok (t[k := s']) N"
      unfolding k_def N_def
      by (rule chain_ok_place) (use ok Cons.prems(2) fresh e in \<open>auto simp: t_def s'_def\<close>)
    have 2: "length (filter used (t[k := s'])) = ix_used x + 1"
      using filter_update [OF k, of used s'] nt us Cons.prems(3) by (simp add: t_def)
    have 3: "list_all (\<lambda>s. \<not> sl_tombstone s) (t[k := s'])"
      using Cons.prems(4) set_update_subset_insert [of t k s'] by (auto simp: t_def s'_def list_all_iff)
    have 4: "dom N \<inter> fst ` set (entries old) = {}"
      using Cons.prems(7) fresh True by (auto simp: N_def)
    define y where "y = x\<lparr>ix_table := t[k := s'], ix_used := ix_used x + 1\<rparr>"
    have y: "ix_table y = t[k := s']" "ix_used y = ix_used x + 1" by (simp_all add: y_def)
    have "\<exists>x'. reinsert old y = Some x' \<and> chain_ok (ix_table x') (N ++ map_of (entries old)) \<and>
        length (ix_table x') = length (ix_table y) \<and> ix_used x' = ix_used y + length (entries old) \<and>
        ix_used x' = length (filter used (ix_table x'))"
      by (rule Cons.IH) (use 1 2 3 4 y ok Cons.prems(5,6) True in \<open>simp_all add: t_def\<close>)
    then obtain x' where x': "reinsert old y = Some x'"
      "chain_ok (ix_table x') (M(sl_id s \<mapsto> sl_ref s) ++ map_of (entries old))"
      "length (ix_table x') = length t" "ix_used x' = ix_used x + 1 + length (entries old)"
      "ix_used x' = length (filter used (ix_table x'))"
      using y by (auto simp: N_def)
    have eq: "M(sl_id s \<mapsto> sl_ref s) ++ map_of (entries old) = M ++ map_of (entries (s # old))"
      using fresh(2) True by (simp add: map_add_upd_left dom_map_of_conv_image_fst)
    have "chain_ok (ix_table x') (M ++ map_of (entries (s # old)))"
      using x'(2) by (simp only: eq)
    moreover have "reinsert (s # old) x = Some x'"
      using True e(2) x'(1) by (simp add: k_def s'_def t_def y_def)
    moreover have "length (entries (s # old)) = Suc (length (entries old))" using True by simp
    ultimately show ?thesis using x'(3-5) unfolding t_def by (intro exI [of _ x']) simp
  qed
qed simp

lemma distinct_map_filter:
  "\<forall>p < length xs. \<forall>q < length xs. P (xs ! p) \<longrightarrow> P (xs ! q) \<longrightarrow> f (xs ! p) = f (xs ! q) \<longrightarrow> p = q \<Longrightarrow>
   distinct (map f (filter P xs))"
proof (induction xs)
  case (Cons x xs)
  have "distinct (map f (filter P xs))"
    using Cons.prems by (intro Cons.IH) fastforce
  moreover have "f x \<noteq> f y" if "P x" "y \<in> set xs" "P y" for y
  proof -
    obtain q where q: "q < length xs" "xs ! q = y" using \<open>y \<in> set xs\<close> by (auto simp: in_set_conv_nth)
    then show ?thesis
      using Cons.prems [rule_format, of 0 "Suc q"] that by auto
  qed
  ultimately show ?case by auto
qed simp

lemma chain_ok_entries:
  assumes "table_size_ok t" "chain_ok t M"
  shows "map_of (entries t) = M" "distinct (map fst (entries t))"
proof -
  have d: "distinct (map fst (entries t))"
    using assms(2) distinct_map_filter [of t sl_occupied sl_id]
    by (simp add: entries_def chain_ok_def comp_def)
  then show "distinct (map fst (entries t))" .
  show "map_of (entries t) = M"
  proof
    fix i
    show "map_of (entries t) i = M i"
    proof (cases "M i")
      case None
      then have "i \<notin> fst ` set (entries t)"
        using assms(2) by (auto simp: entries_def chain_ok_def in_set_conv_nth)
      then show ?thesis using None by (simp add: map_of_eq_None_iff)
    next
      case (Some r)
      then obtain d where m: "matches i (t ! slot_at t i d)" using assms(2) unfolding chain_ok_def by blast
      let ?s = "t ! slot_at t i d"
      have "?s \<in> set t" "sl_ref ?s = r"
        using assms Some m slot_at_less [OF assms(1), of i d] by (auto simp: chain_ok_def matches_def)
      then have "(i, r) \<in> set (entries t)"
        using m by (auto simp: entries_def matches_def intro!: image_eqI [of _ _ ?s])
      then show ?thesis using d Some by simp
    qed
  qed
qed

lemma chain_ok_empty: "chain_ok (replicate n slot0) Map.empty"
  by (simp add: chain_ok_def slot0_def)

lemma filter_used_fresh: "filter used (replicate n slot0) = []"
  by (simp add: used_def slot0_def)

lemma entries_le_used: "length (entries t) \<le> length (filter used t)"
  by (induction t) (auto simp: used_def)

lemma rehash_ok:
  assumes t: "table_size_ok (ix_table x)" and c: "chain_ok (ix_table x) M"
    and u: "length (filter used (ix_table x)) * 10 < length (ix_table x) * 7"
  shows "\<exists>x'. rehash (length (ix_table x) * 2) x = Some x' \<and> holds_index x' M \<and>
     (ix_used x' + 1) * 10 < length (ix_table x') * 7"
proof -
  define n where "n = length (ix_table x) * 2"
  let ?y = "\<lparr>ix_table = replicate n slot0, ix_used = 0\<rparr>"
  obtain k where k: "length (ix_table x) = 2 ^ k" "16 \<le> length (ix_table x)"
    using t by (auto simp: table_size_ok_def)
  have "n = 2 ^ Suc k" using k by (simp add: n_def)
  then have y: "table_size_ok (ix_table ?y)"
    using k unfolding table_size_ok_def n_def by (metis index.select_convs(1) length_replicate mult_2_right trans_le_add1)
  note e = chain_ok_entries [OF t c]
  have fresh: "list_all (\<lambda>s. \<not> sl_tombstone s) (replicate m slot0)" for m
    by (induction m) (simp_all add: slot0_def)
  have l: "length (entries (ix_table x)) * 10 < length (ix_table x) * 7"
    using u entries_le_used [of "ix_table x"] by linarith
  have "\<exists>x'. reinsert (ix_table x) ?y = Some x' \<and> chain_ok (ix_table x') (Map.empty ++ map_of (entries (ix_table x))) \<and>
     length (ix_table x') = length (ix_table ?y) \<and> ix_used x' = ix_used ?y + length (entries (ix_table x)) \<and>
     ix_used x' = length (filter used (ix_table x'))"
    by (rule reinsert_ok)
      (use y e l k fresh in \<open>simp_all add: chain_ok_empty filter_used_fresh n_def\<close>)
  then obtain x' where x': "reinsert (ix_table x) ?y = Some x'" "chain_ok (ix_table x') M"
     "length (ix_table x') = n" "ix_used x' = length (entries (ix_table x))"
     "ix_used x' = length (filter used (ix_table x'))"
    using e by auto
  have "table_size_ok (ix_table x')" using y x' by (simp add: table_size_ok_def)
  moreover have "(ix_used x' + 1) * 10 < length (ix_table x') * 7"
    using x' l k by (simp add: n_def)
  ultimately show ?thesis
    using x' unfolding rehash_def holds_index_def n_def [symmetric] by (intro exI [of _ x']) simp
qed

lemma index_new_ok: "\<exists>x. index_new n = Some x \<and> holds_index x Map.empty"
proof -
  let ?x = "\<lparr>ix_table = replicate (next_pow2 (n * 2)) slot0, ix_used = 0\<rparr>"
  have "index_new n = Some ?x" by (simp add: index_new_def rehash_def)
  moreover have "holds_index ?x Map.empty"
    using next_pow2_ok [of "n * 2"]
    by (simp add: holds_index_def chain_ok_empty filter_used_fresh table_size_ok_def)
  ultimately show ?thesis by blast
qed

section \<open>Lookup, insertion, removal\<close>

lemma find_ref_ok:
  assumes "holds_index x M"
  shows "find_ref i x = (case M i of None \<Rightarrow> kNoOrder | Some r \<Rightarrow> r)"
proof -
  define t where "t = ix_table x"
  have t: "table_size_ok t" and c: "chain_ok t M" using assms by (auto simp: t_def holds_index_def)
  have ne: "t \<noteq> []" using t by (auto simp: table_size_ok_def)
  have h: "home_slot t i < length t" by (rule home_slot_less [OF t])
  show ?thesis
  proof (cases "M i")
    case None
    have "\<forall>s \<in> set t. \<not> matches i s"
      using c None by (auto simp: chain_ok_def matches_def in_set_conv_nth)
    then show ?thesis using find_probe_miss [OF t h] ne None by (simp add: find_ref_def t_def [symmetric])
  next
    case (Some r)
    then obtain d where "d < length t" "matches i (t ! slot_at t i d)" "\<forall>d' < d. used (t ! slot_at t i d')"
      using c unfolding chain_ok_def by blast
    moreover have "\<forall>s \<in> set t. matches i s \<longrightarrow> sl_ref s = r"
      using c Some by (auto simp: chain_ok_def matches_def in_set_conv_nth)
    ultimately show ?thesis
      using find_probe_hit [OF t h] ne Some by (simp add: find_ref_def slot_at_def t_def [symmetric])
  qed
qed

lemma grow_ok:
  assumes "holds_index x M"
  shows "\<exists>x'. grow x = Some x' \<and> holds_index x' M \<and> (ix_used x' + 1) * 10 < length (ix_table x') * 7"
proof (cases "length (ix_table x) * 7 \<le> (ix_used x + 1) * 10")
  case True
  then show ?thesis using rehash_ok [of x M] assms by (simp add: grow_def holds_index_def)
next
  case False
  then show ?thesis using assms by (simp add: grow_def)
qed

lemma insert_ref_ok:
  assumes "holds_index x M" "M i = None"
  shows "\<exists>x'. insert_ref i r x = Some x' \<and> holds_index x' (M(i \<mapsto> r))"
proof -
  obtain y where y: "grow x = Some y" "holds_index y M" "(ix_used y + 1) * 10 < length (ix_table y) * 7"
    using grow_ok [OF assms(1)] by blast
  define t where "t = ix_table y"
  have t: "table_size_ok t" and c: "chain_ok t M" and u: "ix_used y = length (filter used t)"
    and b: "length (filter used t) * 10 < length t * 7"
    using y(2) by (auto simp: t_def holds_index_def)
  obtain e where e: "e < length t" "free_probe t (length t) (home_slot t i) = Some (slot_at t i e)"
      "\<not> sl_occupied (t ! slot_at t i e)" "\<forall>e' < e. sl_occupied (t ! slot_at t i e')"
    using free_probe_ok [OF t, of i] b by auto
  define k where "k = slot_at t i e"
  define s where "s = \<lparr>sl_id = i, sl_ref = r, sl_occupied = True, sl_tombstone = False\<rparr>"
  have k: "k < length t" using t by (simp add: k_def slot_at_less)
  have us: "used s" by (simp add: s_def used_def)
  have uk: "used (t ! k) = sl_tombstone (t ! k)" using e(3) by (simp add: used_def k_def)
  define n where "n = (if \<not> sl_tombstone (t ! k) then ix_used y + 1 else ix_used y)"
  have "length (filter used (t[k := s])) = n"
    using filter_update [OF k, of used s] us uk u by (simp add: n_def split: if_splits)
  moreover have "n * 10 < length t * 7" using y(3) by (simp add: n_def t_def)
  moreover have "chain_ok (t[k := s]) (M(i \<mapsto> r))"
    unfolding k_def by (rule chain_ok_place) (use t c e assms(2) in \<open>auto simp: s_def\<close>)
  ultimately have "holds_index (y\<lparr>ix_used := n, ix_table := t[k := s]\<rparr>) (M(i \<mapsto> r))"
    using t by (simp add: holds_index_def)
  moreover have "insert_ref i r x = Some (y\<lparr>ix_used := n, ix_table := t[k := s]\<rparr>)"
    using y(1) e(2) by (simp add: insert_ref_def t_def [symmetric] k_def [symmetric] n_def s_def Let_def)
  ultimately show ?thesis by blast
qed

lemma erase_ref_ok:
  assumes "holds_index x M"
  shows "holds_index (erase_ref i x) (M(i := None))"
proof -
  define t where "t = ix_table x"
  have t: "table_size_ok t" and c: "chain_ok t M" and u: "ix_used x = length (filter used t)"
    and b: "ix_used x * 10 < length t * 7"
    using assms by (auto simp: t_def holds_index_def)
  have h: "home_slot t i < length t" by (rule home_slot_less [OF t])
  show ?thesis
  proof (cases "M i")
    case None
    have "\<forall>s \<in> set t. \<not> matches i s"
      using c None by (auto simp: chain_ok_def matches_def in_set_conv_nth)
    then have "erase_ref i x = x"
      using erase_probe_miss [OF t h] by (simp add: erase_ref_def t_def Let_def)
    then show ?thesis using assms None by (simp add: fun_upd_idem)
  next
    case (Some r)
    obtain d where d: "d < length t" "matches i (t ! slot_at t i d)" "\<forall>d' < d. used (t ! slot_at t i d')"
      using c Some unfolding chain_ok_def by blast
    define f where "f = (\<lambda>s :: slot. s\<lparr>sl_occupied := False, sl_tombstone := True\<rparr>)"
    obtain p where p: "p < length t" "matches i (t ! p)" "erase_probe t i (length t) (home_slot t i) = t[p := f (t ! p)]"
      using erase_probe_hit [OF t h d(1)] d by (auto simp: slot_at_def f_def)
    let ?t = "t[p := f (t ! p)]"
    have f: "\<not> sl_occupied (f s)" "used (f s)" for s by (simp_all add: f_def used_def)
    have other: "j \<noteq> i" if "q < length t" "q \<noteq> p" "sl_occupied (t ! q)" "sl_id (t ! q) = j" for j q
      using c p that by (auto simp: chain_ok_def matches_def)
    have "length (filter used ?t) = ix_used x"
      using filter_update [OF p(1), of used "f (t ! p)"] f p(2) u by (simp add: used_def matches_def split: if_splits)
    moreover have "chain_ok ?t (M(i := None))"
    proof -
      have 1: "\<forall>q < length ?t. sl_occupied (?t ! q) \<longrightarrow> (M(i := None)) (sl_id (?t ! q)) = Some (sl_ref (?t ! q))"
        using c other f p(1) by (auto simp: chain_ok_def nth_list_update)
      have 2: "\<forall>q < length ?t. \<forall>q' < length ?t. sl_occupied (?t ! q) \<longrightarrow> sl_occupied (?t ! q') \<longrightarrow>
          sl_id (?t ! q) = sl_id (?t ! q') \<longrightarrow> q = q'"
        using c f p(1) by (auto simp: chain_ok_def nth_list_update)
      have 3: "\<exists>d < length ?t. matches j (?t ! slot_at t j d) \<and> (\<forall>d' < d. used (?t ! slot_at t j d'))"
        if j: "(M(i := None)) j = Some r'" for j r'
      proof -
        have j': "j \<noteq> i" "M j = Some r'" using j by (auto split: if_splits)
        then obtain d where d: "d < length t" "matches j (t ! slot_at t j d)" "\<forall>d' < d. used (t ! slot_at t j d')"
          using c unfolding chain_ok_def by blast
        have "slot_at t j d \<noteq> p" using d(2) p(2) j'(1) by (auto simp: matches_def)
        then have "matches j (?t ! slot_at t j d)" using d(2) by simp
        moreover have "used (?t ! slot_at t j d')" if "d' < d" for d'
          using d(3) that f p(1) slot_at_less [OF t, of j d'] by (simp add: nth_list_update)
        ultimately show ?thesis using d(1) by auto
      qed
      show ?thesis using 1 2 3 unfolding chain_ok_def slot_at_update by blast
    qed
    ultimately show ?thesis
      using t b p(3) unfolding holds_index_def erase_ref_def by (simp add: t_def [symmetric] Let_def)
  qed
qed

lemma index_clear_ok: "holds_index x M \<Longrightarrow> holds_index (index_clear x) Map.empty"
  by (auto simp: holds_index_def index_clear_def map_replicate_const chain_ok_empty filter_used_fresh
      table_size_ok_def)

section \<open>The interface\<close>

text \<open>What the order book asks of its index, whatever the index is made of.\<close>

locale id_index =
  fixes find :: "order_id \<Rightarrow> 'x \<Rightarrow> nat"
    and insert :: "order_id \<Rightarrow> nat \<Rightarrow> 'x \<Rightarrow> 'x option"
    and erase :: "order_id \<Rightarrow> 'x \<Rightarrow> 'x"
    and clear :: "'x \<Rightarrow> 'x"
    and holds :: "'x \<Rightarrow> (order_id \<rightharpoonup> nat) \<Rightarrow> bool"
  assumes find_exact: "holds x M \<Longrightarrow> find i x = (case M i of None \<Rightarrow> kNoOrder | Some r \<Rightarrow> r)"
    and insert_exact: "holds x M \<Longrightarrow> M i = None \<Longrightarrow> \<exists>x'. insert i r x = Some x' \<and> holds x' (M(i \<mapsto> r))"
    and erase_exact: "holds x M \<Longrightarrow> holds (erase i x) (M(i := None))"
    and clear_exact: "holds x M \<Longrightarrow> holds (clear x) Map.empty"
begin

lemma found_iff:
  assumes "holds x M" "\<And>j r. M j = Some r \<Longrightarrow> r < kNoOrder"
  shows "find i x \<noteq> kNoOrder \<longleftrightarrow> M i \<noteq> None" "find i x \<noteq> kNoOrder \<Longrightarrow> M i = Some (find i x)"
  using find_exact [OF assms(1), of i] assms(2) [of i] by (auto split: option.splits)

lemma insert_total:
  assumes "holds x M" "M i = None"
  obtains x' where "insert i r x = Some x'" "holds x' (M(i \<mapsto> r))"
  using insert_exact [OF assms] by blast

end

interpretation order_index: id_index find_ref insert_ref erase_ref index_clear holds_index
  by unfold_locales (simp_all add: find_ref_ok insert_ref_ok erase_ref_ok index_clear_ok)

end
