(* ===== verification/L3_Book.thy ===== *)
theory L3_Book
  imports L3_Table Side_Map
begin

text \<open>
  \<open>L3Book\<close> of \<open>include/crossbook/l3.hpp\<close>: the order-by-order book.  Orders live in an arena (a list, its
  positions the references) whose free slots are recycled; every price level is a doubly linked queue
  threaded through the arena, with its aggregate kept beside it in an ordered map per side; the index of
  \<open>L3_Table\<close> finds an order by its identifier.

  A pointer the code writes through is a list update at the reference.  Quantities are unbounded
  integers here: the code adds them without a check, so the aggregates are the code's as long as they fit
  64 bits.  The two loops that follow \<open>next\<close> carry the size of the arena as fuel: a walk longer than that
  would be on a cycle, and is \<open>None\<close>.
\<close>

section \<open>Orders, levels, the book\<close>

record order =
  od_id :: order_id
  od_price :: price
  od_qty :: qty
  od_side :: side
  od_prev :: nat
  od_next :: nat
  od_live :: bool

definition order0 :: order where
  "order0 = \<lparr>od_id = 0, od_price = Price 0, od_qty = Qty 0, od_side = Bid,
     od_prev = kNoOrder, od_next = kNoOrder, od_live = False\<rparr>"

record l3_level =
  ll_qty :: qty
  ll_orders :: u32
  ll_head :: nat
  ll_tail :: nat

definition l3_level0 :: l3_level where
  "l3_level0 = \<lparr>ll_qty = Qty 0, ll_orders = 0, ll_head = kNoOrder, ll_tail = kNoOrder\<rparr>"

type_synonym l3_levels = "(int \<times> l3_level) list"

record l3_book =
  lb_spec :: instrument_spec
  lb_orders :: "order list"
  lb_free :: "nat list"
  lb_index :: index
  lb_bids :: l3_levels
  lb_asks :: l3_levels
  lb_live :: nat

definition l3_new :: "instrument_spec \<Rightarrow> nat \<Rightarrow> l3_book option" where
  "l3_new sp expected_orders =
     (case index_new expected_orders of
        None \<Rightarrow> None
      | Some x \<Rightarrow> Some \<lparr>lb_spec = sp, lb_orders = [], lb_free = [], lb_index = x,
          lb_bids = [], lb_asks = [], lb_live = 0\<rparr>)"

definition l3_levels :: "side \<Rightarrow> l3_book \<Rightarrow> l3_levels" where
  "l3_levels s b = (if s = Bid then lb_bids b else lb_asks b)"

definition set_levels :: "side \<Rightarrow> l3_levels \<Rightarrow> l3_book \<Rightarrow> l3_book" where
  "set_levels s m b = (if s = Bid then b\<lparr>lb_bids := m\<rparr> else b\<lparr>lb_asks := m\<rparr>)"

text \<open>\<open>level_for\<close> returns a reference, creating the level; here it is read and written back.\<close>

definition level_for :: "side \<Rightarrow> price \<Rightarrow> l3_book \<Rightarrow> l3_level" where
  "level_for s p b = (case map_of (l3_levels s b) (ticks p) of None \<Rightarrow> l3_level0 | Some l \<Rightarrow> l)"

definition put_level :: "side \<Rightarrow> price \<Rightarrow> l3_level \<Rightarrow> l3_book \<Rightarrow> l3_book" where
  "put_level s p l b = set_levels s (amap_set (ticks p) l (l3_levels s b)) b"

definition erase_level :: "side \<Rightarrow> price \<Rightarrow> l3_book \<Rightarrow> l3_book" where
  "erase_level s p b = set_levels s (amap_erase (ticks p) (l3_levels s b)) b"

definition put_order :: "nat \<Rightarrow> order \<Rightarrow> l3_book \<Rightarrow> l3_book" where
  "put_order r ord b = b\<lparr>lb_orders := (lb_orders b)[r := ord]\<rparr>"

definition the_order :: "nat \<Rightarrow> l3_book \<Rightarrow> order" where
  "the_order r b = lb_orders b ! r"

section \<open>The arena and the queues\<close>

definition allocate :: "l3_book \<Rightarrow> nat \<times> l3_book" where
  "allocate b =
     (if lb_free b \<noteq> [] then (last (lb_free b), b\<lparr>lb_free := butlast (lb_free b)\<rparr>)
      else
        (let os = lb_orders b @ [order0]
         in ((length os - 1) mod 4294967296, b\<lparr>lb_orders := os\<rparr>)))"

definition link_back :: "nat \<Rightarrow> l3_book \<Rightarrow> l3_book" where
  "link_back r b =
     (let ord = the_order r b;
          l = level_for (od_side ord) (od_price ord) b;
          b = put_order r (ord\<lparr>od_prev := ll_tail l, od_next := kNoOrder\<rparr>) b;
          (b, l) =
            (if ll_tail l \<noteq> kNoOrder then (put_order (ll_tail l) ((the_order (ll_tail l) b)\<lparr>od_next := r\<rparr>) b, l)
             else (b, l\<lparr>ll_head := r\<rparr>));
          l = l\<lparr>ll_tail := r, ll_qty := Qty (units (ll_qty l) + units (od_qty ord)), ll_orders := ll_orders l + 1\<rparr>
      in put_level (od_side ord) (od_price ord) l b)"

definition unlink :: "nat \<Rightarrow> l3_book \<Rightarrow> l3_book" where
  "unlink r b =
     (let ord = the_order r b in
      case map_of (l3_levels (od_side ord) b) (ticks (od_price ord)) of
        None \<Rightarrow> b
      | Some l \<Rightarrow>
          (let (b, l) =
                 (if od_prev ord \<noteq> kNoOrder
                  then (put_order (od_prev ord) ((the_order (od_prev ord) b)\<lparr>od_next := od_next ord\<rparr>) b, l)
                  else (b, l\<lparr>ll_head := od_next ord\<rparr>));
               (b, l) =
                 (if od_next ord \<noteq> kNoOrder
                  then (put_order (od_next ord) ((the_order (od_next ord) b)\<lparr>od_prev := od_prev ord\<rparr>) b, l)
                  else (b, l\<lparr>ll_tail := od_prev ord\<rparr>));
               b = put_order r ((the_order r b)\<lparr>od_prev := kNoOrder, od_next := kNoOrder\<rparr>) b;
               l = l\<lparr>ll_qty := Qty (units (ll_qty l) - units (od_qty ord)), ll_orders := ll_orders l - 1\<rparr>
           in if ll_orders l = 0 then erase_level (od_side ord) (od_price ord) b
              else put_level (od_side ord) (od_price ord) l b))"

section \<open>The operations\<close>

definition l3_add :: "order_id \<Rightarrow> side \<Rightarrow> price \<Rightarrow> qty \<Rightarrow> l3_book \<Rightarrow> (bool \<times> l3_book) option" where
  "l3_add i s p q b =
     (if units q \<le> 0 \<or> find_ref i (lb_index b) \<noteq> kNoOrder then Some (False, b)
      else
        (let (r, b) = allocate b;
             b = put_order r ((the_order r b)\<lparr>od_id := i, od_side := s, od_price := p, od_qty := q,
                   od_prev := kNoOrder, od_next := kNoOrder, od_live := True\<rparr>) b;
             b = link_back r b
         in case insert_ref i r (lb_index b) of
              None \<Rightarrow> None
            | Some x \<Rightarrow> Some (True, b\<lparr>lb_index := x, lb_live := lb_live b + 1\<rparr>)))"

definition l3_remove :: "order_id \<Rightarrow> l3_book \<Rightarrow> bool \<times> l3_book" where
  "l3_remove i b =
     (let r = find_ref i (lb_index b) in
      if r = kNoOrder then (False, b)
      else
        (let b = unlink r b;
             b = b\<lparr>lb_index := erase_ref i (lb_index b)\<rparr>;
             b = put_order r ((the_order r b)\<lparr>od_live := False\<rparr>) b
         in (True, b\<lparr>lb_free := lb_free b @ [r], lb_live := lb_live b - 1\<rparr>)))"

definition l3_modify :: "order_id \<Rightarrow> qty \<Rightarrow> l3_book \<Rightarrow> bool \<times> l3_book" where
  "l3_modify i new_qty b =
     (let r = find_ref i (lb_index b) in
      if r = kNoOrder then (False, b)
      else if units new_qty \<le> 0 then l3_remove i b
      else
        (let ord = the_order r b;
             old_qty = od_qty ord;
             l = level_for (od_side ord) (od_price ord) b;
             b = put_level (od_side ord) (od_price ord)
                   (l\<lparr>ll_qty := Qty (units (ll_qty l) + (units new_qty - units old_qty))\<rparr>) b;
             b = put_order r (ord\<lparr>od_qty := new_qty\<rparr>) b
         in (True, if units old_qty < units new_qty then link_back r (unlink r b) else b)))"

definition l3_execute :: "order_id \<Rightarrow> qty \<Rightarrow> l3_book \<Rightarrow> bool \<times> l3_book" where
  "l3_execute i traded b =
     (let r = find_ref i (lb_index b) in
      if r = kNoOrder \<or> units traded \<le> 0 then (False, b)
      else
        (let ord = the_order r b in
         if units (od_qty ord) \<le> units traded then l3_remove i b
         else
           (let l = level_for (od_side ord) (od_price ord) b;
                b = put_level (od_side ord) (od_price ord)
                      (l\<lparr>ll_qty := Qty (units (ll_qty l) - units traded)\<rparr>) b
            in (True, put_order r (ord\<lparr>od_qty := Qty (units (od_qty ord) - units traded)\<rparr>) b))))"

definition l3_clear :: "l3_book \<Rightarrow> l3_book" where
  "l3_clear b =
     b\<lparr>lb_orders := [], lb_free := [], lb_bids := [], lb_asks := [], lb_index := index_clear (lb_index b),
       lb_live := 0\<rparr>"

section \<open>The queries\<close>

definition l3_find :: "order_id \<Rightarrow> l3_book \<Rightarrow> order option" where
  "l3_find i b =
     (let r = find_ref i (lb_index b) in if r = kNoOrder then None else Some (the_order r b))"

definition l3_find_level :: "side \<Rightarrow> price \<Rightarrow> l3_book \<Rightarrow> l3_level option" where
  "l3_find_level s p b = map_of (l3_levels s b) (ticks p)"

fun walk_ahead :: "order list \<Rightarrow> nat \<Rightarrow> nat \<Rightarrow> nat \<Rightarrow> int \<Rightarrow> int option" where
  "walk_ahead os r 0 cursor ahead = None"
| "walk_ahead os r (Suc n) cursor ahead =
     (if cursor \<noteq> kNoOrder \<and> cursor \<noteq> r
      then walk_ahead os r n (od_next (os ! cursor)) (ahead + units (od_qty (os ! cursor)))
      else Some ahead)"

text \<open>The outer option is the walk, the inner one the \<open>false\<close> the code returns.\<close>

definition l3_queue_ahead :: "order_id \<Rightarrow> l3_book \<Rightarrow> qty option option" where
  "l3_queue_ahead i b =
     (let r = find_ref i (lb_index b) in
      if r = kNoOrder then Some None
      else
        (let target = the_order r b in
         case l3_find_level (od_side target) (od_price target) b of
           None \<Rightarrow> Some None
         | Some l \<Rightarrow>
             map_option (\<lambda>a. Some (Qty a)) (walk_ahead (lb_orders b) r (length (lb_orders b) + 1) (ll_head l) 0)))"

definition l3_best :: "side \<Rightarrow> l3_book \<Rightarrow> level option" where
  "l3_best s b =
     (let m = l3_levels s b in
      if m = [] then None
      else (let e = (if s = Bid then last m else hd m) in Some (Level (Price (fst e)) (ll_qty (snd e)))))"

definition l3_for_each_level ::
  "side \<Rightarrow> (level \<Rightarrow> 'st \<Rightarrow> bool \<times> 'st) \<Rightarrow> l3_book \<Rightarrow> 'st \<Rightarrow> 'st" where
  "l3_for_each_level s f b st =
     (if s = Bid then visit (\<lambda>e. f (Level (Price (fst e)) (ll_qty (snd e)))) (rev (l3_levels s b)) st
      else visit (\<lambda>e. f (Level (Price (fst e)) (ll_qty (snd e)))) (l3_levels s b) st)"

fun walk_orders :: "order list \<Rightarrow> (order \<Rightarrow> 'st \<Rightarrow> bool \<times> 'st) \<Rightarrow> nat \<Rightarrow> nat \<Rightarrow> 'st \<Rightarrow> 'st option" where
  "walk_orders os f 0 cursor st = None"
| "walk_orders os f (Suc n) cursor st =
     (if cursor \<noteq> kNoOrder
      then (case f (os ! cursor) st of
              (go, st) \<Rightarrow> if go then walk_orders os f n (od_next (os ! cursor)) st else Some st)
      else Some st)"

definition l3_for_each_order ::
  "side \<Rightarrow> price \<Rightarrow> (order \<Rightarrow> 'st \<Rightarrow> bool \<times> 'st) \<Rightarrow> l3_book \<Rightarrow> 'st \<Rightarrow> 'st option" where
  "l3_for_each_order s p f b st =
     (case l3_find_level s p b of
        None \<Rightarrow> Some st
      | Some l \<Rightarrow> walk_orders (lb_orders b) f (length (lb_orders b) + 1) (ll_head l) st)"

end
