(* ===== verification/L3_Inv.thy ===== *)
theory L3_Inv
  imports L3_Book
begin

text \<open>
  What an order book of \<open>L3_Book\<close> stands for: the list of its resting orders in time priority.  A level's
  queue is the orders of that side and price, in that order; every aggregate is derived.  The invariant
  ties the arena, the links, the levels, the index and the free list to that list, and the lemmas below
  show what linking and unlinking an order do to it.
\<close>

section \<open>Chains of references\<close>

text \<open>\<open>links nx pv p q n\<close>: the references \<open>q\<close> are linked in order, after \<open>p\<close> and before \<open>n\<close>.\<close>

fun links :: "(nat \<Rightarrow> nat) \<Rightarrow> (nat \<Rightarrow> nat) \<Rightarrow> nat \<Rightarrow> nat list \<Rightarrow> nat \<Rightarrow> bool" where
  "links nx pv p [] n = True"
| "links nx pv p (r # q) n \<longleftrightarrow> pv r = p \<and> nx r = hd (q @ [n]) \<and> links nx pv r q n"

lemma links_cong:
  "\<forall>r \<in> set q. nx r = nx' r \<and> pv r = pv' r \<Longrightarrow> links nx pv p q n = links nx' pv' p q n"
  by (induction q arbitrary: p) auto

lemma links_append:
  "links nx pv p (xs @ ys) n \<longleftrightarrow>
   links nx pv p xs (hd (ys @ [n])) \<and> links nx pv (last (p # xs)) ys n"
  by (induction xs arbitrary: p) (auto simp: hd_append)

lemma links_set_next:
  "links nx pv p xs n \<Longrightarrow> distinct xs \<Longrightarrow> xs \<noteq> [] \<Longrightarrow> links (nx(last xs := n')) pv p xs n'"
proof (induction xs arbitrary: p)
  case (Cons x xs)
  show ?case
  proof (cases "xs = []")
    case True
    with Cons show ?thesis by simp
  next
    case False
    then have "x \<noteq> last xs" using Cons.prems(2) by (metis distinct.simps(2) last_in_set)
    with Cons False show ?thesis by simp
  qed
qed simp

lemma links_set_prev:
  "links nx pv p ys n \<Longrightarrow> distinct ys \<Longrightarrow> ys \<noteq> [] \<Longrightarrow> links nx (pv(hd ys := p')) p' ys n"
proof (cases ys)
  case (Cons y zs)
  assume "links nx pv p ys n" "distinct ys"
  then show ?thesis
    using Cons links_cong [of zs nx nx pv "pv(y := p')" y n] by auto
qed simp

text \<open>Appending at the back and taking an element out, as the code writes the links.\<close>

lemma links_snoc:
  assumes "links nx pv p q n" "q \<noteq> []" "distinct q" "r \<notin> set q"
  shows "links (nx(last q := r, r := n')) (pv(r := last q)) p (q @ [r]) n'"
proof -
  have "links (nx(last q := r)) pv p q r" using assms by (intro links_set_next)
  then have "links (nx(last q := r, r := n')) (pv(r := last q)) p q r"
    using assms(4) by (subst links_cong [symmetric]) auto
  then show ?thesis using assms(2) by (simp add: links_append)
qed

lemma links_ends:
  "links nx pv p (xs @ r # ys) n \<Longrightarrow> nx r = hd (ys @ [n]) \<and> pv r = last (p # xs)"
  by (simp only: links_append) simp

lemma links_remove:
  assumes c: "links nx pv p (xs @ r # ys) n" and d: "distinct (xs @ r # ys)"
  shows "links (if xs \<noteq> [] then nx(last xs := nx r) else nx) (if ys \<noteq> [] then pv(hd ys := pv r) else pv) p (xs @ ys) n"
proof -
  let ?nx = "if xs \<noteq> [] then nx(last xs := nx r) else nx"
  let ?pv = "if ys \<noteq> [] then pv(hd ys := pv r) else pv"
  have e: "nx r = hd (ys @ [n])" "pv r = last (p # xs)" using links_ends [OF c] by auto
  have x: "links nx pv p xs r" and y: "links nx pv r ys n"
    using c by (simp_all add: links_append)
  have "links ?nx pv p xs (hd (ys @ [n]))"
    using links_set_next [OF x, of "nx r"] d e by (cases "xs = []") auto
  moreover have "\<forall>k \<in> set xs. ?pv k = pv k" using d by (cases ys) auto
  ultimately have 1: "links ?nx ?pv p xs (hd (ys @ [n]))"
    using links_cong [of xs ?nx ?nx ?pv pv] by simp
  have "links nx ?pv (last (p # xs)) ys n"
    using links_set_prev [OF y, of "pv r"] d e by (cases "ys = []") auto
  moreover have "\<forall>k \<in> set ys. ?nx k = nx k" using d by (cases xs rule: rev_cases) auto
  ultimately have 2: "links ?nx ?pv (last (p # xs)) ys n"
    using links_cong [of ys ?nx nx ?pv ?pv] by simp
  show ?thesis using 1 2 by (simp only: links_append)
qed

section \<open>Levels and their queues\<close>

definition nx :: "order list \<Rightarrow> nat \<Rightarrow> nat" where "nx os k = od_next (os ! k)"
definition pv :: "order list \<Rightarrow> nat \<Rightarrow> nat" where "pv os k = od_prev (os ! k)"
definition amount :: "order list \<Rightarrow> nat \<Rightarrow> int" where "amount os k = units (od_qty (os ! k))"
definition spot :: "order list \<Rightarrow> nat \<Rightarrow> side \<times> int" where
  "spot os k = (od_side (os ! k), ticks (od_price (os ! k)))"

definition queue :: "order list \<Rightarrow> side \<Rightarrow> int \<Rightarrow> nat list \<Rightarrow> nat list" where
  "queue os s p G = filter (\<lambda>k. spot os k = (s, p)) G"

definition level_good :: "order list \<Rightarrow> l3_level option \<Rightarrow> nat list \<Rightarrow> bool" where
  "level_good os lo q =
     (case lo of
        None \<Rightarrow> q = []
      | Some l \<Rightarrow> q \<noteq> [] \<and> units (ll_qty l) = sum_list (map (amount os) q) \<and> ll_orders l = of_nat (length q) \<and>
          ll_head l = hd q \<and> ll_tail l = last q \<and> links (nx os) (pv os) kNoOrder q kNoOrder)"

definition queues_ok :: "l3_book \<Rightarrow> nat list \<Rightarrow> bool" where
  "queues_ok b G \<longleftrightarrow>
     (\<forall>s. ascending (l3_levels s b)) \<and>
     (\<forall>s p. level_good (lb_orders b) (map_of (l3_levels s b) p) (queue (lb_orders b) s p G))"

definition refs_ok :: "order list \<Rightarrow> nat list \<Rightarrow> bool" where
  "refs_ok os G \<longleftrightarrow> distinct G \<and> set G \<subseteq> {..<length os} \<and> length os \<le> kNoOrder"

lemma level_good_cong:
  "\<forall>k \<in> set q. nx os k = nx os' k \<and> pv os k = pv os' k \<and> amount os k = amount os' k \<Longrightarrow>
   level_good os lo q = level_good os' lo q"
  using links_cong [of q "nx os" "nx os'" "pv os" "pv os'"]
  by (auto simp: level_good_def split: option.splits intro!: arg_cong [of _ _ sum_list] map_cong)

lemma queue_cong: "\<forall>k \<in> set G. spot os k = spot os' k \<Longrightarrow> queue os s p G = queue os' s p G"
  unfolding queue_def by (rule filter_cong) auto

lemma set_queue: "k \<in> set (queue os s p G) \<longleftrightarrow> k \<in> set G \<and> spot os k = (s, p)"
  by (auto simp: queue_def)

lemma field_update [simp]:
  "k < length os \<Longrightarrow> nx (os[k := v]) = (nx os)(k := od_next v)"
  "k < length os \<Longrightarrow> pv (os[k := v]) = (pv os)(k := od_prev v)"
  "k < length os \<Longrightarrow> amount (os[k := v]) = (amount os)(k := units (od_qty v))"
  "k < length os \<Longrightarrow> spot (os[k := v]) = (spot os)(k := (od_side v, ticks (od_price v)))"
  by (auto simp: nx_def pv_def amount_def spot_def fun_eq_iff nth_list_update)

lemma levels_simps [simp]:
  "l3_levels s (put_order k v b) = l3_levels s b"
  "l3_levels s (put_level s' p l b) = (if s = s' then amap_set (ticks p) l (l3_levels s b) else l3_levels s b)"
  "l3_levels s (erase_level s' p b) = (if s = s' then amap_erase (ticks p) (l3_levels s b) else l3_levels s b)"
  "lb_orders (put_level s' p l b) = lb_orders b" "lb_orders (erase_level s' p b) = lb_orders b"
  "lb_orders (put_order k v b) = (lb_orders b)[k := v]"
  by (cases s; cases s'; simp add: l3_levels_def put_order_def put_level_def erase_level_def set_levels_def)+

lemma fields_simps [simp]:
  "lb_spec (put_order k v b) = lb_spec b" "lb_free (put_order k v b) = lb_free b"
  "lb_index (put_order k v b) = lb_index b" "lb_live (put_order k v b) = lb_live b"
  "lb_spec (put_level s p l b) = lb_spec b" "lb_free (put_level s p l b) = lb_free b"
  "lb_index (put_level s p l b) = lb_index b" "lb_live (put_level s p l b) = lb_live b"
  "lb_spec (erase_level s p b) = lb_spec b" "lb_free (erase_level s p b) = lb_free b"
  "lb_index (erase_level s p b) = lb_index b" "lb_live (erase_level s p b) = lb_live b"
  by (simp_all add: put_order_def put_level_def erase_level_def set_levels_def)

text \<open>What no link operation touches: everything of an order but its links.\<close>

definition unlinked :: "order \<Rightarrow> order" where
  "unlinked ord = ord\<lparr>od_prev := kNoOrder, od_next := kNoOrder\<rparr>"

definition same_rest :: "l3_book \<Rightarrow> l3_book \<Rightarrow> bool" where
  "same_rest b b' \<longleftrightarrow>
     map unlinked (lb_orders b') = map unlinked (lb_orders b) \<and> lb_spec b' = lb_spec b \<and>
     lb_free b' = lb_free b \<and> lb_index b' = lb_index b \<and> lb_live b' = lb_live b"

lemma unlinked_update:
  "k < length os \<Longrightarrow> unlinked v = unlinked (os ! k) \<Longrightarrow> map unlinked (os[k := v]) = map unlinked os"
  by (metis length_map list_update_id map_update nth_map)

lemma same_rest_order:
  assumes "same_rest b b'" "k < length (lb_orders b)"
  shows "unlinked (lb_orders b' ! k) = unlinked (lb_orders b ! k)"
  using assms unfolding same_rest_def by (metis length_map nth_map)

lemma same_rest_facts:
  assumes "same_rest b b'"
  shows "length (lb_orders b') = length (lb_orders b)"
    and "k < length (lb_orders b) \<Longrightarrow> spot (lb_orders b') k = spot (lb_orders b) k"
    and "k < length (lb_orders b) \<Longrightarrow> amount (lb_orders b') k = amount (lb_orders b) k"
    and "k < length (lb_orders b) \<Longrightarrow> od_id (lb_orders b' ! k) = od_id (lb_orders b ! k)"
    and "k < length (lb_orders b) \<Longrightarrow> od_live (lb_orders b' ! k) = od_live (lb_orders b ! k)"
proof -
  show "length (lb_orders b') = length (lb_orders b)"
    using assms unfolding same_rest_def by (metis length_map)
  assume "k < length (lb_orders b)"
  then have u: "unlinked (lb_orders b' ! k) = unlinked (lb_orders b ! k)" by (rule same_rest_order [OF assms])
  show "spot (lb_orders b') k = spot (lb_orders b) k" "amount (lb_orders b') k = amount (lb_orders b) k"
    "od_id (lb_orders b' ! k) = od_id (lb_orders b ! k)" "od_live (lb_orders b' ! k) = od_live (lb_orders b ! k)"
    using arg_cong [OF u, of od_side] arg_cong [OF u, of od_price] arg_cong [OF u, of od_qty]
      arg_cong [OF u, of od_id] arg_cong [OF u, of od_live]
    by (simp_all add: unlinked_def spot_def amount_def)
qed

section \<open>Linking at the back\<close>

lemma link_back_same_rest:
  assumes "r < length (lb_orders b)" "ll_tail (level_for (od_side (the_order r b)) (od_price (the_order r b)) b) \<noteq> r"
    "ll_tail (level_for (od_side (the_order r b)) (od_price (the_order r b)) b) < length (lb_orders b) \<or>
     ll_tail (level_for (od_side (the_order r b)) (od_price (the_order r b)) b) = kNoOrder"
  shows "same_rest b (link_back r b)"
  using assms
  by (auto simp: link_back_def Let_def same_rest_def the_order_def unlinked_update unlinked_def split: prod.split)

lemma link_back_ok:
  assumes q: "queues_ok b G" and G: "refs_ok (lb_orders b) G" and r: "r < length (lb_orders b)" "r \<notin> set G"
  shows "queues_ok (link_back r b) (G @ [r])" "same_rest b (link_back r b)"
proof -
  define os where "os = lb_orders b"
  define s where "s = od_side (os ! r)"
  define pr where "pr = od_price (os ! r)"
  define Q where "Q = queue os s (ticks pr) G"
  define l where "l = level_for s pr b"
  define t where "t = ll_tail l"
  note defs = os_def s_def pr_def l_def t_def the_order_def
  have good: "level_good os (map_of (l3_levels s b) (ticks pr)) Q"
    using q by (simp add: queues_ok_def Q_def os_def)
  have Q: "distinct Q" "set Q \<subseteq> set G" "r \<notin> set Q" "\<forall>k \<in> set Q. k < length os \<and> k < kNoOrder"
    using G r by (auto simp: Q_def queue_def refs_ok_def os_def)
  have tail: "t = (if Q = [] then kNoOrder else last Q)"
    using good by (auto simp: level_good_def l_def t_def level_for_def l3_level0_def split: option.splits)
  have t: "t = kNoOrder \<or> t \<in> set Q \<and> t < length os \<and> t \<noteq> kNoOrder \<and> t \<noteq> r"
    using Q tail by (metis last_in_set less_irrefl)
  show sr: "same_rest b (link_back r b)"
    by (rule link_back_same_rest)
      (use r t G in \<open>auto simp: refs_ok_def defs [symmetric]\<close>, auto simp: defs refs_ok_def)
  define os' where "os' = lb_orders (link_back r b)"
  define l' where "l' = l\<lparr>ll_head := (if t \<noteq> kNoOrder then ll_head l else r), ll_tail := r,
      ll_qty := Qty (units (ll_qty l) + amount os r), ll_orders := ll_orders l + 1\<rparr>"
  have os': "os' = (let os1 = os[r := (os ! r)\<lparr>od_prev := t, od_next := kNoOrder\<rparr>] in
      if t \<noteq> kNoOrder then os1[t := (os1 ! t)\<lparr>od_next := r\<rparr>] else os1)"
    by (simp add: os'_def link_back_def Let_def defs)
  have lev: "l3_levels s' (link_back r b) =
      (if s' = s then amap_set (ticks pr) l' (l3_levels s' b) else l3_levels s' b)" for s'
    by (simp add: link_back_def Let_def defs l'_def amount_def)
  have n': "nx os' = (if t \<noteq> kNoOrder then (nx os)(t := r, r := kNoOrder) else (nx os)(r := kNoOrder))"
    using t r by (auto simp: os' Let_def os_def fun_eq_iff)
  have p': "pv os' = (pv os)(r := t)"
    using t r by (auto simp: os' Let_def os_def fun_eq_iff pv_def nth_list_update)
  have spot': "spot os' k = spot os k" and amount': "amount os' k = amount os k" if "k < length os" for k
    using same_rest_facts [OF sr] that by (simp_all add: os'_def os_def)
  have Gl: "\<forall>k \<in> set G. k < length os" using G by (auto simp: refs_ok_def os_def)
  have queue': "queue os' s' p (G @ [r]) =
      queue os s' p G @ (if (s', p) = (s, ticks pr) then [r] else [])" for s' p
  proof -
    have "queue os' s' p G = queue os s' p G" by (rule queue_cong) (use Gl spot' in auto)
    moreover have "spot os' r = (s, ticks pr)" using spot' r by (simp add: os_def s_def pr_def spot_def)
    ultimately show ?thesis by (auto simp: queue_def)
  qed
  have new: "level_good os' (Some l') (Q @ [r])"
  proof (cases "Q = []")
    case True
    then have "map_of (l3_levels s b) (ticks pr) = None"
      using good by (auto simp: level_good_def split: option.splits)
    then have "l = l3_level0" by (simp add: l_def level_for_def)
    with True tail amount' r n' p' show ?thesis
      by (simp add: level_good_def l'_def l3_level0_def os_def)
  next
    case False
    then obtain l0 where "map_of (l3_levels s b) (ticks pr) = Some l0"
      using good by (auto simp: level_good_def split: option.splits)
    then have l: "level_good os (Some l) Q" using good by (simp add: l_def level_for_def)
    have tl: "t = last Q" "t \<noteq> kNoOrder" using tail t False Q by (auto, metis last_in_set less_irrefl)
    have "links (nx os') (pv os') kNoOrder (Q @ [r]) kNoOrder"
      using links_snoc [of "nx os" "pv os" kNoOrder Q kNoOrder r kNoOrder] l False Q tl n' p'
      by (simp add: level_good_def)
    moreover have "sum_list (map (amount os') Q) = sum_list (map (amount os) Q)"
      using amount' Q by (intro arg_cong [of _ _ sum_list] map_cong) auto
    ultimately show ?thesis
      using l False tl amount' r by (simp add: level_good_def l'_def os_def)
  qed
  show "queues_ok (link_back r b) (G @ [r])"
    unfolding queues_ok_def
  proof (intro conjI allI)
    fix s'
    show "ascending (l3_levels s' (link_back r b))"
      using q by (simp add: lev queues_ok_def ascending_amap_set)
    fix p
    show "level_good (lb_orders (link_back r b)) (map_of (l3_levels s' (link_back r b)) p)
        (queue (lb_orders (link_back r b)) s' p (G @ [r]))"
    proof (cases "(s', p) = (s, ticks pr)")
      case True
      then show ?thesis
        using new q by (simp add: lev queue' [unfolded os'_def] os'_def map_of_amap_set queues_ok_def Q_def)
    next
      case False
      have "map_of (l3_levels s' (link_back r b)) p = map_of (l3_levels s' b) p"
        using False q by (auto simp: lev map_of_amap_set queues_ok_def)
      moreover have "level_good os' lo (queue os s' p G) = level_good os lo (queue os s' p G)" for lo
        by (rule level_good_cong)
          (use False t r Gl amount' Q_def in \<open>auto simp: n' p' set_queue\<close>)
      moreover have "queue os' s' p (G @ [r]) = queue os s' p G" using False by (simp only: queue') simp
      ultimately show ?thesis
        using q by (simp add: os'_def queues_ok_def os_def)
    qed
  qed
qed

section \<open>Unlinking\<close>

lemma queue_length_bound:
  assumes "refs_ok os G"
  shows "length (queue os s p G) < 4294967296"
proof -
  have "length (queue os s p G) \<le> length G" by (simp add: queue_def)
  also have "\<dots> = card (set G)" using assms by (simp add: refs_ok_def distinct_card)
  also have "\<dots> \<le> card {..<length os}" using assms by (intro card_mono) (auto simp: refs_ok_def)
  finally show ?thesis using assms by (simp add: refs_ok_def kNoOrder_def)
qed

lemma small_word_zero: "n < 4294967296 \<Longrightarrow> (of_nat n :: u32) = 0 \<longleftrightarrow> n = 0"
  by (auto simp: word_of_nat_eq_0_iff dest: dvd_imp_le)

lemma unlink_ok:
  assumes q: "queues_ok b G" and G: "refs_ok (lb_orders b) G" and r: "r \<in> set G"
  shows "queues_ok (unlink r b) (filter (\<lambda>k. k \<noteq> r) G)" "same_rest b (unlink r b)"
proof -
  define os where "os = lb_orders b"
  define s where "s = od_side (os ! r)"
  define pr where "pr = od_price (os ! r)"
  define Q where "Q = queue os s (ticks pr) G"
  define G' where "G' = filter (\<lambda>k. k \<noteq> r) G"
  note defs = os_def s_def pr_def the_order_def
  have good: "level_good os (map_of (l3_levels s b) (ticks pr)) Q"
    using q by (simp add: queues_ok_def Q_def os_def)
  have Q: "distinct Q" "set Q \<subseteq> set G" "r \<in> set Q" "\<forall>k \<in> set Q. k < length os \<and> k < kNoOrder"
    using G r by (auto simp: Q_def queue_def refs_ok_def os_def s_def pr_def spot_def)
  obtain xs ys where xy: "Q = xs @ r # ys" using split_list [OF Q(3)] by blast
  obtain l where m: "map_of (l3_levels s b) (ticks pr) = Some l" and
    l: "units (ll_qty l) = sum_list (map (amount os) Q)" "ll_orders l = of_nat (length Q)"
      "ll_head l = hd Q" "ll_tail l = last Q" "links (nx os) (pv os) kNoOrder Q kNoOrder"
    using good Q(3) by (auto simp: level_good_def split: option.splits)
  define a where "a = last (kNoOrder # xs)"
  define c where "c = hd (ys @ [kNoOrder])"
  have rl: "r < length os" using Q by auto
  have e: "od_next (os ! r) = c" "od_prev (os ! r) = a"
    using links_ends [OF l(5) [unfolded xy]] by (simp_all add: nx_def pv_def a_def c_def)
  have a: "a = kNoOrder \<longleftrightarrow> xs = []" "xs \<noteq> [] \<Longrightarrow> a = last xs \<and> a \<in> set Q \<and> a < length os \<and> a \<noteq> r"
    using Q xy by (cases xs rule: rev_cases; auto simp: a_def)+
  have c: "c = kNoOrder \<longleftrightarrow> ys = []" "ys \<noteq> [] \<Longrightarrow> c = hd ys \<and> c \<in> set Q \<and> c < length os \<and> c \<noteq> r"
    using Q xy by (cases ys; auto simp: c_def)+
  define os1 where "os1 = (if a \<noteq> kNoOrder then os[a := (os ! a)\<lparr>od_next := c\<rparr>] else os)"
  define os2 where "os2 = (if c \<noteq> kNoOrder then os1[c := (os1 ! c)\<lparr>od_prev := a\<rparr>] else os1)"
  define os' where "os' = os2[r := (os2 ! r)\<lparr>od_prev := kNoOrder, od_next := kNoOrder\<rparr>]"
  define l' where "l' = l\<lparr>ll_head := (if a \<noteq> kNoOrder then ll_head l else c),
      ll_tail := (if c \<noteq> kNoOrder then ll_tail l else a),
      ll_qty := Qty (units (ll_qty l) - amount os r), ll_orders := ll_orders l - 1\<rparr>"
  define b1 where "b1 = (if a \<noteq> kNoOrder then put_order a ((os ! a)\<lparr>od_next := c\<rparr>) b else b)"
  define b2 where "b2 = (if c \<noteq> kNoOrder then put_order c ((the_order c b1)\<lparr>od_prev := a\<rparr>) b1 else b1)"
  define b3 where "b3 = put_order r ((the_order r b2)\<lparr>od_prev := kNoOrder, od_next := kNoOrder\<rparr>) b2"
  have ord: "the_order k b = os ! k" "od_side (os ! r) = s" "od_price (os ! r) = pr" for k
    by (simp_all add: defs)
  have step: "unlink r b = (if ll_orders l' = 0 then erase_level s pr b3 else put_level s pr l' b3)"
    by (cases "a = kNoOrder"; cases "c = kNoOrder")
      (simp_all add: unlink_def Let_def ord m e b1_def b2_def b3_def l'_def amount_def)
  have "lb_orders b1 = os1" by (simp add: b1_def os1_def os_def)
  then have "lb_orders b2 = os2" by (simp add: b2_def os2_def the_order_def)
  then have b3: "lb_orders b3 = os'" by (simp add: b3_def os'_def the_order_def)
  have lev3: "l3_levels s' b3 = l3_levels s' b" for s' by (simp add: b3_def b2_def b1_def)
  have os': "lb_orders (unlink r b) = os'" by (simp add: step b3)
  have lev: "l3_levels s' (unlink r b) =
      (if s' = s then (if ll_orders l' = 0 then amap_erase (ticks pr) (l3_levels s' b)
         else amap_set (ticks pr) l' (l3_levels s' b)) else l3_levels s' b)" for s'
    by (simp add: step lev3)
  have len: "length os1 = length os" "length os2 = length os" by (simp_all add: os1_def os2_def)
  have u1: "map unlinked os1 = map unlinked os"
    using a by (auto simp: os1_def unlinked_def intro!: unlinked_update)
  have u2: "map unlinked os2 = map unlinked os1"
    using c len by (auto simp: os2_def unlinked_def intro!: unlinked_update)
  have u3: "map unlinked os' = map unlinked os2"
    using rl len by (auto simp: os'_def unlinked_def intro!: unlinked_update)
  show sr: "same_rest b (unlink r b)"
    using u1 u2 u3 os' by (simp add: same_rest_def os_def [symmetric]) (simp add: step b1_def b2_def b3_def)
  have spot': "spot os' k = spot os k" and amount': "amount os' k = amount os k" if "k < length os" for k
    using same_rest_facts [OF sr] that by (simp_all add: os' os_def [symmetric])
  have n': "nx os' k = (if xs \<noteq> [] then (nx os)(last xs := nx os r) else nx os) k" if "k \<noteq> r" for k
    using a c e len that by (auto simp: os'_def os2_def os1_def nx_def nth_list_update)
  have p': "pv os' k = (if ys \<noteq> [] then (pv os)(hd ys := pv os r) else pv os) k" if "k \<noteq> r" for k
    using a c e len that by (auto simp: os'_def os2_def os1_def pv_def nth_list_update)
  have Gl: "\<forall>k \<in> set G. k < length os" using G by (auto simp: refs_ok_def os_def)
  have queue': "queue os' s' p G' = filter (\<lambda>k. k \<noteq> r) (queue os s' p G)" for s' p
  proof -
    have "queue os' s' p G' = queue os s' p G'"
      by (rule queue_cong) (use Gl spot' in \<open>auto simp: G'_def\<close>)
    then show ?thesis by (simp add: queue_def G'_def conj_commute)
  qed
  have Q': "filter (\<lambda>k. k \<noteq> r) Q = xs @ ys"
  proof -
    have "filter (\<lambda>k. k \<noteq> r) xs = xs" "filter (\<lambda>k. k \<noteq> r) ys = ys"
      using Q(1) xy by (auto simp: filter_id_conv)
    then show ?thesis by (simp add: xy)
  qed
  have new: "level_good os' (if ll_orders l' = 0 then None else Some l') (xs @ ys)"
  proof -
    have n: "ll_orders l' = of_nat (length (xs @ ys))" using l(2) xy by (simp add: l'_def)
    have "length (xs @ ys) < 4294967296"
      using queue_length_bound [OF G, of s "ticks pr"] xy by (simp add: Q_def os_def)
    then have z: "ll_orders l' = 0 \<longleftrightarrow> xs @ ys = []"
      unfolding n using small_word_zero [of "length (xs @ ys)"] by (simp only: length_0_conv)
    show ?thesis
    proof (cases "xs @ ys = []")
      case True
      then show ?thesis using z by (simp add: level_good_def)
    next
      case False
      let ?n = "if xs \<noteq> [] then (nx os)(last xs := nx os r) else nx os"
      let ?p = "if ys \<noteq> [] then (pv os)(hd ys := pv os r) else pv os"
      have "\<forall>k \<in> set (xs @ ys). nx os' k = ?n k \<and> pv os' k = ?p k"
        using n' p' Q(1) xy by (metis Un_iff disjoint_insert(1) distinct_append distinct.simps(2) list.set(2) set_append)
      then have "links (nx os') (pv os') kNoOrder (xs @ ys) kNoOrder = links ?n ?p kNoOrder (xs @ ys) kNoOrder"
        by (rule links_cong)
      then have "links (nx os') (pv os') kNoOrder (xs @ ys) kNoOrder"
        using links_remove [OF l(5) [unfolded xy]] Q(1) xy by simp
      moreover have "sum_list (map (amount os') (xs @ ys)) = units (ll_qty l) - amount os r"
      proof -
        have "sum_list (map (amount os') (xs @ ys)) = sum_list (map (amount os) (xs @ ys))"
          using amount' Q xy by (intro arg_cong [of _ _ sum_list] map_cong) auto
        then show ?thesis using l(1) xy by simp
      qed
      moreover have "ll_head l' = hd (xs @ ys)" "ll_tail l' = last (xs @ ys)"
        using l(3,4) a c xy False by (auto simp: l'_def)
      moreover have "units (ll_qty l') = units (ll_qty l) - amount os r" by (simp add: l'_def)
      ultimately have "level_good os' (Some l') (xs @ ys)"
        using False n by (simp add: level_good_def)
      then show ?thesis using False z by auto
    qed
  qed
  show "queues_ok (unlink r b) (filter (\<lambda>k. k \<noteq> r) G)"
    unfolding queues_ok_def G'_def [symmetric] os'
  proof (intro conjI allI)
    fix s'
    show "ascending (l3_levels s' (unlink r b))"
      using q by (simp add: lev queues_ok_def ascending_amap_set ascending_amap_erase)
    fix p
    show "level_good os' (map_of (l3_levels s' (unlink r b)) p) (queue os' s' p G')"
    proof (cases "(s', p) = (s, ticks pr)")
      case True
      have "ascending (l3_levels s b)" using q by (simp add: queues_ok_def)
      then have "map_of (l3_levels s' (unlink r b)) p = (if ll_orders l' = 0 then None else Some l')"
        using True by (simp add: lev map_of_amap_set map_of_amap_erase)
      moreover have "queue os' s' p G' = xs @ ys" using True Q' by (simp add: queue' Q_def)
      ultimately show ?thesis using new by (simp only:)
    next
      case False
      have 1: "map_of (l3_levels s' (unlink r b)) p = map_of (l3_levels s' b) p"
        using False q by (auto simp: lev map_of_amap_set map_of_amap_erase queues_ok_def)
      have r: "r \<notin> set (queue os s' p G)" using False by (auto simp: set_queue spot_def s_def pr_def)
      then have 2: "queue os' s' p G' = queue os s' p G" by (auto simp: queue' filter_id_conv)
      have disj: "k \<notin> set Q" if "k \<in> set (queue os s' p G)" for k
        using that False by (auto simp: set_queue Q_def)
      have "level_good os' lo (queue os s' p G) = level_good os lo (queue os s' p G)" for lo
      proof (rule level_good_cong, intro ballI)
        fix k assume k: "k \<in> set (queue os s' p G)"
        then have ks: "k \<noteq> r" "k \<notin> set Q" "k < length os" using r disj Gl by (auto simp: set_queue)
        have ends: "xs \<noteq> [] \<Longrightarrow> last xs \<in> set Q" "ys \<noteq> [] \<Longrightarrow> hd ys \<in> set Q" using xy by simp_all
        have "k \<noteq> last xs \<or> xs = []" "k \<noteq> hd ys \<or> ys = []" using ends ks(2) by blast+
        then show "nx os' k = nx os k \<and> pv os' k = pv os k \<and> amount os' k = amount os k"
          using n' [OF ks(1)] p' [OF ks(1)] amount' [OF ks(3)] by (cases "xs = []"; cases "ys = []") simp_all
      qed
      then show ?thesis using q 1 2 by (simp add: queues_ok_def os_def)
    qed
  qed
qed

end
