(* ===== verification/L3_Refine.thy ===== *)
theory L3_Refine
  imports L3_Inv
begin

text \<open>
  The order book refines its list of resting orders.  The specification keeps the orders in time priority
  and nothing else; every operation of \<open>L3_Book\<close> is shown to keep the invariant and to do to the list what
  the specification says.
\<close>

section \<open>The specification\<close>

record resting =
  re_id :: order_id
  re_side :: side
  re_price :: int
  re_qty :: int

datatype l3_op =
    L3Add order_id side price qty
  | L3Modify order_id qty
  | L3Remove order_id
  | L3Execute order_id qty
  | L3Clear

definition resting_ids :: "resting list \<Rightarrow> order_id list" where
  "resting_ids R = map re_id R"

definition lookup_resting :: "order_id \<Rightarrow> resting list \<Rightarrow> resting option" where
  "lookup_resting i R = find (\<lambda>x. re_id x = i) R"

definition without :: "order_id \<Rightarrow> resting list \<Rightarrow> resting list" where
  "without i R = filter (\<lambda>x. re_id x \<noteq> i) R"

definition with_qty :: "order_id \<Rightarrow> int \<Rightarrow> resting list \<Rightarrow> resting list" where
  "with_qty i q R = map (\<lambda>x. if re_id x = i then x\<lparr>re_qty := q\<rparr> else x) R"

fun spec_l3 :: "l3_op \<Rightarrow> resting list \<Rightarrow> bool \<times> resting list" where
  "spec_l3 (L3Add i s p q) R =
     (if units q \<le> 0 \<or> lookup_resting i R \<noteq> None then (False, R)
      else (True, R @ [\<lparr>re_id = i, re_side = s, re_price = ticks p, re_qty = units q\<rparr>]))"
| "spec_l3 (L3Modify i q) R =
     (case lookup_resting i R of
        None \<Rightarrow> (False, R)
      | Some x \<Rightarrow>
          (True, if units q \<le> 0 then without i R
             else if re_qty x < units q then without i R @ [x\<lparr>re_qty := units q\<rparr>]
             else with_qty i (units q) R))"
| "spec_l3 (L3Remove i) R = (if lookup_resting i R = None then (False, R) else (True, without i R))"
| "spec_l3 (L3Execute i t) R =
     (case lookup_resting i R of
        None \<Rightarrow> (False, R)
      | Some x \<Rightarrow>
          if units t \<le> 0 then (False, R)
          else (True, if re_qty x \<le> units t then without i R else with_qty i (re_qty x - units t) R))"
| "spec_l3 L3Clear R = (True, [])"

fun apply_l3 :: "l3_op \<Rightarrow> l3_book \<Rightarrow> (bool \<times> l3_book) option" where
  "apply_l3 (L3Add i s p q) b = l3_add i s p q b"
| "apply_l3 (L3Modify i q) b = Some (l3_modify i q b)"
| "apply_l3 (L3Remove i) b = Some (l3_remove i b)"
| "apply_l3 (L3Execute i q) b = Some (l3_execute i q b)"
| "apply_l3 L3Clear b = Some (True, l3_clear b)"

section \<open>The invariant\<close>

definition resting_of :: "order \<Rightarrow> resting" where
  "resting_of ord = \<lparr>re_id = od_id ord, re_side = od_side ord, re_price = ticks (od_price ord),
     re_qty = units (od_qty ord)\<rparr>"

definition resting_list :: "order list \<Rightarrow> nat list \<Rightarrow> resting list" where
  "resting_list os G = map (\<lambda>k. resting_of (os ! k)) G"

definition index_map :: "order list \<Rightarrow> nat list \<Rightarrow> (order_id \<rightharpoonup> nat)" where
  "index_map os G = map_of (map (\<lambda>k. (od_id (os ! k), k)) G)"

definition arena_ok :: "order list \<Rightarrow> nat list \<Rightarrow> nat list \<Rightarrow> bool" where
  "arena_ok os free G \<longleftrightarrow>
     refs_ok os G \<and> set G = {k. k < length os \<and> od_live (os ! k)} \<and>
     distinct free \<and> set free = {k. k < length os \<and> \<not> od_live (os ! k)} \<and>
     distinct (map (\<lambda>k. od_id (os ! k)) G) \<and> (\<forall>k \<in> set G. 0 < amount os k)"

definition l3_inv :: "l3_book \<Rightarrow> nat list \<Rightarrow> bool" where
  "l3_inv b G \<longleftrightarrow>
     arena_ok (lb_orders b) (lb_free b) G \<and> queues_ok b G \<and>
     holds_index (lb_index b) (index_map (lb_orders b) G) \<and> lb_live b = length G"

definition l3_holds :: "l3_book \<Rightarrow> resting list \<Rightarrow> bool" where
  "l3_holds b R \<longleftrightarrow> (\<exists>G. l3_inv b G \<and> R = resting_list (lb_orders b) G)"

section \<open>Looking an order up\<close>

lemma resting_of_fields [simp]:
  "re_id (resting_of x) = od_id x" "re_side (resting_of x) = od_side x"
  "re_price (resting_of x) = ticks (od_price x)" "re_qty (resting_of x) = units (od_qty x)"
  by (simp_all add: resting_of_def)

lemma index_map_Some:
  "distinct (map (\<lambda>k. od_id (os ! k)) G) \<Longrightarrow>
   index_map os G i = Some r \<longleftrightarrow> r \<in> set G \<and> od_id (os ! r) = i"
  by (auto simp: index_map_def map_of_eq_Some_iff comp_def)

lemma index_map_None: "index_map os G i = None \<longleftrightarrow> (\<forall>k \<in> set G. od_id (os ! k) \<noteq> i)"
  by (auto simp: index_map_def map_of_eq_None_iff image_image)

lemma find_unique:
  "r \<in> set G \<Longrightarrow> distinct (map f G) \<Longrightarrow> find (\<lambda>x. P x) (map g G) = Some (g r)"
  if "\<And>k. P (g k) \<longleftrightarrow> f k = f r"
  using that by (induction G) auto

lemma lookup_found:
  assumes "r \<in> set G" "distinct (map (\<lambda>k. od_id (os ! k)) G)"
  shows "lookup_resting (od_id (os ! r)) (resting_list os G) = Some (resting_of (os ! r))"
  unfolding lookup_resting_def resting_list_def by (rule find_unique) (use assms in auto)

lemma lookup_missing:
  "\<forall>k \<in> set G. od_id (os ! k) \<noteq> i \<Longrightarrow> lookup_resting i (resting_list os G) = None"
  by (auto simp: lookup_resting_def resting_list_def find_None_iff)

lemma find_ref_cases:
  assumes "l3_inv b G"
  obtains (missing) "find_ref i (lb_index b) = kNoOrder" "\<forall>k \<in> set G. od_id (the_order k b) \<noteq> i"
      "lookup_resting i (resting_list (lb_orders b) G) = None"
  | (found) r where "find_ref i (lb_index b) = r" "r \<noteq> kNoOrder" "r \<in> set G" "r < length (lb_orders b)"
      "od_id (the_order r b) = i"
      "lookup_resting i (resting_list (lb_orders b) G) = Some (resting_of (the_order r b))"
proof -
  have h: "holds_index (lb_index b) (index_map (lb_orders b) G)"
    and a: "arena_ok (lb_orders b) (lb_free b) G" using assms by (simp_all add: l3_inv_def)
  note d = a [unfolded arena_ok_def refs_ok_def]
  show ?thesis
  proof (cases "index_map (lb_orders b) G i")
    case None
    then have n: "\<forall>k \<in> set G. od_id (lb_orders b ! k) \<noteq> i" by (simp add: index_map_None)
    show ?thesis
      by (rule missing) (use order_index.find_exact [OF h, of i] None n lookup_missing [OF n] in \<open>simp_all add: the_order_def\<close>)
  next
    case (Some r)
    then have r: "r \<in> set G" "od_id (lb_orders b ! r) = i" using d by (simp_all add: index_map_Some)
    then have "r < length (lb_orders b)" "r \<noteq> kNoOrder" using d by auto
    then show ?thesis
      using found [of r] order_index.find_exact [OF h, of i] Some r lookup_found [of r G "lb_orders b"] d
      by (simp add: the_order_def)
  qed
qed

section \<open>How the parts depend on the arena\<close>

lemma queues_ok_cong:
  assumes "\<And>s. l3_levels s b' = l3_levels s b"
    and "\<And>k. k \<in> set G \<Longrightarrow> nx (lb_orders b') k = nx (lb_orders b) k \<and> pv (lb_orders b') k = pv (lb_orders b) k \<and>
      amount (lb_orders b') k = amount (lb_orders b) k \<and> spot (lb_orders b') k = spot (lb_orders b) k"
  shows "queues_ok b' G = queues_ok b G"
proof -
  have "queue (lb_orders b') s p G = queue (lb_orders b) s p G" for s p
    using assms(2) by (intro queue_cong) auto
  moreover have "level_good (lb_orders b') lo (queue (lb_orders b) s p G) =
      level_good (lb_orders b) lo (queue (lb_orders b) s p G)" for lo s p
    using assms(2) by (intro level_good_cong) (auto simp: set_queue)
  ultimately show ?thesis using assms(1) by (simp add: queues_ok_def)
qed

lemma levels_other_fields [simp]:
  "l3_levels s (b\<lparr>lb_index := x\<rparr>) = l3_levels s b" "l3_levels s (b\<lparr>lb_live := n\<rparr>) = l3_levels s b"
  "l3_levels s (b\<lparr>lb_free := fr\<rparr>) = l3_levels s b" "l3_levels s (b\<lparr>lb_orders := os\<rparr>) = l3_levels s b"
  by (simp_all add: l3_levels_def)

lemma index_map_cong:
  "\<forall>k \<in> set G. od_id (os' ! k) = od_id (os ! k) \<Longrightarrow> index_map os' G = index_map os G"
  unfolding index_map_def by (intro arg_cong [of _ _ map_of] map_cong) auto

lemma resting_list_cong:
  "\<forall>k \<in> set G. resting_of (os' ! k) = resting_of (os ! k) \<Longrightarrow> resting_list os' G = resting_list os G"
  unfolding resting_list_def by (rule map_cong) auto

lemma resting_of_eq:
  "spot os' k = spot os k \<Longrightarrow> amount os' k = amount os k \<Longrightarrow> od_id (os' ! k) = od_id (os ! k) \<Longrightarrow>
   resting_of (os' ! k) = resting_of (os ! k)"
  by (simp add: resting_of_def spot_def amount_def)

lemma index_map_remove:
  assumes "distinct (map (\<lambda>k. od_id (os ! k)) G)" "r \<in> set G"
  shows "index_map os (filter (\<lambda>k. k \<noteq> r) G) = (index_map os G)(od_id (os ! r) := None)"
proof
  fix i
  have d: "distinct (map (\<lambda>k. od_id (os ! k)) (filter (\<lambda>k. k \<noteq> r) G))"
    using assms(1) by (simp add: distinct_map inj_on_def)
  have inj: "k = r" if "k \<in> set G" "od_id (os ! k) = od_id (os ! r)" for k
    using assms that by (auto simp: distinct_map inj_on_def)
  show "index_map os (filter (\<lambda>k. k \<noteq> r) G) i = ((index_map os G)(od_id (os ! r) := None)) i"
  proof (cases "index_map os (filter (\<lambda>k. k \<noteq> r) G) i")
    case None
    then have "\<forall>k \<in> set G. od_id (os ! k) \<noteq> i \<or> k = r" by (auto simp: index_map_None)
    then have "i \<noteq> od_id (os ! r) \<Longrightarrow> index_map os G i = None" unfolding index_map_None by blast
    then show ?thesis using None by simp
  next
    case (Some k)
    then have "k \<in> set G" "k \<noteq> r" "od_id (os ! k) = i" using d by (auto simp: index_map_Some)
    then have "index_map os G i = Some k" "i \<noteq> od_id (os ! r)"
      using assms inj by (auto simp: index_map_Some)
    then show ?thesis using Some by simp
  qed
qed

lemma resting_list_remove:
  assumes "distinct (map (\<lambda>k. od_id (os ! k)) G)" "r \<in> set G"
  shows "resting_list os (filter (\<lambda>k. k \<noteq> r) G) = without (od_id (os ! r)) (resting_list os G)"
proof -
  have "od_id (os ! k) = od_id (os ! r) \<longleftrightarrow> k = r" if "k \<in> set G" for k
    using assms that by (auto simp: distinct_map inj_on_def)
  then show ?thesis
    by (auto simp: resting_list_def without_def filter_map comp_def intro!: arg_cong [of _ _ "map _"] filter_cong)
qed

lemma map_upd_notin: "k \<notin> set q \<Longrightarrow> map (f(k := v)) q = map f q"
  by (induction q) auto

lemma arena_ok_cong:
  assumes a: "arena_ok os fr G" and l: "length os' = length os"
    and live: "\<And>k. k < length os \<Longrightarrow> od_live (os' ! k) = od_live (os ! k)"
    and ids: "\<And>k. k \<in> set G \<Longrightarrow> od_id (os' ! k) = od_id (os ! k)"
    and pos: "\<And>k. k \<in> set G \<Longrightarrow> 0 < amount os' k"
  shows "arena_ok os' fr G"
proof -
  have 1: "{k. k < length os \<and> od_live (os' ! k)} = {k. k < length os \<and> od_live (os ! k)}"
    and 2: "{k. k < length os \<and> \<not> od_live (os' ! k)} = {k. k < length os \<and> \<not> od_live (os ! k)}"
    using live l by auto
  have 3: "map (\<lambda>k. od_id (os' ! k)) G = map (\<lambda>k. od_id (os ! k)) G"
    using ids by (intro map_cong) auto
  have 4: "\<forall>k \<in> set G. 0 < amount os' k" using pos by blast
  show ?thesis
    using a 4 unfolding arena_ok_def refs_ok_def 1 2 3 l by (elim conjE) (intro conjI; assumption)
qed

section \<open>Changing a quantity in place\<close>

lemma requantify_ok:
  assumes q: "queues_ok b G" and G: "refs_ok (lb_orders b) G" and r: "r \<in> set G"
    and s: "s = od_side (the_order r b)" and pr: "pr = od_price (the_order r b)"
    and l: "l' = (level_for s pr b)\<lparr>ll_qty := Qty (units (ll_qty (level_for s pr b)) + (units v - units (od_qty (the_order r b))))\<rparr>"
    and b': "b' = put_order r ((the_order r b)\<lparr>od_qty := v\<rparr>) (put_level s pr l' b)"
  shows "queues_ok b' G"
proof -
  define os where "os = lb_orders b"
  define os' where "os' = os[r := (os ! r)\<lparr>od_qty := v\<rparr>]"
  have rl: "r < length os" using G r by (auto simp: refs_ok_def os_def)
  have os': "lb_orders b' = os'" by (simp add: b' os'_def os_def the_order_def)
  have f: "nx os' = nx os" "pv os' = pv os" "spot os' = spot os" "amount os' = (amount os)(r := units v)"
    using rl by (auto simp: os'_def nx_def pv_def spot_def fun_eq_iff)
  have ql: "queue os' s' p G = queue os s' p G" for s' p by (simp add: queue_def f)
  have rq: "r \<in> set (queue os s' p G) \<longleftrightarrow> (s', p) = (s, ticks pr)" for s' p
    using r by (auto simp: set_queue spot_def s pr os_def the_order_def)
  have asc: "ascending (l3_levels s' b)" for s' using q by (simp add: queues_ok_def)
  have good: "level_good os (map_of (l3_levels s' b) p) (queue os s' p G)" for s' p
    using q by (simp add: queues_ok_def os_def)
  obtain l where ml: "map_of (l3_levels s b) (ticks pr) = Some l"
    and lg: "level_good os (Some l) (queue os s (ticks pr) G)"
    using good [of s "ticks pr"] rq [of s "ticks pr"] by (auto simp: level_good_def split: option.splits)
  have l': "l' = l\<lparr>ll_qty := Qty (units (ll_qty l) + (units v - amount os r))\<rparr>"
    using ml by (simp add: l level_for_def amount_def os_def the_order_def)
  have dq: "distinct (queue os s (ticks pr) G)" using G by (simp add: queue_def refs_ok_def)
  have sum: "sum_list (map ((amount os)(r := units v)) Q) = sum_list (map (amount os) Q) + (units v - amount os r)"
    if "distinct Q" "r \<in> set Q" for Q
  proof -
    obtain xs ys where "Q = xs @ r # ys" using \<open>r \<in> set Q\<close> by (meson split_list)
    then show ?thesis using \<open>distinct Q\<close> by (simp add: map_upd_notin)
  qed
  have new: "level_good os' (Some l') (queue os s (ticks pr) G)"
    using lg sum [OF dq] rq [of s "ticks pr"] by (simp add: level_good_def l' f)
  show ?thesis
    unfolding queues_ok_def
  proof (intro conjI allI)
    fix s' p
    show "ascending (l3_levels s' b')" using asc by (simp add: b' ascending_amap_set)
    show "level_good (lb_orders b') (map_of (l3_levels s' b') p) (queue (lb_orders b') s' p G)"
    proof (cases "(s', p) = (s, ticks pr)")
      case True
      then have "map_of (l3_levels s' b') p = Some l'" using asc [of s] by (simp add: b' map_of_amap_set)
      then show ?thesis using new True by (simp add: os' ql)
    next
      case False
      have "map_of (l3_levels s' b') p = map_of (l3_levels s' b) p"
        using False asc [of s] by (auto simp: b' map_of_amap_set)
      moreover have "level_good os' lo (queue os s' p G) = level_good os lo (queue os s' p G)" for lo
        by (rule level_good_cong) (use rq [of s' p] False in \<open>auto simp: f\<close>)
      ultimately show ?thesis using good by (simp add: os' ql)
    qed
  qed
qed

lemma with_qty_update:
  assumes "distinct (map (\<lambda>k. od_id (os ! k)) G)" "r \<in> set G" "r < length os"
  shows "resting_list (os[r := (os ! r)\<lparr>od_qty := v\<rparr>]) G = with_qty (od_id (os ! r)) (units v) (resting_list os G)"
proof -
  have "od_id (os ! k) = od_id (os ! r) \<longleftrightarrow> k = r" if "k \<in> set G" for k
    using assms that by (auto simp: distinct_map inj_on_def)
  then show ?thesis
    using assms(3) by (auto simp: resting_list_def with_qty_def resting_of_def nth_list_update)
qed

lemma arena_requantify:
  assumes a: "arena_ok os fr G" and r: "r < length os" and v: "0 < units v"
  shows "arena_ok (os[r := (os ! r)\<lparr>od_qty := v\<rparr>]) fr G"
  by (rule arena_ok_cong [OF a]) (use r v a in \<open>auto simp: nth_list_update arena_ok_def\<close>)

lemma requantify_holds:
  assumes i: "l3_inv b G" and r: "r \<in> set G" and v: "0 < units v"
    and s: "s = od_side (the_order r b)" and pr: "pr = od_price (the_order r b)"
    and l: "l' = (level_for s pr b)\<lparr>ll_qty := Qty (units (ll_qty (level_for s pr b)) + (units v - units (od_qty (the_order r b))))\<rparr>"
    and b': "b' = put_order r ((the_order r b)\<lparr>od_qty := v\<rparr>) (put_level s pr l' b)"
  shows "l3_inv b' G"
    and "resting_list (lb_orders b') G = with_qty (od_id (the_order r b)) (units v) (resting_list (lb_orders b) G)"
proof -
  have a: "arena_ok (lb_orders b) (lb_free b) G" and q: "queues_ok b G"
    and h: "holds_index (lb_index b) (index_map (lb_orders b) G)" and n: "lb_live b = length G"
    using i by (simp_all add: l3_inv_def)
  have rl: "r < length (lb_orders b)" using a r by (auto simp: arena_ok_def)
  have os': "lb_orders b' = (lb_orders b)[r := (lb_orders b ! r)\<lparr>od_qty := v\<rparr>]"
    by (simp add: b' the_order_def)
  have "queues_ok b' G" by (rule requantify_ok [OF q _ r s pr l b']) (use a in \<open>simp add: arena_ok_def\<close>)
  moreover have "arena_ok (lb_orders b') (lb_free b') G"
    using arena_requantify [OF a rl v] by (simp add: os') (simp add: b')
  moreover have "index_map (lb_orders b') G = index_map (lb_orders b) G"
    by (rule index_map_cong) (use rl in \<open>auto simp: os' nth_list_update\<close>)
  ultimately show "l3_inv b' G" using h n by (simp add: l3_inv_def) (simp add: b')
  show "resting_list (lb_orders b') G = with_qty (od_id (the_order r b)) (units v) (resting_list (lb_orders b) G)"
    using with_qty_update [of "lb_orders b" G r v] a r rl by (simp add: os' the_order_def arena_ok_def)
qed

section \<open>Removing and re-queueing\<close>

lemma arena_same_rest:
  assumes "same_rest b b'" "arena_ok (lb_orders b) fr G"
  shows "arena_ok (lb_orders b') fr G"
  using same_rest_facts [OF assms(1)] assms(2)
  by (intro arena_ok_cong [OF assms(2)]) (auto simp: arena_ok_def)

lemma same_rest_maps:
  assumes "same_rest b b'" "\<forall>k \<in> set G. k < length (lb_orders b)"
  shows "index_map (lb_orders b') G = index_map (lb_orders b) G"
    "resting_list (lb_orders b') G = resting_list (lb_orders b) G"
  using assms same_rest_facts [OF assms(1)]
  by (auto intro!: index_map_cong resting_list_cong resting_of_eq)

lemma l3_remove_holds:
  assumes "l3_inv b G"
  shows "(lookup_resting i (resting_list (lb_orders b) G) = None \<and> l3_remove i b = (False, b)) \<or>
     (lookup_resting i (resting_list (lb_orders b) G) \<noteq> None \<and>
      (\<exists>b' G'. l3_remove i b = (True, b') \<and> l3_inv b' G' \<and>
        resting_list (lb_orders b') G' = without i (resting_list (lb_orders b) G) \<and>
        length (lb_orders b') = length (lb_orders b)))"
  using assms
proof (cases rule: find_ref_cases [where i = i])
  case missing
  then show ?thesis by (simp add: l3_remove_def)
next
  case (found r)
  have a: "arena_ok (lb_orders b) (lb_free b) G" and q: "queues_ok b G"
    and h: "holds_index (lb_index b) (index_map (lb_orders b) G)" and n: "lb_live b = length G"
    using assms by (simp_all add: l3_inv_def)
  have rf: "refs_ok (lb_orders b) G" and di: "distinct (map (\<lambda>k. od_id (lb_orders b ! k)) G)"
    using a by (simp_all add: arena_ok_def)
  define G' where "G' = filter (\<lambda>k. k \<noteq> r) G"
  define b1 where "b1 = unlink r b"
  note u = unlink_ok [OF q rf found(3), folded b1_def G'_def]
  note sr = u(2)
  note srf = same_rest_facts [OF sr]
  have Gl: "\<forall>k \<in> set G. k < length (lb_orders b)" using a by (auto simp: arena_ok_def)
  define os' where "os' = (lb_orders b1)[r := (lb_orders b1 ! r)\<lparr>od_live := False\<rparr>]"
  define b' where "b' = (put_order r ((the_order r b1)\<lparr>od_live := False\<rparr>) (b1\<lparr>lb_index := erase_ref i (lb_index b1)\<rparr>))
      \<lparr>lb_free := lb_free b1 @ [r], lb_live := lb_live b1 - 1\<rparr>"
  have os': "lb_orders b' = os'" by (simp add: b'_def os'_def the_order_def)
  have rl: "r < length (lb_orders b1)" using found(4) srf(1) by simp
  have rem: "l3_remove i b = (True, b')"
    using found(1,2) by (simp add: l3_remove_def Let_def b'_def b1_def the_order_def)
  have fl: "nx os' = nx (lb_orders b1)" "pv os' = pv (lb_orders b1)" "amount os' = amount (lb_orders b1)"
    "spot os' = spot (lb_orders b1)"
    using rl by (auto simp: os'_def nx_def pv_def amount_def spot_def fun_eq_iff nth_list_update)
  have ids: "od_id (os' ! k) = od_id (lb_orders b1 ! k)" for k
    using rl by (cases "k = r") (auto simp: os'_def)
  have q': "queues_ok b' G'"
  proof -
    have "queues_ok b' G' = queues_ok b1 G'"
      by (rule queues_ok_cong) (simp_all add: os' fl b'_def [symmetric], simp add: b'_def)
    then show ?thesis using u(1) by simp
  qed
  have a1: "arena_ok (lb_orders b1) (lb_free b) G" by (rule arena_same_rest [OF sr a])
  have lv: "od_live (os' ! k) = (k \<noteq> r \<and> od_live (lb_orders b1 ! k))" for k
    using rl by (cases "k = r") (auto simp: os'_def)
  have lo: "length os' = length (lb_orders b1)" by (simp add: os'_def)
  have "set G' = {k. k < length os' \<and> od_live (os' ! k)}"
    unfolding lv lo using a1 by (auto simp: arena_ok_def G'_def)
  moreover have "distinct (lb_free b @ [r])" "set (lb_free b @ [r]) = {k. k < length os' \<and> \<not> od_live (os' ! k)}"
    unfolding lv lo using a1 found(3) rl by (auto simp: arena_ok_def)
  moreover have "map (\<lambda>k. od_id (os' ! k)) G' = filter (\<lambda>j. j \<noteq> i) (map (\<lambda>k. od_id (lb_orders b1 ! k)) G)"
  proof -
    have "od_id (lb_orders b1 ! k) = i \<longleftrightarrow> k = r" if "k \<in> set G" for k
      using that found(3,5) di Gl srf(4) by (auto simp: distinct_map inj_on_def the_order_def)
    then show ?thesis by (auto simp: G'_def ids filter_map comp_def intro!: arg_cong [of _ _ "map _"] filter_cong)
  qed
  ultimately have a': "arena_ok os' (lb_free b @ [r]) G'"
    using a1 unfolding arena_ok_def refs_ok_def fl lo by (auto simp: G'_def)
  have im: "index_map os' G' = (index_map (lb_orders b) G)(i := None)"
  proof -
    have "index_map os' G' = index_map (lb_orders b) G'"
      by (rule index_map_cong) (use ids srf(4) Gl in \<open>auto simp: G'_def\<close>)
    then show ?thesis using index_map_remove [OF di found(3)] found(5) by (simp add: G'_def the_order_def)
  qed
  have ix: "lb_index b' = erase_ref i (lb_index b)" "lb_free b' = lb_free b @ [r]" "lb_live b' = lb_live b - 1"
    using sr by (simp_all add: b'_def same_rest_def)
  have "length G' = length G - 1"
  proof -
    have "G' = remove1 r G" using rf by (simp add: G'_def refs_ok_def distinct_remove1_removeAll removeAll_filter_not_eq eq_commute)
    then show ?thesis using found(3) by (simp add: length_remove1)
  qed
  then have "l3_inv b' G'"
    using q' a' im ix n order_index.erase_exact [OF h, of i] by (simp add: l3_inv_def os')
  moreover have "resting_list (lb_orders b') G' = without i (resting_list (lb_orders b) G)"
  proof -
    have "resting_list os' G' = resting_list (lb_orders b) G'"
      by (rule resting_list_cong, intro ballI resting_of_eq)
        (use fl ids srf Gl in \<open>auto simp: G'_def\<close>)
    then show ?thesis
      using resting_list_remove [OF di found(3)] found(5) by (simp add: os' G'_def the_order_def)
  qed
  moreover have "length (lb_orders b') = length (lb_orders b)" using srf(1) by (simp add: os' os'_def)
  ultimately show ?thesis using rem found(6) by blast
qed

lemma index_map_permute:
  assumes "distinct (map (\<lambda>k. od_id (os ! k)) G)" "distinct (map (\<lambda>k. od_id (os ! k)) G')" "set G' = set G"
  shows "index_map os G' = index_map os G"
proof
  fix i
  show "index_map os G' i = index_map os G i"
  proof (cases "index_map os G i")
    case None
    then have "\<forall>k \<in> set G'. od_id (os ! k) \<noteq> i" using assms(3) by (simp add: index_map_None)
    then have "index_map os G' i = None" unfolding index_map_None .
    then show ?thesis using None by simp
  next
    case (Some r)
    then have "index_map os G' i = Some r"
      using assms by (simp add: index_map_Some)
    then show ?thesis using Some by simp
  qed
qed

lemma requeue_holds:
  assumes i: "l3_inv b G" and r: "r \<in> set G" and b': "b' = link_back r (unlink r b)"
    and G': "G' = filter (\<lambda>k. k \<noteq> r) G @ [r]"
  shows "l3_inv b' G'"
    and "resting_list (lb_orders b') G' =
      without (od_id (the_order r b)) (resting_list (lb_orders b) G) @ [resting_of (the_order r b)]"
    and "length (lb_orders b') = length (lb_orders b)"
proof -
  have a: "arena_ok (lb_orders b) (lb_free b) G" and q: "queues_ok b G"
    and h: "holds_index (lb_index b) (index_map (lb_orders b) G)" and n: "lb_live b = length G"
    using i by (simp_all add: l3_inv_def)
  have rf: "refs_ok (lb_orders b) G" and di: "distinct (map (\<lambda>k. od_id (lb_orders b ! k)) G)"
    using a by (simp_all add: arena_ok_def)
  define H where "H = filter (\<lambda>k. k \<noteq> r) G"
  note u = unlink_ok [OF q rf r, folded H_def]
  note f1 = same_rest_facts [OF u(2)]
  have rl: "r < length (lb_orders b)" using rf r by (auto simp: refs_ok_def)
  have "refs_ok (lb_orders (unlink r b)) H" "r < length (lb_orders (unlink r b))" "r \<notin> set H"
    using rf rl f1(1) by (auto simp: refs_ok_def H_def)
  note k = link_back_ok [OF u(1) this]
  have sr: "same_rest b b'" using u(2) k(2) by (simp add: b' same_rest_def)
  note f = same_rest_facts [OF sr]
  show "length (lb_orders b') = length (lb_orders b)" by (rule f(1))
  have Gl: "\<forall>k \<in> set G. k < length (lb_orders b)" using a by (auto simp: arena_ok_def)
  have set: "set G' = set G" and len: "length G' = length G" and dG': "distinct G'"
  proof -
    have "G' = remove1 r G @ [r]"
      using rf by (simp add: G' refs_ok_def distinct_remove1_removeAll removeAll_filter_not_eq eq_commute)
    moreover have "0 < length G" using r by (cases G) auto
    ultimately show "set G' = set G" "length G' = length G" "distinct G'"
      using r rf by (auto simp: G' length_remove1 refs_ok_def)
  qed
  have di': "distinct (map (\<lambda>k. od_id (lb_orders b ! k)) G')"
    using di dG' set by (simp add: distinct_map)
  have "arena_ok (lb_orders b) (lb_free b) G'"
    using a dG' di' unfolding arena_ok_def refs_ok_def set by blast
  then have "arena_ok (lb_orders b') (lb_free b') G'"
    using arena_same_rest [OF sr] sr by (simp add: same_rest_def)
  moreover have "index_map (lb_orders b') G' = index_map (lb_orders b) G"
    using same_rest_maps(1) [OF sr, of G'] index_map_permute [OF di di' set] Gl set by simp
  moreover have "queues_ok b' G'" using k(1) by (simp add: b' G' H_def)
  ultimately show "l3_inv b' G'"
    using h n sr len by (simp add: l3_inv_def same_rest_def)
  have e: "resting_list (lb_orders b') G' = resting_list (lb_orders b) G'"
    using same_rest_maps(2) [OF sr, of G'] Gl set by simp
  show "resting_list (lb_orders b') G' =
      without (od_id (the_order r b)) (resting_list (lb_orders b) G) @ [resting_of (the_order r b)]"
    unfolding e using resting_list_remove [OF di r] by (simp add: G' resting_list_def the_order_def)
qed

lemma without_with_qty: "without i (with_qty i q R) = without i R"
  by (induction R) (auto simp: without_def with_qty_def)

section \<open>Every operation\<close>

definition refines_l3 :: "bool \<times> l3_book \<Rightarrow> bool \<times> resting list \<Rightarrow> l3_book \<Rightarrow> bool" where
  "refines_l3 res sp b \<longleftrightarrow>
     fst res = fst sp \<and> l3_holds (snd res) (snd sp) \<and> length (lb_orders (snd res)) \<le> Suc (length (lb_orders b))"

lemma l3_remove_refines: "l3_holds b R \<Longrightarrow> refines_l3 (l3_remove i b) (spec_l3 (L3Remove i) R) b"
  using l3_remove_holds [of b _ i] unfolding l3_holds_def refines_l3_def by fastforce

lemma spec_remove_found:
  "lookup_resting i R = Some x \<Longrightarrow> spec_l3 (L3Remove i) R = (True, without i R)"
  by simp

lemma l3_modify_refines:
  assumes "l3_holds b R"
  shows "refines_l3 (l3_modify i v b) (spec_l3 (L3Modify i v) R) b"
proof -
  obtain G where inv: "l3_inv b G" and R: "R = resting_list (lb_orders b) G"
    using assms by (auto simp: l3_holds_def)
  from inv show ?thesis
  proof (cases rule: find_ref_cases [where i = i])
    case missing
    then show ?thesis using assms by (simp add: l3_modify_def refines_l3_def R)
  next
    case (found r)
    show ?thesis
    proof (cases "units v \<le> 0")
      case True
      have "l3_modify i v b = l3_remove i b" using found True by (simp add: l3_modify_def)
      then show ?thesis using l3_remove_refines [OF assms, of i] found(6) True by (simp add: R)
    next
      case False
      define s where "s = od_side (the_order r b)"
      define pr where "pr = od_price (the_order r b)"
      define l' where "l' = (level_for s pr b)\<lparr>ll_qty := Qty (units (ll_qty (level_for s pr b)) +
        (units v - units (od_qty (the_order r b))))\<rparr>"
      define b1 where "b1 = put_order r ((the_order r b)\<lparr>od_qty := v\<rparr>) (put_level s pr l' b)"
      have pos: "0 < units v" using False by simp
      note q = requantify_holds [OF inv found(3) pos s_def pr_def l'_def b1_def]
      have l1: "length (lb_orders b1) = length (lb_orders b)" by (simp add: b1_def)
      have m: "l3_modify i v b = (True, if units (od_qty (the_order r b)) < units v
          then link_back r (unlink r b1) else b1)"
        using found(1,2) False by (simp add: l3_modify_def Let_def s_def pr_def l'_def b1_def)
      have o1: "the_order r b1 = (the_order r b)\<lparr>od_qty := v\<rparr>"
        using found(4) by (simp add: b1_def the_order_def)
      show ?thesis
      proof (cases "units (od_qty (the_order r b)) < units v")
        case True
        note k = requeue_holds [OF q(1) found(3) refl refl]
        have "(resting_of (the_order r b))\<lparr>re_qty := units v\<rparr> = resting_of (the_order r b1)"
          by (simp add: o1 resting_of_def)
        then show ?thesis
          using True False m k q(2) found(5,6) l1 o1
          by (auto simp: refines_l3_def R l3_holds_def without_with_qty)
      next
        case less: False
        then show ?thesis
          using False m q found(5,6) l1 by (auto simp: refines_l3_def R l3_holds_def)
      qed
    qed
  qed
qed

lemma l3_execute_refines:
  assumes "l3_holds b R"
  shows "refines_l3 (l3_execute i v b) (spec_l3 (L3Execute i v) R) b"
proof -
  obtain G where inv: "l3_inv b G" and R: "R = resting_list (lb_orders b) G"
    using assms by (auto simp: l3_holds_def)
  from inv show ?thesis
  proof (cases rule: find_ref_cases [where i = i])
    case missing
    then show ?thesis using assms by (simp add: l3_execute_def refines_l3_def R)
  next
    case (found r)
    consider "units v \<le> 0" | "0 < units v" "units (od_qty (the_order r b)) \<le> units v"
      | "0 < units v" "units v < units (od_qty (the_order r b))" by linarith
    then show ?thesis
    proof cases
      case 1
      then show ?thesis using assms found by (simp add: l3_execute_def refines_l3_def R)
    next
      case 2
      have "l3_execute i v b = l3_remove i b" using found 2 by (simp add: l3_execute_def)
      then show ?thesis using l3_remove_refines [OF assms, of i] found(6) 2 by (simp add: R)
    next
      case 3
      define u where "u = Qty (units (od_qty (the_order r b)) - units v)"
      define s where "s = od_side (the_order r b)"
      define pr where "pr = od_price (the_order r b)"
      define l' where "l' = (level_for s pr b)\<lparr>ll_qty := Qty (units (ll_qty (level_for s pr b)) +
        (units u - units (od_qty (the_order r b))))\<rparr>"
      define b1 where "b1 = put_order r ((the_order r b)\<lparr>od_qty := u\<rparr>) (put_level s pr l' b)"
      have pos: "0 < units u" using 3 by (simp add: u_def)
      note q = requantify_holds [OF inv found(3) pos s_def pr_def l'_def b1_def]
      have "l3_execute i v b = (True, b1)"
        using found(1,2) 3 by (simp add: l3_execute_def Let_def s_def pr_def l'_def b1_def u_def)
      moreover have "length (lb_orders b1) = length (lb_orders b)" by (simp add: b1_def)
      ultimately show ?thesis
        using q found(5,6) 3 by (auto simp: refines_l3_def R l3_holds_def u_def)
    qed
  qed
qed

lemma l3_clear_refines: "l3_holds b R \<Longrightarrow> refines_l3 (True, l3_clear b) (spec_l3 L3Clear R) b"
proof -
  assume "l3_holds b R"
  then obtain G where "l3_inv b G" by (auto simp: l3_holds_def)
  then have "holds_index (index_clear (lb_index b)) Map.empty"
    using order_index.clear_exact unfolding l3_inv_def by blast
  then have "l3_inv (l3_clear b) []"
    by (simp add: l3_inv_def l3_clear_def arena_ok_def refs_ok_def queues_ok_def l3_levels_def queue_def
        level_good_def index_map_def)
  then show ?thesis
    by (auto simp: refines_l3_def l3_holds_def resting_list_def intro!: exI [of _ "[]"]) (simp add: l3_clear_def)
qed

lemma index_map_snoc:
  assumes "\<forall>k \<in> set G. od_id (os ! k) \<noteq> i" "od_id (os ! r) = i"
  shows "index_map os (G @ [r]) = (index_map os G)(i \<mapsto> r)"
proof -
  have "i \<notin> dom (index_map os G)" using assms(1) index_map_None [of os G i] by (simp add: domIff)
  then show ?thesis
    using assms(2) by (auto simp: index_map_def map_add_def fun_eq_iff split: option.splits)
qed

text \<open>Where a new order goes, and what is then known of the rest of the arena.\<close>

lemma allocate_ok:
  assumes a: "arena_ok (lb_orders b) (lb_free b) G" and room: "length (lb_orders b) < kNoOrder"
    and al: "allocate b = (r, b1)"
  shows "r < length (lb_orders b1)" "r \<notin> set G" "length (lb_orders b1) \<le> Suc (length (lb_orders b))"
    "length (lb_orders b) \<le> length (lb_orders b1)"
    "\<And>k. k < length (lb_orders b) \<Longrightarrow> lb_orders b1 ! k = lb_orders b ! k"
    "distinct (lb_free b1)" "set (lb_free b1) = {k. k < length (lb_orders b1) \<and> k \<noteq> r \<and> k \<notin> set G}"
    "\<And>s. l3_levels s b1 = l3_levels s b" "lb_index b1 = lb_index b" "lb_live b1 = lb_live b"
proof -
  have d: "distinct (lb_free b)" and f: "set (lb_free b) = {k. k < length (lb_orders b) \<and> k \<notin> set G}"
    using a by (auto simp: arena_ok_def)
  have Gl: "\<forall>k \<in> set G. k < length (lb_orders b)" using a by (auto simp: arena_ok_def)
  show "\<And>s. l3_levels s b1 = l3_levels s b" "lb_index b1 = lb_index b" "lb_live b1 = lb_live b"
    using al by (auto simp: allocate_def Let_def split: if_splits)
  have "r < length (lb_orders b1) \<and> r \<notin> set G \<and> length (lb_orders b1) \<le> Suc (length (lb_orders b)) \<and>
    length (lb_orders b) \<le> length (lb_orders b1) \<and>
    (\<forall>k < length (lb_orders b). lb_orders b1 ! k = lb_orders b ! k) \<and> distinct (lb_free b1) \<and>
    set (lb_free b1) = {k. k < length (lb_orders b1) \<and> k \<noteq> r \<and> k \<notin> set G}"
  proof (cases "lb_free b" rule: rev_cases)
    case Nil
    then have "b1 = b\<lparr>lb_orders := lb_orders b @ [order0]\<rparr>" "r = length (lb_orders b)"
      using al room by (auto simp: allocate_def Let_def kNoOrder_def)
    then show ?thesis using Nil f Gl by (auto simp: nth_append less_Suc_eq)
  next
    case (snoc fr x)
    then have b1: "b1 = b\<lparr>lb_free := fr\<rparr>" "r = x" using al by (auto simp: allocate_def)
    have "set fr = {k. k < length (lb_orders b) \<and> k \<notin> set G} - {x}" using d f snoc by auto
    moreover have "x \<in> {k. k < length (lb_orders b) \<and> k \<notin> set G}" using f snoc by auto
    ultimately show ?thesis using b1 d snoc by auto
  qed
  then show "r < length (lb_orders b1)" "r \<notin> set G" "length (lb_orders b1) \<le> Suc (length (lb_orders b))"
    "length (lb_orders b) \<le> length (lb_orders b1)"
    "\<And>k. k < length (lb_orders b) \<Longrightarrow> lb_orders b1 ! k = lb_orders b ! k"
    "distinct (lb_free b1)" "set (lb_free b1) = {k. k < length (lb_orders b1) \<and> k \<noteq> r \<and> k \<notin> set G}"
    by blast+
qed

lemma l3_add_refines:
  assumes "l3_holds b R" and room: "length (lb_orders b) < kNoOrder"
  shows "\<exists>res. l3_add i s p v b = Some res \<and> refines_l3 res (spec_l3 (L3Add i s p v) R) b"
proof -
  obtain G where inv: "l3_inv b G" and R: "R = resting_list (lb_orders b) G"
    using assms by (auto simp: l3_holds_def)
  have a: "arena_ok (lb_orders b) (lb_free b) G" and q: "queues_ok b G"
    and h: "holds_index (lb_index b) (index_map (lb_orders b) G)" and n: "lb_live b = length G"
    using inv by (simp_all add: l3_inv_def)
  show ?thesis
  proof (cases "units v \<le> 0")
    case True
    then show ?thesis using assms(1) by (simp add: l3_add_def refines_l3_def)
  next
    case pos: False
    from inv show ?thesis
    proof (cases rule: find_ref_cases [where i = i])
      case (found r)
      then show ?thesis using assms(1) pos by (simp add: l3_add_def refines_l3_def R)
    next
      case missing
      obtain r b1 where al: "allocate b = (r, b1)" by (cases "allocate b")
      note al' = allocate_ok [OF a room al]
      define ord where "ord = (the_order r b1)\<lparr>od_id := i, od_side := s, od_price := p, od_qty := v,
                   od_prev := kNoOrder, od_next := kNoOrder, od_live := True\<rparr>"
      define b2 where "b2 = put_order r ord b1"
      define b3 where "b3 = link_back r b2"
      have Gl: "\<forall>k \<in> set G. k < length (lb_orders b)" using a by (auto simp: arena_ok_def)
      have len2: "length (lb_orders b2) = length (lb_orders b1)" by (simp add: b2_def)
      have old: "lb_orders b2 ! k = lb_orders b ! k" if "k \<in> set G" for k
      proof -
        have "k \<noteq> r" "k < length (lb_orders b)" using that al'(2) Gl by auto
        then show ?thesis using al'(5) by (simp add: b2_def)
      qed
      have new: "lb_orders b2 ! r = ord" using al'(1) by (simp add: b2_def)
      have q2: "queues_ok b2 G"
      proof -
        have "queues_ok b2 G = queues_ok b G"
          by (rule queues_ok_cong)
            (use al'(8) old in \<open>simp_all add: nx_def pv_def amount_def spot_def b2_def\<close>)
        then show ?thesis using q by simp
      qed
      have rf2: "refs_ok (lb_orders b2) G"
        using a al'(3,4) room Gl unfolding refs_ok_def len2 by (auto simp: arena_ok_def refs_ok_def)
      have r2: "r < length (lb_orders b2)" using al'(1) len2 by simp
      note k = link_back_ok [OF q2 rf2 r2 al'(2), folded b3_def]
      note f = same_rest_facts [OF k(2)]
      have lv: "od_live (lb_orders b2 ! j) \<longleftrightarrow> j \<in> set G \<or> j = r" if j: "j < length (lb_orders b2)" for j
      proof (cases "j = r \<or> j \<in> set G")
        case True
        then show ?thesis using old new a by (auto simp: ord_def arena_ok_def)
      next
        case False
        show ?thesis
        proof (cases "j < length (lb_orders b)")
          case True
          then have "lb_orders b2 ! j = lb_orders b ! j" using False al'(5) by (simp add: b2_def)
          then show ?thesis using False True a by (auto simp: arena_ok_def)
        next
          case fresh: False
          then have "length (lb_orders b) < length (lb_orders b1)" using j len2 by simp
          then have "r = length (lb_orders b) \<and> length (lb_orders b1) = Suc (length (lb_orders b))"
            using al al'(3) by (auto simp: allocate_def Let_def kNoOrder_def room [unfolded kNoOrder_def] split: if_splits)
              (use room in \<open>simp_all add: kNoOrder_def\<close>)
          then show ?thesis using False fresh j len2 by simp
        qed
      qed
      have a2: "arena_ok (lb_orders b2) (lb_free b1) (G @ [r])"
        unfolding arena_ok_def
      proof (intro conjI)
        show "refs_ok (lb_orders b2) (G @ [r])"
          using rf2 r2 al'(2) by (simp add: refs_ok_def)
        show "set (G @ [r]) = {k. k < length (lb_orders b2) \<and> od_live (lb_orders b2 ! k)}"
          using lv r2 rf2 by (auto simp: refs_ok_def)
        show "distinct (lb_free b1)" by (rule al'(6))
        show "set (lb_free b1) = {k. k < length (lb_orders b2) \<and> \<not> od_live (lb_orders b2 ! k)}"
          using lv al'(7) len2 by auto
        have e: "map (\<lambda>k. od_id (lb_orders b2 ! k)) G = map (\<lambda>k. od_id (lb_orders b ! k)) G"
          using old by (intro map_cong) auto
        have "distinct (map (\<lambda>k. od_id (lb_orders b ! k)) G)" using a by (simp add: arena_ok_def)
        moreover have "od_id ord \<notin> set (map (\<lambda>k. od_id (lb_orders b ! k)) G)"
          using missing(2) by (auto simp: ord_def the_order_def)
        ultimately show "distinct (map (\<lambda>k. od_id (lb_orders b2 ! k)) (G @ [r]))"
          unfolding map_append e by (simp add: new)
        show "\<forall>k \<in> set (G @ [r]). 0 < amount (lb_orders b2) k"
          using a old new pos by (auto simp: arena_ok_def amount_def ord_def)
      qed
      have a3: "arena_ok (lb_orders b3) (lb_free b1) (G @ [r])" by (rule arena_same_rest [OF k(2) a2])
      have l2: "\<forall>k \<in> set (G @ [r]). k < length (lb_orders b2)" using a2 by (auto simp: arena_ok_def refs_ok_def)
      have "index_map (lb_orders b2) G = index_map (lb_orders b) G"
        using old by (intro index_map_cong) auto
      moreover have "index_map (lb_orders b2) (G @ [r]) = (index_map (lb_orders b2) G)(i \<mapsto> r)"
        by (rule index_map_snoc) (use old new missing(2) in \<open>auto simp: ord_def the_order_def\<close>)
      ultimately have im: "index_map (lb_orders b3) (G @ [r]) = (index_map (lb_orders b) G)(i \<mapsto> r)"
        using same_rest_maps(1) [OF k(2) l2] by simp
      have ix3: "lb_index b3 = lb_index b" "lb_free b3 = lb_free b1" "lb_live b3 = lb_live b"
        using k(2) al'(9,10) by (simp_all add: same_rest_def b2_def)
      have "index_map (lb_orders b) G i = None"
        using missing(2) by (simp add: index_map_None the_order_def)
      from order_index.insert_total [OF h this, of r] obtain x where
        x: "insert_ref i r (lb_index b3) = Some x" "holds_index x ((index_map (lb_orders b) G)(i \<mapsto> r))"
        using ix3 by metis
      define b4 where "b4 = b3\<lparr>lb_index := x, lb_live := lb_live b3 + 1\<rparr>"
      have add: "l3_add i s p v b = Some (True, b4)"
        using missing(1) pos x(1) by (simp add: l3_add_def Let_def al b2_def b3_def b4_def ord_def)
      have "queues_ok b4 (G @ [r]) = queues_ok b3 (G @ [r])"
        by (rule queues_ok_cong) (simp_all add: b4_def)
      then have "l3_inv b4 (G @ [r])"
        using a3 k(1) x(2) im n ix3 by (simp add: l3_inv_def) (simp add: b4_def)
      moreover have "resting_list (lb_orders b4) (G @ [r]) =
          R @ [\<lparr>re_id = i, re_side = s, re_price = ticks p, re_qty = units v\<rparr>]"
      proof -
        have "resting_list (lb_orders b4) (G @ [r]) = resting_list (lb_orders b2) (G @ [r])"
          using same_rest_maps(2) [OF k(2) l2] by (simp add: b4_def)
        also have "\<dots> = resting_list (lb_orders b) G @ [resting_of ord]"
          using resting_list_cong [of G "lb_orders b2" "lb_orders b"] old new by (simp add: resting_list_def)
        finally show ?thesis by (simp add: R resting_of_def ord_def)
      qed
      moreover have "length (lb_orders b4) \<le> Suc (length (lb_orders b))"
        using f(1) len2 al'(3) by (simp add: b4_def)
      ultimately show ?thesis
        using add pos missing(3) by (auto simp: refines_l3_def l3_holds_def R)
    qed
  qed
qed

lemma apply_l3_refines:
  assumes "l3_holds b R" "length (lb_orders b) < kNoOrder"
  shows "\<exists>res. apply_l3 a b = Some res \<and> refines_l3 res (spec_l3 a R) b"
proof (cases a)
  case (L3Add i s p v)
  then show ?thesis using l3_add_refines [OF assms] by simp
next
  case (L3Modify i v)
  then show ?thesis using l3_modify_refines [OF assms(1)] by (simp del: spec_l3.simps)
next
  case (L3Remove i)
  then show ?thesis using l3_remove_refines [OF assms(1)] by (simp del: spec_l3.simps)
next
  case (L3Execute i v)
  then show ?thesis using l3_execute_refines [OF assms(1)] by (simp del: spec_l3.simps)
next
  case L3Clear
  then show ?thesis using l3_clear_refines [OF assms(1)] by (simp del: spec_l3.simps)
qed

lemma l3_new_holds: "\<exists>b. l3_new sp n = Some b \<and> l3_holds b [] \<and> lb_orders b = []"
proof -
  obtain x where x: "index_new n = Some x" "holds_index x Map.empty" using index_new_ok by blast
  define b where "b = \<lparr>lb_spec = sp, lb_orders = [], lb_free = [], lb_index = x, lb_bids = [], lb_asks = [], lb_live = 0\<rparr>"
  have "l3_inv b []"
    using x(2) by (simp add: b_def l3_inv_def arena_ok_def refs_ok_def queues_ok_def l3_levels_def queue_def
        level_good_def index_map_def)
  then have "l3_holds b []" by (auto simp: l3_holds_def resting_list_def b_def intro!: exI [of _ "[]"])
  then show ?thesis using x(1) by (intro exI [of _ b]) (simp add: l3_new_def b_def)
qed

end
