(* ===== verification/L3_Props.thy ===== *)
theory L3_Props
  imports L3_Refine
begin

text \<open>
  What a user of \<open>L3Book\<close> may rely on, for any sequence of operations from an empty book: every operation
  returns, its verdict and the orders it leaves are those of the priority list, the aggregated levels are
  the sums of that list, and the volume ahead of an order is the volume of the orders before it.  The
  only bound is the one of the arena: fewer than \<open>kNoOrder\<close> operations, so that a reference never reaches
  the sentinel.
\<close>

section \<open>Runs\<close>

fun run_l3 :: "l3_op list \<Rightarrow> l3_book \<Rightarrow> (bool list \<times> l3_book) option" where
  "run_l3 [] b = Some ([], b)"
| "run_l3 (a # as) b =
     (case apply_l3 a b of
        None \<Rightarrow> None
      | Some (v, b) \<Rightarrow> (case run_l3 as b of None \<Rightarrow> None | Some (vs, b) \<Rightarrow> Some (v # vs, b)))"

fun spec_run :: "l3_op list \<Rightarrow> resting list \<Rightarrow> bool list \<times> resting list" where
  "spec_run [] R = ([], R)"
| "spec_run (a # as) R =
     (case spec_l3 a R of (v, R) \<Rightarrow> (case spec_run as R of (vs, R) \<Rightarrow> (v # vs, R)))"

definition l3_after :: "instrument_spec \<Rightarrow> nat \<Rightarrow> l3_op list \<Rightarrow> (bool list \<times> l3_book) option" where
  "l3_after sp n as = (case l3_new sp n of None \<Rightarrow> None | Some b \<Rightarrow> run_l3 as b)"

lemma run_l3_refines:
  "l3_holds b R \<Longrightarrow> length (lb_orders b) + length as \<le> kNoOrder \<Longrightarrow>
   \<exists>b'. run_l3 as b = Some (fst (spec_run as R), b') \<and> l3_holds b' (snd (spec_run as R))"
proof (induction as arbitrary: b R)
  case (Cons a as)
  then obtain res where res: "apply_l3 a b = Some res" "refines_l3 res (spec_l3 a R) b"
    using apply_l3_refines [of b R a] by auto
  obtain v b1 where vb: "res = (v, b1)" by (cases res)
  obtain R1 where s: "spec_l3 a R = (v, R1)" "l3_holds b1 R1" "length (lb_orders b1) \<le> Suc (length (lb_orders b))"
    using res(2) vb by (cases "spec_l3 a R") (auto simp: refines_l3_def)
  have "length (lb_orders b1) + length as \<le> kNoOrder" using s(3) Cons.prems(2) by simp
  from Cons.IH [OF s(2) this] obtain b' where
    "run_l3 as b1 = Some (fst (spec_run as R1), b')" "l3_holds b' (snd (spec_run as R1))"
    by blast
  then show ?case using res(1) s(1) vb by (cases "spec_run as R1") auto
qed simp

lemma l3_after_refines:
  assumes "length as < kNoOrder"
  shows "\<exists>b. l3_after sp n as = Some (fst (spec_run as []), b) \<and> l3_holds b (snd (spec_run as []))"
proof -
  obtain b0 where "l3_new sp n = Some b0" "l3_holds b0 []" "lb_orders b0 = []"
    using l3_new_holds by blast
  then show ?thesis using run_l3_refines [of b0 "[]" as] assms by (simp add: l3_after_def)
qed

section \<open>What the queries return\<close>

definition at_level :: "side \<Rightarrow> int \<Rightarrow> resting list \<Rightarrow> resting list" where
  "at_level s p R = filter (\<lambda>x. re_side x = s \<and> re_price x = p) R"

definition total_qty :: "resting list \<Rightarrow> int" where
  "total_qty R = sum_list (map re_qty R)"

definition spec_levels :: "side \<Rightarrow> resting list \<Rightarrow> level list" where
  "spec_levels s R =
     (let ps = sort (remdups (map re_price (filter (\<lambda>x. re_side x = s) R)))
      in map (\<lambda>p. Level (Price p) (Qty (total_qty (at_level s p R)))) (if s = Bid then rev ps else ps))"

lemma at_level_resting:
  "at_level s p (resting_list os G) = resting_list os (queue os s p G)"
  by (simp add: at_level_def resting_list_def queue_def filter_map comp_def spot_def)

lemma resting_list_simps [simp]:
  "resting_list os q = [] \<longleftrightarrow> q = []" "[] = resting_list os q \<longleftrightarrow> q = []" "length (resting_list os q) = length q"
  by (auto simp: resting_list_def)

lemma total_qty_resting: "total_qty (resting_list os q) = sum_list (map (amount os) q)"
  by (simp add: total_qty_def resting_list_def comp_def amount_def [abs_def])

lemma l3_find_holds: "l3_holds b R \<Longrightarrow> map_option resting_of (l3_find i b) = lookup_resting i R"
proof -
  assume "l3_holds b R"
  then obtain G where inv: "l3_inv b G" and R: "R = resting_list (lb_orders b) G"
    by (auto simp: l3_holds_def)
  from inv show ?thesis
    by (cases rule: find_ref_cases [where i = i]) (simp_all add: l3_find_def R)
qed

lemma l3_count_holds: "l3_holds b R \<Longrightarrow> lb_live b = length R"
  by (auto simp: l3_holds_def l3_inv_def resting_list_def)

lemma level_of_holds:
  assumes "l3_inv b G"
  shows "level_good (lb_orders b) (l3_find_level s p b) (queue (lb_orders b) s (ticks p) G)"
  using assms by (simp add: l3_inv_def queues_ok_def l3_find_level_def)

lemma l3_find_level_holds:
  assumes "l3_holds b R"
  shows "map_option (\<lambda>l. (ll_qty l, ll_orders l)) (l3_find_level s p b) =
     (let q = at_level s (ticks p) R in if q = [] then None else Some (Qty (total_qty q), of_nat (length q)))"
proof -
  obtain G where inv: "l3_inv b G" and R: "R = resting_list (lb_orders b) G"
    using assms by (auto simp: l3_holds_def)
  show ?thesis
    using level_of_holds [OF inv, of s p]
    by (cases "l3_find_level s p b")
      (auto simp: R at_level_resting total_qty_resting level_good_def Let_def qty.expand)
qed

text \<open>The walks along a queue end, and visit its orders.\<close>

lemma walk_orders_ok:
  "links (nx os) (pv os) p q kNoOrder \<Longrightarrow> \<forall>k \<in> set q. k \<noteq> kNoOrder \<Longrightarrow> length q < n \<Longrightarrow>
   walk_orders os f n (hd (q @ [kNoOrder])) st = Some (visit f (map (\<lambda>k. os ! k) q) st)"
proof (induction q arbitrary: p n st)
  case Nil
  then show ?case by (cases n) auto
next
  case (Cons k q)
  then obtain m where n: "n = Suc m" by (cases n) auto
  have "od_next (os ! k) = hd (q @ [kNoOrder])" using Cons.prems(1) by (simp add: nx_def)
  with Cons n show ?case by (auto split: prod.split)
qed

lemma walk_ahead_ok:
  "links (nx os) (pv os) p (xs @ r # ys) kNoOrder \<Longrightarrow> \<forall>k \<in> set xs. k \<noteq> kNoOrder \<and> k \<noteq> r \<Longrightarrow>
   r \<noteq> kNoOrder \<Longrightarrow> length xs < n \<Longrightarrow>
   walk_ahead os r n (hd (xs @ [r])) a = Some (a + sum_list (map (amount os) xs))"
proof (induction xs arbitrary: p n a)
  case Nil
  then show ?case by (cases n) auto
next
  case (Cons k xs)
  then obtain m where n: "n = Suc m" by (cases n) auto
  have "od_next (os ! k) = hd (xs @ [r])" using Cons.prems(1) by (cases xs) (simp_all add: nx_def)
  then show ?case
    using Cons.IH [of k m "a + units (od_qty (os ! k))"] Cons.prems n by (simp add: amount_def algebra_simps)
qed

lemma queue_facts:
  assumes "l3_inv b G"
  shows "length (queue (lb_orders b) s p G) \<le> length (lb_orders b)"
    "\<forall>k \<in> set (queue (lb_orders b) s p G). k \<noteq> kNoOrder" "distinct (queue (lb_orders b) s p G)"
proof -
  have rf: "distinct G" "set G \<subseteq> {..<length (lb_orders b)}" "length (lb_orders b) \<le> kNoOrder"
    using assms unfolding l3_inv_def arena_ok_def refs_ok_def by blast+
  have "length (queue (lb_orders b) s p G) \<le> length G" by (simp add: queue_def)
  also have "\<dots> = card (set G)" using rf by (simp add: distinct_card)
  also have "\<dots> \<le> length (lb_orders b)" using card_mono [OF _ rf(2)] by simp
  finally show "length (queue (lb_orders b) s p G) \<le> length (lb_orders b)" .
  show "\<forall>k \<in> set (queue (lb_orders b) s p G). k \<noteq> kNoOrder" using rf by (auto simp: set_queue)
  show "distinct (queue (lb_orders b) s p G)" using rf by (simp add: queue_def)
qed

lemma l3_for_each_order_holds:
  assumes "l3_holds b R"
  shows "\<exists>os. map resting_of os = at_level s (ticks p) R \<and>
     (\<forall>f st. l3_for_each_order s p f b st = Some (visit f os st))"
proof -
  obtain G where inv: "l3_inv b G" and R: "R = resting_list (lb_orders b) G"
    using assms by (auto simp: l3_holds_def)
  let ?q = "queue (lb_orders b) s (ticks p) G"
  let ?os = "map (\<lambda>k. lb_orders b ! k) ?q"
  have "l3_for_each_order s p f b st = Some (visit f ?os st)" for f st
  proof (cases "l3_find_level s p b")
    case None
    then show ?thesis using level_of_holds [OF inv, of s p] by (simp add: level_good_def l3_for_each_order_def)
  next
    case (Some l)
    then have l: "?q \<noteq> []" "ll_head l = hd ?q" "links (nx (lb_orders b)) (pv (lb_orders b)) kNoOrder ?q kNoOrder"
      using level_of_holds [OF inv, of s p] by (simp_all add: level_good_def)
    have "walk_orders (lb_orders b) f (length (lb_orders b) + 1) (hd (?q @ [kNoOrder])) st = Some (visit f ?os st)"
      by (rule walk_orders_ok [OF l(3)]) (use queue_facts [OF inv, of s "ticks p"] in auto)
    then show ?thesis using Some l by (simp add: l3_for_each_order_def)
  qed
  moreover have "map resting_of ?os = at_level s (ticks p) R"
    unfolding R at_level_resting by (simp add: resting_list_def comp_def)
  ultimately show ?thesis by blast
qed

lemma takeWhile_ids:
  assumes "distinct (map (\<lambda>k. od_id (os ! k)) (xs @ r # ys))"
  shows "takeWhile (\<lambda>x. re_id x \<noteq> od_id (os ! r)) (resting_list os (xs @ r # ys)) = resting_list os xs"
  using assms by (subst resting_list_def, simp) (induction xs; auto simp: resting_list_def)

lemma l3_queue_ahead_holds:
  assumes "l3_holds b R"
  shows "l3_queue_ahead i b = Some (map_option
     (\<lambda>x. Qty (total_qty (takeWhile (\<lambda>y. re_id y \<noteq> i) (at_level (re_side x) (re_price x) R)))) (lookup_resting i R))"
proof -
  obtain G where inv: "l3_inv b G" and R: "R = resting_list (lb_orders b) G"
    using assms by (auto simp: l3_holds_def)
  from inv show ?thesis
  proof (cases rule: find_ref_cases [where i = i])
    case missing
    then show ?thesis by (simp add: l3_queue_ahead_def R)
  next
    case (found r)
    define s where "s = od_side (the_order r b)"
    define p where "p = od_price (the_order r b)"
    let ?os = "lb_orders b"
    let ?q = "queue ?os s (ticks p) G"
    have "r \<in> set ?q" using found(3) by (simp add: set_queue spot_def s_def p_def the_order_def)
    then obtain xs ys where q: "?q = xs @ r # ys" by (meson split_list)
    then obtain l where l: "l3_find_level s p b = Some l" "ll_head l = hd ?q"
        "links (nx ?os) (pv ?os) kNoOrder ?q kNoOrder"
      using level_of_holds [OF inv, of s p] by (auto simp: level_good_def split: option.splits)
    note f = queue_facts [OF inv, of s "ticks p", unfolded q]
    have "walk_ahead ?os r (length ?os + 1) (hd (xs @ [r])) 0 = Some (0 + sum_list (map (amount ?os) xs))"
      by (rule walk_ahead_ok [OF l(3) [unfolded q]]) (use f in auto)
    moreover have "hd (xs @ [r]) = ll_head l" using l(2) q by (cases xs) auto
    ultimately have "l3_queue_ahead i b = Some (Some (Qty (sum_list (map (amount ?os) xs))))"
      using found(1,2) l(1) by (simp add: l3_queue_ahead_def s_def p_def)
    moreover have "takeWhile (\<lambda>y. re_id y \<noteq> i) (at_level s (ticks p) R) = resting_list ?os xs"
    proof -
      have "distinct (map (\<lambda>k. od_id (?os ! k)) ?q)"
        using inv by (auto simp: l3_inv_def arena_ok_def queue_def distinct_map inj_on_def)
      from takeWhile_ids [OF this [unfolded q]] show ?thesis
        using found(5) by (simp add: R at_level_resting q the_order_def)
    qed
    ultimately show ?thesis
      using found(6) by (simp add: R [symmetric] total_qty_resting s_def p_def)
  qed
qed

text \<open>The aggregated levels are the distinct prices of the side, each with its sum.\<close>

lemma l3_levels_holds:
  assumes "l3_holds b R"
  shows "map (\<lambda>e. (fst e, ll_qty (snd e))) (l3_levels s b) =
     map (\<lambda>p. (p, Qty (total_qty (at_level s p R)))) (sort (remdups (map re_price (filter (\<lambda>x. re_side x = s) R))))"
proof -
  obtain G where inv: "l3_inv b G" and R: "R = resting_list (lb_orders b) G"
    using assms by (auto simp: l3_holds_def)
  define m where "m = l3_levels s b"
  define ps where "ps = sort (remdups (map re_price (filter (\<lambda>x. re_side x = s) R)))"
  have asc: "ascending m" using inv by (simp add: m_def l3_inv_def queues_ok_def)
  have some: "map_of m p = None \<longleftrightarrow> at_level s p R = []"
    and val: "map_of m p = Some l \<Longrightarrow> ll_qty l = Qty (total_qty (at_level s p R))" for p l
    using level_of_holds [OF inv, of s "Price p"]
    by (auto simp: l3_find_level_def m_def R at_level_resting total_qty_resting level_good_def
        qty.expand split: option.splits)
  have "set (keys m) = set ps"
  proof -
    have "p \<in> set (keys m) \<longleftrightarrow> map_of m p \<noteq> None" for p by (simp add: map_of_eq_None_iff keys_def)
    also have "\<dots> p \<longleftrightarrow> p \<in> set ps" for p
      by (auto simp: some at_level_def ps_def filter_empty_conv)
    finally show ?thesis by blast
  qed
  moreover have "sorted_wrt (<) ps" by (simp add: ps_def strict_sorted_iff)
  ultimately have ks: "keys m = ps" using asc by (metis strict_sorted_equal)
  have "map (\<lambda>e. (fst e, ll_qty (snd e))) m = map (\<lambda>p. (p, Qty (total_qty (at_level s p R)))) (map fst m)"
    using val ascending_distinct [OF asc] by (auto simp: keys_def intro!: val map_of_is_SomeI)
  then show ?thesis using ks unfolding keys_def m_def ps_def by (simp only:)
qed

lemma l3_for_each_level_holds:
  assumes "l3_holds b R"
  shows "l3_for_each_level s f b st = visit f (spec_levels s R) st"
proof -
  define g where "g = (\<lambda>e :: int \<times> qty. Level (Price (fst e)) (snd e))"
  note h = arg_cong [OF l3_levels_holds [OF assms, of s], of "map g"]
  have e: "(\<lambda>e. f (Level (Price (fst e)) (ll_qty (snd e)))) = (\<lambda>e. f ((g \<circ> (\<lambda>e. (fst e, ll_qty (snd e)))) e))"
    by (simp add: g_def)
  have "map (g \<circ> (\<lambda>e. (fst e, ll_qty (snd e)))) (l3_levels s b) =
      map (\<lambda>p. Level (Price p) (Qty (total_qty (at_level s p R))))
        (sort (remdups (map re_price (filter (\<lambda>x. re_side x = s) R))))"
    using h by (simp add: g_def comp_def)
  then show ?thesis
    unfolding l3_for_each_level_def spec_levels_def e visit_map
    by (cases s) (simp_all add: Let_def flip: rev_map)
qed

lemma l3_best_holds:
  assumes "l3_holds b R"
  shows "l3_best s b = (case spec_levels s R of [] \<Rightarrow> None | l # _ \<Rightarrow> Some l)"
proof -
  define m where "m = l3_levels s b"
  define ps where "ps = sort (remdups (map re_price (filter (\<lambda>x. re_side x = s) R)))"
  note h = l3_levels_holds [OF assms, of s, folded m_def ps_def]
  show ?thesis
  proof (cases "m = []")
    case True
    then show ?thesis using h by (simp add: l3_best_def spec_levels_def m_def [symmetric] ps_def [symmetric] Let_def)
  next
    case False
    then have ne: "ps \<noteq> []" using h by auto
    have "fst (hd m) = hd ps" "ll_qty (snd (hd m)) = Qty (total_qty (at_level s (hd ps) R))"
      using arg_cong [OF h, of hd] False ne by (simp_all add: hd_map)
    moreover have "fst (last m) = last ps" "ll_qty (snd (last m)) = Qty (total_qty (at_level s (last ps) R))"
      using arg_cong [OF h, of last] False ne by (simp_all add: last_map)
    moreover obtain x xs where px: "ps = x # xs" using ne by (cases ps) auto
    moreover obtain ys where py: "rev ps = last ps # ys"
      using ne hd_rev [of ps] by (cases "rev ps") auto
    ultimately have "spec_levels s R =
        (if s = Bid then Level (Price (fst (last m))) (ll_qty (snd (last m))) # tl (spec_levels s R)
         else Level (Price (fst (hd m))) (ll_qty (snd (hd m))) # tl (spec_levels s R))"
      unfolding spec_levels_def Let_def ps_def [symmetric]
      using px by (simp add: py)
    then obtain L where "spec_levels s R =
        (if s = Bid then Level (Price (fst (last m))) (ll_qty (snd (last m)))
         else Level (Price (fst (hd m))) (ll_qty (snd (hd m)))) # L"
      by (cases "s = Bid") auto
    then show ?thesis
      using False by (simp add: l3_best_def m_def [symmetric] Let_def)
  qed
qed

section \<open>The arena does not leak\<close>

lemma l3_lengths [simp]:
  "length (lb_orders (link_back r b)) = length (lb_orders b)"
  "length (lb_orders (unlink r b)) = length (lb_orders b)"
  by (simp_all add: link_back_def unlink_def Let_def split: option.split prod.split)

lemma l3_remove_length: "length (lb_orders (snd (l3_remove i b))) = length (lb_orders b)"
  by (simp add: l3_remove_def Let_def)

lemma l3_change_length:
  "length (lb_orders (snd (l3_modify i q b))) = length (lb_orders b)"
  "length (lb_orders (snd (l3_execute i q b))) = length (lb_orders b)"
  by (simp_all add: l3_modify_def l3_execute_def Let_def l3_remove_length)

lemma l3_add_length:
  "l3_add i s p q b = Some (v, b') \<Longrightarrow>
   length (lb_orders b') = (if v \<and> lb_free b = [] then Suc (length (lb_orders b)) else length (lb_orders b))"
  by (auto simp: l3_add_def allocate_def Let_def split: if_splits option.splits)

lemma l3_no_leak:
  assumes "l3_holds b R"
  shows "lb_live b + length (lb_free b) = length (lb_orders b)"
proof -
  obtain G where "l3_inv b G" using assms by (auto simp: l3_holds_def)
  then have d: "distinct G" "distinct (lb_free b)" "lb_live b = length G"
    and s: "set G = {k. k < length (lb_orders b) \<and> od_live (lb_orders b ! k)}"
      "set (lb_free b) = {k. k < length (lb_orders b) \<and> \<not> od_live (lb_orders b ! k)}"
    unfolding l3_inv_def arena_ok_def refs_ok_def by blast+
  have "set G \<union> set (lb_free b) = {..<length (lb_orders b)}" "set G \<inter> set (lb_free b) = {}"
    using s by auto
  then have "card (set G) + card (set (lb_free b)) = length (lb_orders b)"
    by (metis card_Un_disjoint card_lessThan finite_set)
  then show ?thesis using d by (simp add: distinct_card)
qed

fun peak_orders :: "l3_op list \<Rightarrow> resting list \<Rightarrow> nat" where
  "peak_orders [] R = length R"
| "peak_orders (a # as) R = max (length R) (peak_orders as (snd (spec_l3 a R)))"

lemma arena_step:
  assumes "l3_holds b R" "apply_l3 a b = Some (v, b')" "l3_holds b' R'"
  shows "length (lb_orders b') \<le> max (length (lb_orders b)) (length R')"
proof (cases a)
  case (L3Add i s p q)
  then have l: "length (lb_orders b') = (if v \<and> lb_free b = [] then Suc (length (lb_orders b)) else length (lb_orders b))"
    using assms(2) l3_add_length by simp
  show ?thesis
  proof (cases "v \<and> lb_free b = []")
    case True
    have "lb_live b' = Suc (lb_live b)"
      using assms(2) L3Add True
      by (auto simp: l3_add_def allocate_def link_back_def Let_def split: if_splits option.splits)
    moreover have "lb_live b = length (lb_orders b)" using l3_no_leak [OF assms(1)] True by simp
    ultimately show ?thesis using l True l3_count_holds [OF assms(3)] by simp
  qed (use l in auto)
next
  case (L3Modify i q)
  then show ?thesis using assms(2) l3_change_length(1) [of i q b] by simp
next
  case (L3Remove i)
  then show ?thesis using assms(2) l3_remove_length [of i b] by simp
next
  case (L3Execute i q)
  then show ?thesis using assms(2) l3_change_length(2) [of i q b] by simp
next
  case L3Clear
  then show ?thesis using assms(2) by (auto simp: l3_clear_def)
qed

lemma arena_run:
  "l3_holds b R \<Longrightarrow> length (lb_orders b) + length as \<le> kNoOrder \<Longrightarrow> run_l3 as b = Some (vs, b') \<Longrightarrow>
   length (lb_orders b') \<le> max (length (lb_orders b)) (peak_orders as R)"
proof (induction as arbitrary: b R vs)
  case (Cons a as)
  obtain v b1 where s: "apply_l3 a b = Some (v, b1)" "l3_holds b1 (snd (spec_l3 a R))"
      "length (lb_orders b1) \<le> Suc (length (lb_orders b))"
    using apply_l3_refines [of b R a] Cons.prems(1,2) by (auto simp: refines_l3_def)
  obtain ws where r: "run_l3 as b1 = Some (ws, b')"
    using Cons.prems(3) s(1) by (auto split: option.splits)
  have "length (lb_orders b') \<le> max (length (lb_orders b1)) (peak_orders as (snd (spec_l3 a R)))"
    using Cons.IH [OF s(2) _ r] s(3) Cons.prems(2) by simp
  moreover have "length (snd (spec_l3 a R)) \<le> peak_orders as (snd (spec_l3 a R))" for as
    by (cases as) auto
  ultimately show ?case
    using arena_step [OF Cons.prems(1) s(1,2)] by (simp add: max_def split: if_splits) (meson le_trans)+
qed simp

section \<open>The index on its own\<close>

datatype ix_op = IxInsert order_id nat | IxErase order_id | IxClear

fun run_index :: "ix_op list \<Rightarrow> index \<Rightarrow> index option" where
  "run_index [] x = Some x"
| "run_index (IxInsert i r # as) x =
     (if find_ref i x \<noteq> kNoOrder then run_index as x
      else (case insert_ref i r x of None \<Rightarrow> None | Some x \<Rightarrow> run_index as x))"
| "run_index (IxErase i # as) x = run_index as (erase_ref i x)"
| "run_index (IxClear # as) x = run_index as (index_clear x)"

fun index_spec :: "ix_op list \<Rightarrow> (order_id \<rightharpoonup> nat) \<Rightarrow> (order_id \<rightharpoonup> nat)" where
  "index_spec [] M = M"
| "index_spec (IxInsert i r # as) M = index_spec as (if M i = None then M(i \<mapsto> r) else M)"
| "index_spec (IxErase i # as) M = index_spec as (M(i := None))"
| "index_spec (IxClear # as) M = index_spec as Map.empty"

fun proper_ref :: "ix_op \<Rightarrow> bool" where
  "proper_ref (IxInsert i r) = (r < kNoOrder)"
| "proper_ref _ = True"

lemma run_index_holds:
  "holds_index x M \<Longrightarrow> \<forall>i r. M i = Some r \<longrightarrow> r < kNoOrder \<Longrightarrow> list_all proper_ref as \<Longrightarrow>
   \<exists>x'. run_index as x = Some x' \<and> holds_index x' (index_spec as M)"
proof (induction as arbitrary: x M)
  case (Cons a as)
  show ?case
  proof (cases a)
    case (IxInsert i r)
    have f: "find_ref i x \<noteq> kNoOrder \<longleftrightarrow> M i \<noteq> None"
      using order_index.found_iff(1) [OF Cons.prems(1)] Cons.prems(2) by blast
    show ?thesis
    proof (cases "M i")
      case None
      obtain y where y: "insert_ref i r x = Some y" "holds_index y (M(i \<mapsto> r))"
        using order_index.insert_total [OF Cons.prems(1) None] by blast
      define N where "N = M(i \<mapsto> r)"
      have "\<forall>j k. N j = Some k \<longrightarrow> k < kNoOrder" using Cons.prems IxInsert by (auto simp: N_def)
      then show ?thesis
        using Cons.IH [of y N] y Cons.prems(3) IxInsert None f by (simp add: N_def [symmetric])
    next
      case (Some k)
      then show ?thesis using Cons f IxInsert by simp
    qed
  next
    case (IxErase i)
    define N where "N = M(i := None)"
    have "\<forall>j k. N j = Some k \<longrightarrow> k < kNoOrder" using Cons.prems by (auto simp: N_def)
    then show ?thesis
      using Cons.IH [of "erase_ref i x" N] order_index.erase_exact [OF Cons.prems(1), of i] Cons.prems(3) IxErase
      by (simp add: N_def [symmetric])
  next
    case IxClear
    then show ?thesis
      using Cons.IH [OF order_index.clear_exact [OF Cons.prems(1)]] Cons.prems by auto
  qed
qed simp

section \<open>The properties\<close>

text \<open>
  C28: The order-by-order book is its priority list.  After any sequence of adds, modifies, cancels, fills and
  clears, every operation has returned with the verdict of the specification, and the book holds exactly
  the specified orders: the lookup of every identifier, the number of orders and the queue of every level,
  in queue order, are those of the list.  A reduction keeps its place, an increase goes to the back.
\<close>

theorem l3_book_refines:
  assumes "length as < kNoOrder"
  shows "\<exists>b. l3_after sp n as = Some (fst (spec_run as []), b) \<and>
     lb_live b = length (snd (spec_run as [])) \<and>
     (\<forall>i. map_option resting_of (l3_find i b) = lookup_resting i (snd (spec_run as []))) \<and>
     (\<forall>s p. \<exists>os. map resting_of os = at_level s (ticks p) (snd (spec_run as [])) \<and>
        l3_for_each_order s p push_back b [] = Some os)"
proof -
  obtain b where b: "l3_after sp n as = Some (fst (spec_run as []), b)" "l3_holds b (snd (spec_run as []))"
    using l3_after_refines [OF assms] by blast
  have "\<exists>os. map resting_of os = at_level s (ticks p) (snd (spec_run as [])) \<and>
        l3_for_each_order s p push_back b [] = Some os" for s p
  proof -
    obtain os where "map resting_of os = at_level s (ticks p) (snd (spec_run as []))"
      "\<forall>f (st :: order list). l3_for_each_order s p f b st = Some (visit f os st)"
      using l3_for_each_order_holds [OF b(2)] by blast
    then show ?thesis by (intro exI [of _ os]) (simp add: visit_push_back)
  qed
  then show ?thesis using b l3_count_holds l3_find_holds by blast
qed

definition sample_l3_ops :: "l3_op list" where
  "sample_l3_ops =
     [L3Add 7 Bid (Price 100) (Qty 5), L3Add 8 Bid (Price 100) (Qty 3), L3Add 9 Bid (Price 99) (Qty 4),
      L3Add 7 Ask (Price 101) (Qty 1), L3Modify 7 (Qty 6), L3Execute 8 (Qty 1), L3Remove 9]"

lemma sample_l3_spec:
  "fst (spec_run sample_l3_ops []) = [True, True, True, False, True, True, True]"
  "snd (spec_run sample_l3_ops []) =
     [\<lparr>re_id = 8, re_side = Bid, re_price = 100, re_qty = 2\<rparr>, \<lparr>re_id = 7, re_side = Bid, re_price = 100, re_qty = 6\<rparr>]"
  by (simp_all add: sample_l3_ops_def lookup_resting_def without_def with_qty_def)

lemma l3_book_refines_witness:
  "\<exists>b. l3_after \<lparr>is_symbol = ''X'', is_price_scale = 0, is_qty_scale = 0\<rparr> 4 sample_l3_ops =
       Some ([True, True, True, False, True, True, True], b) \<and> lb_live b = 2"
  using l3_book_refines [of sample_l3_ops "\<lparr>is_symbol = ''X'', is_price_scale = 0, is_qty_scale = 0\<rparr>" 4]
  unfolding sample_l3_spec by (auto simp: sample_l3_ops_def kNoOrder_def)

lemma l3_levels_are_sums_facts:
  assumes "length as < kNoOrder" "l3_after sp n as = Some (vs, b)"
  shows "l3_for_each_level s f b st = visit f (spec_levels s (snd (spec_run as []))) st"
    and "l3_best s b = (case spec_levels s (snd (spec_run as [])) of [] \<Rightarrow> None | l # _ \<Rightarrow> Some l)"
    and "map_option (\<lambda>l. (ll_qty l, ll_orders l)) (l3_find_level s p b) =
      (let q = at_level s (ticks p) (snd (spec_run as [])) in
       if q = [] then None else Some (Qty (total_qty q), of_nat (length q)))"
proof -
  have "l3_holds b (snd (spec_run as []))" using l3_after_refines [OF assms(1), of sp n] assms(2) by auto
  then show "l3_for_each_level s f b st = visit f (spec_levels s (snd (spec_run as []))) st"
    "l3_best s b = (case spec_levels s (snd (spec_run as [])) of [] \<Rightarrow> None | l # _ \<Rightarrow> Some l)"
    "map_option (\<lambda>l. (ll_qty l, ll_orders l)) (l3_find_level s p b) =
      (let q = at_level s (ticks p) (snd (spec_run as [])) in
       if q = [] then None else Some (Qty (total_qty q), of_nat (length q)))"
    by (rule l3_for_each_level_holds l3_best_holds l3_find_level_holds)+
qed



text \<open>
  The volume ahead is exact.  On every reachable book \<open>queue_ahead\<close> returns, for a live order, the total
  quantity of the orders that precede it in the queue of its own level, and refuses any other identifier.
\<close>

theorem queue_ahead_exact:
  assumes "length as < kNoOrder" "l3_after sp n as = Some (vs, b)" and R: "R = snd (spec_run as [])"
  shows "l3_queue_ahead i b = Some (map_option
     (\<lambda>x. Qty (total_qty (takeWhile (\<lambda>y. re_id y \<noteq> i) (at_level (re_side x) (re_price x) R))))
     (lookup_resting i R))"
proof -
  have "l3_holds b R" using l3_after_refines [OF assms(1), of sp n] assms(2) by (auto simp: R)
  then show ?thesis by (rule l3_queue_ahead_holds)
qed

lemma queue_ahead_exact_witness:
  "\<exists>vs b. l3_after \<lparr>is_symbol = ''X'', is_price_scale = 0, is_qty_scale = 0\<rparr> 4 sample_l3_ops = Some (vs, b) \<and>
     l3_queue_ahead 7 b = Some (Some (Qty 2)) \<and> l3_queue_ahead 9 b = Some None"
proof -
  let ?sp = "\<lparr>is_symbol = ''X'', is_price_scale = 0, is_qty_scale = 0\<rparr>"
  have l: "length sample_l3_ops < kNoOrder" by (simp add: sample_l3_ops_def kNoOrder_def)
  obtain vs b where b: "l3_after ?sp 4 sample_l3_ops = Some (vs, b)" using l3_after_refines [OF l] by blast
  have "l3_queue_ahead 7 b = Some (Some (Qty 2))" "l3_queue_ahead 9 b = Some None"
    unfolding queue_ahead_exact [OF l b refl] sample_l3_spec
    by (simp_all add: lookup_resting_def at_level_def total_qty_def)
  then show ?thesis using b by blast
qed

text \<open>
  C30: The hash index never loses, never invents and never loops.  After any sequence of guarded insertions,
  erasures and clears, with the tombstones and the rehashes they cause, every probe has ended, the lookup
  of every identifier is that of a map, and the table is filled below seven tenths.
\<close>

theorem order_index_exact:
  assumes "list_all proper_ref as"
  shows "\<exists>x0 x. index_new n = Some x0 \<and> run_index as x0 = Some x \<and>
     (\<forall>i. find_ref i x = (case index_spec as Map.empty i of None \<Rightarrow> kNoOrder | Some r \<Rightarrow> r)) \<and>
     ix_used x * 10 < length (ix_table x) * 7"
proof -
  obtain x0 where x0: "index_new n = Some x0" "holds_index x0 Map.empty" using index_new_ok by blast
  obtain x where x: "run_index as x0 = Some x" "holds_index x (index_spec as Map.empty)"
    using run_index_holds [OF x0(2)] assms by auto
  have "\<forall>i. find_ref i x = (case index_spec as Map.empty i of None \<Rightarrow> kNoOrder | Some r \<Rightarrow> r)"
    using order_index.find_exact [OF x(2)] by blast
  then show ?thesis using x0(1) x by (auto simp: holds_index_def)
qed

lemma order_index_exact_witness:
  "\<exists>x0 x. index_new 4 = Some x0 \<and> run_index [IxInsert 5 0, IxInsert 21 1, IxErase 5, IxInsert 37 2] x0 = Some x \<and>
     find_ref 21 x = 1 \<and> find_ref 37 x = 2 \<and> find_ref 5 x = kNoOrder"
proof -
  let ?as = "[IxInsert 5 0, IxInsert 21 1, IxErase 5, IxInsert 37 2]"
  have "list_all proper_ref ?as" by (simp add: kNoOrder_def)
  from order_index_exact [OF this, of 4] obtain x0 x where
    "index_new 4 = Some x0" "run_index ?as x0 = Some x"
    "\<forall>i. find_ref i x = (case index_spec ?as Map.empty i of None \<Rightarrow> kNoOrder | Some r \<Rightarrow> r)"
    by blast
  then show ?thesis by (intro exI conjI) (assumption | simp)+
qed

text \<open>
  The arena neither leaks nor grows without need.  On every reachable book each slot is live or free, and
  the arena is never larger than the largest number of orders that were ever resting at once.
\<close>

theorem arena_is_reused:
  assumes "length as < kNoOrder" "l3_after sp n as = Some (vs, b)"
  shows "lb_live b + length (lb_free b) = length (lb_orders b) \<and> length (lb_orders b) \<le> peak_orders as []"
proof -
  obtain b0 where b0: "l3_new sp n = Some b0" "l3_holds b0 []" "lb_orders b0 = []"
    using l3_new_holds by blast
  then have "run_l3 as b0 = Some (vs, b)" using assms(2) by (simp add: l3_after_def)
  then have "length (lb_orders b) \<le> peak_orders as []"
    using arena_run [OF b0(2)] b0(3) assms(1) by fastforce
  moreover have "l3_holds b (snd (spec_run as []))" using l3_after_refines [OF assms(1), of sp n] assms(2) by auto
  ultimately show ?thesis using l3_no_leak by blast
qed

lemma arena_is_reused_witness:
  "\<exists>vs b. l3_after \<lparr>is_symbol = ''X'', is_price_scale = 0, is_qty_scale = 0\<rparr> 4 sample_l3_ops = Some (vs, b) \<and>
     length (lb_orders b) \<le> 3"
proof -
  let ?sp = "\<lparr>is_symbol = ''X'', is_price_scale = 0, is_qty_scale = 0\<rparr>"
  have l: "length sample_l3_ops < kNoOrder" by (simp add: sample_l3_ops_def kNoOrder_def)
  obtain vs b where b: "l3_after ?sp 4 sample_l3_ops = Some (vs, b)" using l3_after_refines [OF l] by blast
  have "peak_orders sample_l3_ops [] = 3"
    by (simp add: sample_l3_ops_def lookup_resting_def without_def with_qty_def)
  then show ?thesis using arena_is_reused [OF l b] b by auto
qed

end
