(* ===== verification/Execution.thy ===== *)
theory Execution
  imports Book_Props
begin

text \<open>
  \<open>include/crossbook/execution.hpp\<close>: what can be traded, rather than what the touch claims.  The checked
  signed arithmetic, the roundings, the price limit, and the two walks of a book side, each with its
  callback and the captured variables as a record.  \<open>size_spec\<close> and \<open>cost_spec\<close> state over plain integers
  what the walks return, on every branch.
\<close>

section \<open>Units and results\<close>

definition from_bps :: "int \<Rightarrow> int" where "from_bps bps = bps * 100"
definition from_percent :: "int \<Rightarrow> int" where "from_percent pct = pct * 10000"

datatype execution_status =
  ExecUnset | ExecOk | ExecEmptyBook | ExecOverflow | ExecLimitExcludedAll | ExecInvalidRequest

record execution =
  ex_qty :: qty
  ex_vwap :: price
  ex_limit_price :: price
  ex_levels :: nat
  ex_depth_exhausted :: bool
  ex_slippage :: int
  ex_status :: execution_status

definition execution0 :: execution where
  "execution0 = \<lparr>ex_qty = Qty 0, ex_vwap = Price 0, ex_limit_price = Price 0, ex_levels = 0,
     ex_depth_exhausted = False, ex_slippage = 0, ex_status = ExecUnset\<rparr>"

definition exec_empty :: "execution \<Rightarrow> bool" where "exec_empty e \<longleftrightarrow> units (ex_qty e) = 0"
definition exec_ok :: "execution \<Rightarrow> bool" where "exec_ok e \<longleftrightarrow> ex_status e = ExecOk"

section \<open>Checked signed arithmetic and roundings\<close>

definition checked_mul_signed :: "int \<Rightarrow> int \<Rightarrow> int option" where
  "checked_mul_signed a b =
     (let ua = magnitude_u64 a; ub = magnitude_u64 b in
      if ua > i64_max \<or> ub > i64_max then None
      else (case checked_mul ua ub of
              None \<Rightarrow> None
            | Some product \<Rightarrow> Some (if (a < 0) \<noteq> (b < 0) then - product else product)))"

definition checked_add_signed :: "int \<Rightarrow> int \<Rightarrow> int option" where
  "checked_add_signed a b =
     (if b \<ge> 0 then checked_add a b
      else if a < i64_min - b then None
      else Some (a + b))"

definition checked_sub_signed :: "int \<Rightarrow> int \<Rightarrow> int option" where
  "checked_sub_signed a b =
     (if b = i64_min then (if a \<ge> 0 then None else Some (a - b))
      else checked_add_signed a (- b))"

definition floor_div :: "int \<Rightarrow> int \<Rightarrow> int" where
  "floor_div num den =
     (let quotient = num sdiv den; remainder = num smod den in
      if remainder \<noteq> 0 \<and> (remainder < 0) \<noteq> (den < 0) then quotient - 1 else quotient)"

definition ceil_div :: "int \<Rightarrow> int \<Rightarrow> int" where
  "ceil_div num den =
     (let quotient = num sdiv den; remainder = num smod den in
      if remainder \<noteq> 0 \<and> (remainder < 0) = (den < 0) then quotient + 1 else quotient)"

definition div_away_from_zero :: "int \<Rightarrow> int \<Rightarrow> int" where
  "div_away_from_zero num den =
     (let quotient = num sdiv den in
      if num smod den = 0 then quotient
      else if (num < 0) = (den < 0) then quotient + 1 else quotient - 1)"

definition conservative_vwap :: "int \<Rightarrow> int \<Rightarrow> side \<Rightarrow> int" where
  "conservative_vwap notional q s = (if s = Ask then ceil_div notional q else floor_div notional q)"

definition price_limit :: "int \<Rightarrow> side \<Rightarrow> int \<Rightarrow> int option" where
  "price_limit touch s slippage =
     (case checked_mul_signed touch slippage of
        None \<Rightarrow> None
      | Some product \<Rightarrow>
          (let offset = product sdiv 1000000
           in if s = Ask then checked_add_signed touch offset else checked_add_signed touch (- offset)))"

definition bps_between :: "int \<Rightarrow> int \<Rightarrow> int" where
  "bps_between reference moved =
     (if reference = 0 then 0
      else
        (let delta = (if moved > reference then moved - reference else reference - moved) in
         case checked_mul_signed delta 1000000 of None \<Rightarrow> 0 | Some scaled \<Rightarrow> scaled sdiv reference))"

section \<open>The walk to a price limit\<close>

record size_walk =
  sw_result :: execution
  sw_notional :: int
  sw_total_qty :: int
  sw_overflowed :: bool
  sw_stopped_at_limit :: bool

definition size_step :: "side \<Rightarrow> int \<Rightarrow> level \<Rightarrow> size_walk \<Rightarrow> bool \<times> size_walk" where
  "size_step s limit l w =
     (if (if s = Ask then ticks (price l) > limit else ticks (price l) < limit)
      then (False, w\<lparr>sw_stopped_at_limit := True\<rparr>)
      else
        (case checked_mul_signed (ticks (price l)) (units (qty l)) of
           None \<Rightarrow> (False, w\<lparr>sw_overflowed := True\<rparr>)
         | Some contribution \<Rightarrow>
             (case checked_add_signed (sw_notional w) contribution of
                None \<Rightarrow> (False, w\<lparr>sw_overflowed := True\<rparr>)
              | Some notional \<Rightarrow>
                  (case checked_add_signed (sw_total_qty w) (units (qty l)) of
                     None \<Rightarrow> (False, w\<lparr>sw_notional := notional, sw_overflowed := True\<rparr>)
                   | Some total_qty \<Rightarrow>
                       (True, w\<lparr>sw_notional := notional, sw_total_qty := total_qty,
                          sw_result := (sw_result w)\<lparr>ex_limit_price := price l,
                            ex_levels := ex_levels (sw_result w) + 1\<rparr>\<rparr>)))))"

definition executable_size :: "'s side_impl \<Rightarrow> 's l2_book \<Rightarrow> side \<Rightarrow> int \<Rightarrow> execution" where
  "executable_size impl b s max_slippage =
     (if max_slippage < 0 then execution0\<lparr>ex_status := ExecInvalidRequest\<rparr>
      else
        (case book_best impl s b of
           None \<Rightarrow> execution0\<lparr>ex_depth_exhausted := True, ex_status := ExecEmptyBook\<rparr>
         | Some touch \<Rightarrow>
             (case price_limit (ticks (price touch)) s max_slippage of
                None \<Rightarrow> execution0\<lparr>ex_status := ExecOverflow\<rparr>
              | Some limit \<Rightarrow>
                  (let w = book_for_each impl s (size_step s limit) b
                         \<lparr>sw_result = execution0, sw_notional = 0, sw_total_qty = 0,
                           sw_overflowed = False, sw_stopped_at_limit = False\<rparr> in
                   if sw_overflowed w then execution0\<lparr>ex_status := ExecOverflow\<rparr>
                   else if sw_total_qty w = 0 then execution0\<lparr>ex_status := ExecLimitExcludedAll\<rparr>
                   else
                     (let vwap = Price (conservative_vwap (sw_notional w) (sw_total_qty w) s) in
                      (sw_result w)\<lparr>ex_qty := Qty (sw_total_qty w), ex_vwap := vwap,
                        ex_depth_exhausted := \<not> sw_stopped_at_limit w,
                        ex_slippage := bps_between (ticks (price touch)) (ticks vwap),
                        ex_status := ExecOk\<rparr>)))))"

definition touch_size :: "'s side_impl \<Rightarrow> 's l2_book \<Rightarrow> side \<Rightarrow> qty" where
  "touch_size impl b s = (case book_best impl s b of None \<Rightarrow> Qty 0 | Some touch \<Rightarrow> qty touch)"

section \<open>The walk to a size\<close>

record cost_walk =
  cw_result :: execution
  cw_notional :: int
  cw_remaining :: int
  cw_overflowed :: bool

definition cost_step :: "level \<Rightarrow> cost_walk \<Rightarrow> bool \<times> cost_walk" where
  "cost_step l w =
     (let take = (if units (qty l) < cw_remaining w then units (qty l) else cw_remaining w) in
      case checked_mul_signed (ticks (price l)) take of
        None \<Rightarrow> (False, w\<lparr>cw_overflowed := True\<rparr>)
      | Some contribution \<Rightarrow>
          (case checked_add_signed (cw_notional w) contribution of
             None \<Rightarrow> (False, w\<lparr>cw_overflowed := True\<rparr>)
           | Some notional \<Rightarrow>
               (cw_remaining w - take > 0,
                w\<lparr>cw_notional := notional, cw_remaining := cw_remaining w - take,
                  cw_result := (cw_result w)\<lparr>ex_limit_price := price l,
                    ex_levels := ex_levels (cw_result w) + 1\<rparr>\<rparr>)))"

definition cost_to_trade :: "'s side_impl \<Rightarrow> 's l2_book \<Rightarrow> side \<Rightarrow> qty \<Rightarrow> execution" where
  "cost_to_trade impl b s wanted =
     (if units wanted \<le> 0 then execution0\<lparr>ex_status := ExecInvalidRequest\<rparr>
      else
        (case book_best impl s b of
           None \<Rightarrow> execution0\<lparr>ex_depth_exhausted := True, ex_status := ExecEmptyBook\<rparr>
         | Some touch \<Rightarrow>
             (let w = book_for_each impl s cost_step b
                    \<lparr>cw_result = execution0, cw_notional = 0, cw_remaining = units wanted, cw_overflowed = False\<rparr> in
              if cw_overflowed w then execution0\<lparr>ex_status := ExecOverflow\<rparr>
              else
                (let filled = units wanted - cw_remaining w in
                 if filled = 0 then execution0\<lparr>ex_depth_exhausted := True, ex_status := ExecEmptyBook\<rparr>
                 else
                   (let vwap = Price (conservative_vwap (cw_notional w) filled s) in
                    (cw_result w)\<lparr>ex_qty := Qty filled, ex_vwap := vwap,
                      ex_depth_exhausted := cw_remaining w > 0,
                      ex_slippage := bps_between (ticks (price touch)) (ticks vwap),
                      ex_status := ExecOk\<rparr>)))))"

section \<open>What the arithmetic computes\<close>

lemma checked_mul_signed_exact:
  assumes "\<bar>a\<bar> \<le> i64_max" "\<bar>b\<bar> \<le> i64_max"
  shows "checked_mul_signed a b = (if \<bar>a * b\<bar> \<le> i64_max then Some (a * b) else None)"
proof -
  have "checked_mul \<bar>a\<bar> \<bar>b\<bar> = (if \<bar>a * b\<bar> \<le> i64_max then Some \<bar>a * b\<bar> else None)"
    using checked_mul_nonneg [of "\<bar>a\<bar>" "\<bar>b\<bar>"] by (simp add: abs_mult)
  moreover have "(if (a < 0) \<noteq> (b < 0) then - \<bar>a * b\<bar> else \<bar>a * b\<bar>) = a * b"
    by (cases "a < 0"; cases "b < 0") (auto simp: abs_mult mult_less_0_iff zero_le_mult_iff)
  ultimately show ?thesis
    using assms i64_abs [OF assms(1)] i64_abs [OF assms(2)]
    by (auto simp: checked_mul_signed_def magnitude_u64_abs)
qed

text \<open>Anything times the smallest integer is refused, zero included.\<close>

lemma checked_mul_signed_min: "i64 a \<Longrightarrow> checked_mul_signed a i64_min = None"
proof -
  have "magnitude_u64 i64_min = - i64_min"
    by (subst magnitude_u64_abs) (simp_all add: int_limits)
  then show ?thesis by (simp add: checked_mul_signed_def int_limits)
qed

lemma checked_add_signed_exact:
  "i64 a \<Longrightarrow> i64 b \<Longrightarrow> checked_add_signed a b = (if i64 (a + b) then Some (a + b) else None)"
  by (auto simp: checked_add_signed_def checked_add_def int_limits)

lemma checked_sub_signed_exact:
  "i64 a \<Longrightarrow> i64 b \<Longrightarrow> checked_sub_signed a b = (if i64 (a - b) then Some (a - b) else None)"
  by (auto simp: checked_sub_signed_def checked_add_signed_def checked_add_def int_limits)

lemma floor_div_exact: "0 \<le> n \<Longrightarrow> 0 < d \<Longrightarrow> floor_div n d = n div d"
  by (simp add: floor_div_def sdiv_nonneg smod_nonneg Let_def not_less)

lemma ceil_div_exact: "0 \<le> n \<Longrightarrow> 0 < d \<Longrightarrow> ceil_div n d = - (- n div d)"
  by (simp add: ceil_div_def sdiv_nonneg smod_nonneg Let_def not_less zdiv_zminus1_eq_if)

lemma nonneg_mul:
  "0 \<le> a \<Longrightarrow> a \<le> i64_max \<Longrightarrow> 0 \<le> b \<Longrightarrow> b \<le> i64_max \<Longrightarrow>
   checked_mul_signed a b = (if a * b \<le> i64_max then Some (a * b) else None)"
  by (simp add: checked_mul_signed_exact)

lemma nonneg_add:
  "0 \<le> b \<Longrightarrow> checked_add_signed a b = (if a + b \<le> i64_max then Some (a + b) else None)"
  by (auto simp: checked_add_signed_def checked_add_def)

text \<open>The limit moves away from the touch, rounded towards it.\<close>

definition limit_of :: "int \<Rightarrow> side \<Rightarrow> int \<Rightarrow> int" where
  "limit_of touch s slippage =
     (if s = Ask then touch + touch * slippage div 1000000 else touch - touch * slippage div 1000000)"

lemma price_limit_exact:
  assumes "0 \<le> t" "t \<le> i64_max" "0 \<le> b" "b \<le> i64_max"
  shows "price_limit t s b =
     (if t * b \<le> i64_max \<and> limit_of t s b \<le> i64_max then Some (limit_of t s b) else None)"
proof (cases "t * b \<le> i64_max")
  case True
  have p: "0 \<le> t * b" using assms by simp
  have o: "0 \<le> t * b div 1000000" "t * b div 1000000 \<le> t * b"
    using p by (simp_all add: pos_imp_zdiv_nonneg_iff div_le_dividend)
  have "checked_add_signed t (- (t * b div 1000000)) = Some (t - t * b div 1000000)"
    using assms o True by (auto simp: checked_add_signed_def checked_add_def int_limits)
  moreover have "t - t * b div 1000000 \<le> i64_max" using assms o by simp
  ultimately show ?thesis
    using assms True o by (simp add: price_limit_def nonneg_mul sdiv_nonneg nonneg_add limit_of_def)
next
  case False
  then show ?thesis using assms by (simp add: price_limit_def nonneg_mul)
qed

definition slippage_of :: "int \<Rightarrow> int \<Rightarrow> int" where
  "slippage_of reference moved =
     (if reference = 0 \<or> \<bar>moved - reference\<bar> * 1000000 > i64_max then 0
      else \<bar>moved - reference\<bar> * 1000000 div reference)"

lemma bps_between_exact:
  assumes "0 \<le> r" "r \<le> i64_max" "0 \<le> m" "m \<le> i64_max"
  shows "bps_between r m = slippage_of r m"
proof -
  have d: "(if m > r then m - r else r - m) = \<bar>m - r\<bar>" by simp
  have "\<bar>m - r\<bar> \<le> i64_max" using assms by simp
  moreover have "(1000000 :: int) \<le> i64_max" by (simp add: int_limits)
  ultimately have "checked_mul_signed \<bar>m - r\<bar> 1000000 =
      (if \<bar>m - r\<bar> * 1000000 \<le> i64_max then Some (\<bar>m - r\<bar> * 1000000) else None)"
    by (intro nonneg_mul) simp_all
  then show ?thesis
    using assms unfolding bps_between_def d slippage_of_def by (auto simp: sdiv_nonneg Let_def)
qed

section \<open>What the walks return\<close>

definition notional_of :: "level list \<Rightarrow> int" where
  "notional_of L = sum_list (map (\<lambda>l. ticks (price l) * units (qty l)) L)"

definition volume_of :: "level list \<Rightarrow> int" where
  "volume_of L = sum_list (map (\<lambda>l. units (qty l)) L)"

definition in_limit :: "side \<Rightarrow> int \<Rightarrow> level \<Rightarrow> bool" where
  "in_limit s limit l \<longleftrightarrow> (if s = Ask then ticks (price l) \<le> limit else limit \<le> ticks (price l))"

definition levels_ok :: "level list \<Rightarrow> bool" where
  "levels_ok L \<longleftrightarrow> (\<forall>l \<in> set L. 0 \<le> ticks (price l) \<and> ticks (price l) \<le> i64_max \<and>
     0 < units (qty l) \<and> units (qty l) \<le> i64_max)"

text \<open>The average price, rounded so that the taker never pays less or receives more than it says.\<close>

definition taker_vwap :: "side \<Rightarrow> int \<Rightarrow> int \<Rightarrow> int" where
  "taker_vwap s n v = (if s = Ask then - (- n div v) else n div v)"

definition filled :: "side \<Rightarrow> int \<Rightarrow> int \<Rightarrow> int \<Rightarrow> price \<Rightarrow> nat \<Rightarrow> bool \<Rightarrow> execution" where
  "filled s touch n v limit k exhausted =
     \<lparr>ex_qty = Qty v, ex_vwap = Price (taker_vwap s n v), ex_limit_price = limit, ex_levels = k,
      ex_depth_exhausted = exhausted, ex_slippage = slippage_of touch (taker_vwap s n v), ex_status = ExecOk\<rparr>"

definition size_spec :: "side \<Rightarrow> int \<Rightarrow> level list \<Rightarrow> execution" where
  "size_spec s slippage L =
     (if slippage < 0 then execution0\<lparr>ex_status := ExecInvalidRequest\<rparr>
      else if L = [] then execution0\<lparr>ex_depth_exhausted := True, ex_status := ExecEmptyBook\<rparr>
      else
        (let touch = ticks (price (hd L));
             P = takeWhile (in_limit s (limit_of touch s slippage)) L in
         if i64_max < touch * slippage \<or> i64_max < limit_of touch s slippage \<or>
            i64_max < notional_of P \<or> i64_max < volume_of P
         then execution0\<lparr>ex_status := ExecOverflow\<rparr>
         else filled s touch (notional_of P) (volume_of P) (price (last P)) (length P) (P = L)))"

lemma sums_simps [simp]:
  "notional_of [] = 0" "volume_of [] = 0"
  "notional_of (l # L) = ticks (price l) * units (qty l) + notional_of L"
  "volume_of (l # L) = units (qty l) + volume_of L"
  by (simp_all add: notional_of_def volume_of_def)

lemma levels_ok_simps [simp]:
  "levels_ok []"
  "levels_ok (l # L) \<longleftrightarrow> 0 \<le> ticks (price l) \<and> ticks (price l) \<le> i64_max \<and>
     0 < units (qty l) \<and> units (qty l) \<le> i64_max \<and> levels_ok L"
  by (auto simp: levels_ok_def)

lemma levels_ok_takeWhile: "levels_ok L \<Longrightarrow> levels_ok (takeWhile P L)"
  by (auto simp: levels_ok_def dest: set_takeWhileD)

lemma sums_nonneg: "levels_ok L \<Longrightarrow> 0 \<le> notional_of L \<and> 0 \<le> volume_of L"
  by (induction L) auto

lemma volume_pos: "levels_ok L \<Longrightarrow> L \<noteq> [] \<Longrightarrow> 0 < volume_of L"
  using sums_nonneg by (cases L) (auto simp: add_pos_nonneg)

lemma size_walk_ok:
  "levels_ok L \<Longrightarrow> \<not> sw_overflowed w \<Longrightarrow> \<not> sw_stopped_at_limit w \<Longrightarrow>
   0 \<le> sw_notional w \<Longrightarrow> sw_notional w \<le> i64_max \<Longrightarrow> 0 \<le> sw_total_qty w \<Longrightarrow> sw_total_qty w \<le> i64_max \<Longrightarrow>
   (let P = takeWhile (in_limit s limit) L; w' = visit (size_step s limit) L w in
    if i64_max < sw_notional w + notional_of P \<or> i64_max < sw_total_qty w + volume_of P
    then sw_overflowed w'
    else w' = w\<lparr>sw_notional := sw_notional w + notional_of P, sw_total_qty := sw_total_qty w + volume_of P,
      sw_stopped_at_limit := (P \<noteq> L),
      sw_result := (if P = [] then sw_result w
        else (sw_result w)\<lparr>ex_limit_price := price (last P), ex_levels := ex_levels (sw_result w) + length P\<rparr>)\<rparr>)"
proof (induction L arbitrary: w)
  case Nil
  then show ?case by (auto simp: Let_def)
next
  case (Cons l L)
  let ?c = "ticks (price l) * units (qty l)"
  let ?P = "takeWhile (in_limit s limit) L"
  have l: "0 \<le> ticks (price l)" "ticks (price l) \<le> i64_max" "0 < units (qty l)" "units (qty l) \<le> i64_max"
    and L: "levels_ok L" using Cons.prems(1) by simp_all
  have c: "0 \<le> ?c" using l by simp
  have P: "0 \<le> notional_of ?P" "0 \<le> volume_of ?P" using sums_nonneg levels_ok_takeWhile [OF L] by auto
  show ?case
  proof (cases "in_limit s limit l")
    case False
    then have "visit (size_step s limit) (l # L) w = w\<lparr>sw_stopped_at_limit := True\<rparr>"
      by (auto simp: size_step_def in_limit_def)
    then show ?thesis using False Cons.prems by simp
  next
    case True
    then have lim: "\<not> (if s = Ask then ticks (price l) > limit else ticks (price l) < limit)"
      by (auto simp: in_limit_def)
    show ?thesis
    proof (cases "?c \<le> i64_max \<and> sw_notional w + ?c \<le> i64_max \<and> sw_total_qty w + units (qty l) \<le> i64_max")
      case False
      then have "sw_overflowed (visit (size_step s limit) (l # L) w)"
        using lim l c by (simp add: size_step_def nonneg_mul nonneg_add)
      moreover have "i64_max < sw_notional w + (?c + notional_of ?P) \<or>
          i64_max < sw_total_qty w + (units (qty l) + volume_of ?P)"
        using False P c Cons.prems(4,6) by linarith
      ultimately show ?thesis
        using True False P c by (auto simp: Let_def)
    next
      case fits: True
      define v where "v = w\<lparr>sw_notional := sw_notional w + ?c, sw_total_qty := sw_total_qty w + units (qty l),
        sw_result := (sw_result w)\<lparr>ex_limit_price := price l, ex_levels := ex_levels (sw_result w) + 1\<rparr>\<rparr>"
      have step: "visit (size_step s limit) (l # L) w = visit (size_step s limit) L v"
        using fits lim l c by (simp add: size_step_def nonneg_mul nonneg_add v_def)
      show ?thesis
        using Cons.IH [OF L, of v] Cons.prems(2-) True fits l c
        unfolding step Let_def
        by (cases "?P = []") (auto simp: v_def algebra_simps)
    qed
  qed
qed

lemma taker_vwap_exact: "0 \<le> n \<Longrightarrow> 0 < v \<Longrightarrow> conservative_vwap n v s = taker_vwap s n v"
  by (simp add: conservative_vwap_def taker_vwap_def floor_div_exact ceil_div_exact)

lemma taker_vwap_bounds:
  assumes "0 < v"
  shows "n \<le> taker_vwap Ask n v * v" "taker_vwap Ask n v * v < n + v"
    "taker_vwap Bid n v * v \<le> n" "n - v < taker_vwap Bid n v * v"
proof -
  have m: "x mod v < v" "0 \<le> x mod v" "x div v * v = x - x mod v" for x
    using assms by (simp_all add: minus_mod_eq_div_mult)
  have A: "taker_vwap Ask n v = - (- n div v)" "taker_vwap Bid n v = n div v" by (simp_all add: taker_vwap_def)
  show "n \<le> taker_vwap Ask n v * v" "taker_vwap Ask n v * v < n + v"
    "taker_vwap Bid n v * v \<le> n" "n - v < taker_vwap Bid n v * v"
    unfolding A minus_mult_left [symmetric] m(3) using m(1,2) [of n] m(1,2) [of "- n"] by linarith+
qed

lemma taker_vwap_between:
  assumes "0 < v" "a * v \<le> n" "n \<le> c * v"
  shows "a \<le> taker_vwap s n v" "taker_vwap s n v \<le> c"
proof -
  have "a \<le> n div v" using assms by (simp add: le_div_iff_mult_le)
  moreover have "- c \<le> - n div v" using assms by (simp add: le_div_iff_mult_le)
  moreover have "n div v \<le> c" using assms zdiv_mono1 [of n "c * v" v] by simp
  moreover have "- n div v \<le> - a"
    using assms zdiv_mono1 [of "- n" "- a * v" v] nonzero_mult_div_cancel_right [of v "- a"] by simp
  ultimately show "a \<le> taker_vwap s n v" "taker_vwap s n v \<le> c" by (simp_all add: taker_vwap_def)
qed

lemma taker_vwap_range: "0 \<le> n \<Longrightarrow> n \<le> i64_max \<Longrightarrow> 0 < v \<Longrightarrow> 0 \<le> taker_vwap s n v \<and> taker_vwap s n v \<le> i64_max"
proof -
  assume a: "0 \<le> n" "n \<le> i64_max" "0 < v"
  have "n * 1 \<le> n * v" using a by (intro mult_left_mono) auto
  then show ?thesis using a taker_vwap_between [of v 0 n n s] by simp
qed

lemma touch_in_limit:
  assumes "levels_ok (l # L)" "0 \<le> slippage"
  shows "in_limit s (limit_of (ticks (price l)) s slippage) l"
  using assms by (auto simp: in_limit_def limit_of_def pos_imp_zdiv_nonneg_iff)

lemma executable_size_levels:
  assumes L: "si_levels impl (book_side_of s b) = L"
    and best: "book_best impl s b = (case L of [] \<Rightarrow> None | l # _ \<Rightarrow> Some l)"
    and ok: "levels_ok L" and m: "slippage \<le> i64_max"
  shows "executable_size impl b s slippage = size_spec s slippage L"
proof (cases "slippage < 0 \<or> L = []")
  case True
  then show ?thesis using best by (auto simp: executable_size_def size_spec_def)
next
  case False
  then obtain l M where Ll: "L = l # M" and sl: "0 \<le> slippage" by (cases L) auto
  define t where "t = ticks (price l)"
  define lim where "lim = limit_of t s slippage"
  have t: "0 \<le> t" "t \<le> i64_max" using ok by (simp_all add: Ll t_def)
  note pl = price_limit_exact [OF t sl m, of s, folded lim_def]
  define P where "P = takeWhile (in_limit s lim) L"
  have P: "P \<noteq> []" "levels_ok P"
  proof -
    show "levels_ok P" unfolding P_def by (rule levels_ok_takeWhile [OF ok])
    show "P \<noteq> []" using touch_in_limit [of l M slippage s] ok sl by (simp add: P_def Ll lim_def t_def)
  qed
  have np: "0 \<le> notional_of P" "0 < volume_of P" using sums_nonneg [OF P(2)] volume_pos [OF P(2,1)] by auto
  have spec: "size_spec s slippage L =
      (if i64_max < t * slippage \<or> i64_max < lim \<or> i64_max < notional_of P \<or> i64_max < volume_of P
       then execution0\<lparr>ex_status := ExecOverflow\<rparr>
       else filled s t (notional_of P) (volume_of P) (price (last P)) (length P) (P = L))"
    using False by (simp add: size_spec_def Let_def Ll P_def lim_def t_def)
  let ?w0 = "\<lparr>sw_result = execution0, sw_notional = 0, sw_total_qty = 0,
                           sw_overflowed = False, sw_stopped_at_limit = False\<rparr>"
  define w where "w = visit (size_step s lim) L ?w0"
  have mx: "(0 :: int) \<le> i64_max" by (simp add: int_limits)
  note walk = size_walk_ok [OF ok, of ?w0 s lim, folded P_def w_def, unfolded Let_def]
  show ?thesis
  proof (cases "t * slippage \<le> i64_max \<and> lim \<le> i64_max")
    case False
    then have "executable_size impl b s slippage = execution0\<lparr>ex_status := ExecOverflow\<rparr>"
      using pl sl best by (auto simp: executable_size_def Ll t_def)
    then show ?thesis using spec False by auto
  next
    case True
    then have ex: "executable_size impl b s slippage =
        (if sw_overflowed w then execution0\<lparr>ex_status := ExecOverflow\<rparr>
         else if sw_total_qty w = 0 then execution0\<lparr>ex_status := ExecLimitExcludedAll\<rparr>
         else (sw_result w)\<lparr>ex_qty := Qty (sw_total_qty w),
              ex_vwap := Price (conservative_vwap (sw_notional w) (sw_total_qty w) s),
              ex_depth_exhausted := \<not> sw_stopped_at_limit w,
              ex_slippage := bps_between t (conservative_vwap (sw_notional w) (sw_total_qty w) s),
              ex_status := ExecOk\<rparr>)"
      using pl sl best L by (simp add: executable_size_def Ll t_def book_for_each_def w_def Let_def)
    show ?thesis
    proof (cases "i64_max < notional_of P \<or> i64_max < volume_of P")
      case over: True
      then have "sw_overflowed w" using walk mx by auto
      then show ?thesis using ex spec over by auto
    next
      case False
      then have "w = ?w0\<lparr>sw_notional := notional_of P, sw_total_qty := volume_of P, sw_stopped_at_limit := (P \<noteq> L),
          sw_result := execution0\<lparr>ex_limit_price := price (last P), ex_levels := length P\<rparr>\<rparr>"
        using walk mx P(1) by (simp add: execution0_def)
      moreover have "bps_between t (taker_vwap s (notional_of P) (volume_of P)) =
          slippage_of t (taker_vwap s (notional_of P) (volume_of P))"
        using taker_vwap_range [of "notional_of P" "volume_of P" s] np False t by (intro bps_between_exact) auto
      ultimately show ?thesis
        using ex spec False True np by (simp add: taker_vwap_exact filled_def execution0_def)
    qed
  qed
qed

section \<open>Filling a size\<close>

text \<open>The levels a taker of \<open>w\<close> units trades with, the last one possibly in part.\<close>

fun fill :: "int \<Rightarrow> level list \<Rightarrow> level list" where
  "fill w [] = []"
| "fill w (l # L) =
     (if w \<le> units (qty l) then [Level (price l) (Qty w)] else l # fill (w - units (qty l)) L)"

definition cost_spec :: "side \<Rightarrow> int \<Rightarrow> level list \<Rightarrow> execution" where
  "cost_spec s w L =
     (if w \<le> 0 then execution0\<lparr>ex_status := ExecInvalidRequest\<rparr>
      else if L = [] then execution0\<lparr>ex_depth_exhausted := True, ex_status := ExecEmptyBook\<rparr>
      else
        (let F = fill w L in
         if i64_max < notional_of F then execution0\<lparr>ex_status := ExecOverflow\<rparr>
         else filled s (ticks (price (hd L))) (notional_of F) (volume_of F) (price (last F)) (length F)
                (volume_of F < w)))"

lemma fill_ok: "levels_ok L \<Longrightarrow> 0 < w \<Longrightarrow> w \<le> i64_max \<Longrightarrow> levels_ok (fill w L)"
  by (induction L arbitrary: w) auto

lemma fill_volume: "levels_ok L \<Longrightarrow> 0 < w \<Longrightarrow> volume_of (fill w L) = min w (volume_of L)"
proof (induction L arbitrary: w)
  case (Cons l L)
  then show ?case using sums_nonneg [of L] by (auto simp: min_def)
qed simp

lemma fill_prefix: "levels_ok (P @ R) \<Longrightarrow> P \<noteq> [] \<Longrightarrow> fill (volume_of P) (P @ R) = P"
proof (induction P)
  case (Cons l P)
  show ?case
  proof (cases "P = []")
    case True
    then show ?thesis by (cases l; cases "qty l") simp
  next
    case False
    have P: "levels_ok P" using Cons.prems by (auto simp: levels_ok_def)
    then show ?thesis using Cons False volume_pos [OF P False] by simp
  qed
qed simp

lemma cost_walk_ok:
  "levels_ok L \<Longrightarrow> \<not> cw_overflowed w \<Longrightarrow> 0 \<le> cw_notional w \<Longrightarrow> cw_notional w \<le> i64_max \<Longrightarrow>
   0 < cw_remaining w \<Longrightarrow> cw_remaining w \<le> i64_max \<Longrightarrow>
   (let F = fill (cw_remaining w) L; w' = visit cost_step L w in
    if i64_max < cw_notional w + notional_of F then cw_overflowed w'
    else w' = w\<lparr>cw_notional := cw_notional w + notional_of F, cw_remaining := cw_remaining w - volume_of F,
      cw_result := (if F = [] then cw_result w
        else (cw_result w)\<lparr>ex_limit_price := price (last F), ex_levels := ex_levels (cw_result w) + length F\<rparr>)\<rparr>)"
proof (induction L arbitrary: w)
  case Nil
  then show ?case by (simp add: Let_def)
next
  case (Cons l L)
  define take where "take = (if units (qty l) < cw_remaining w then units (qty l) else cw_remaining w)"
  define c where "c = ticks (price l) * take"
  have l: "0 \<le> ticks (price l)" "ticks (price l) \<le> i64_max" "0 < units (qty l)" "units (qty l) \<le> i64_max"
    and L: "levels_ok L" using Cons.prems(1) by simp_all
  have t: "0 < take" "take \<le> i64_max" using l Cons.prems by (simp_all add: take_def)
  have c: "0 \<le> c" using l t by (simp add: c_def)
  have hd: "notional_of (fill (cw_remaining w) (l # L)) =
      c + (if units (qty l) < cw_remaining w then notional_of (fill (cw_remaining w - units (qty l)) L) else 0)"
    by (simp add: c_def take_def)
  have rest: "0 \<le> notional_of (fill (cw_remaining w - units (qty l)) L)" if "units (qty l) < cw_remaining w"
    using that Cons.prems l by (intro sums_nonneg [THEN conjunct1] fill_ok L) auto
  show ?case
  proof (cases "c \<le> i64_max \<and> cw_notional w + c \<le> i64_max")
    case False
    then have "cw_overflowed (visit cost_step (l # L) w)"
      using l t c by (simp add: cost_step_def take_def [symmetric] c_def nonneg_mul nonneg_add)
    moreover have "i64_max < cw_notional w + notional_of (fill (cw_remaining w) (l # L))"
      using False hd rest c Cons.prems(3) by (auto split: if_splits)
    ultimately show ?thesis by (simp only: Let_def if_True)
  next
    case fits: True
    define v where "v = w\<lparr>cw_notional := cw_notional w + c, cw_remaining := cw_remaining w - take,
      cw_result := (cw_result w)\<lparr>ex_limit_price := price l, ex_levels := ex_levels (cw_result w) + 1\<rparr>\<rparr>"
    have step: "visit cost_step (l # L) w = (if cw_remaining w - take > 0 then visit cost_step L v else v)"
      using fits l t c by (simp add: cost_step_def take_def [symmetric] c_def nonneg_mul nonneg_add v_def)
    show ?thesis
    proof (cases "units (qty l) < cw_remaining w")
      case True
      then have tk: "take = units (qty l)" by (simp add: take_def)
      show ?thesis
        using Cons.IH [OF L, of v] Cons.prems(2-) True fits l c tk
        unfolding step Let_def
        by (cases "fill (cw_remaining w - units (qty l)) L = []") (auto simp: v_def c_def algebra_simps)
    next
      case False
      then have "take = cw_remaining w" by (simp add: take_def)
      then show ?thesis using fits False unfolding step by (auto simp: v_def c_def Let_def)
    qed
  qed
qed

lemma cost_to_trade_levels:
  assumes L: "si_levels impl (book_side_of s b) = L"
    and best: "book_best impl s b = (case L of [] \<Rightarrow> None | l # _ \<Rightarrow> Some l)"
    and ok: "levels_ok L" and m: "units w \<le> i64_max"
  shows "cost_to_trade impl b s w = cost_spec s (units w) L"
proof (cases "units w \<le> 0 \<or> L = []")
  case True
  then show ?thesis using best by (auto simp: cost_to_trade_def cost_spec_def)
next
  case False
  then obtain l M where Ll: "L = l # M" and w0: "0 < units w" by (cases L) auto
  define F where "F = fill (units w) L"
  have F: "F \<noteq> []" "levels_ok F" using fill_ok [OF ok w0 m] by (auto simp: F_def Ll)
  have nv: "0 \<le> notional_of F" "0 < volume_of F" using sums_nonneg [OF F(2)] volume_pos [OF F(2,1)] by auto
  have t: "0 \<le> ticks (price l)" "ticks (price l) \<le> i64_max" using ok by (simp_all add: Ll)
  let ?w0 = "\<lparr>cw_result = execution0, cw_notional = 0, cw_remaining = units w, cw_overflowed = False\<rparr>"
  define v where "v = visit cost_step L ?w0"
  have mx: "(0 :: int) \<le> i64_max" by (simp add: int_limits)
  note walk = cost_walk_ok [OF ok, of ?w0, unfolded Let_def, folded v_def]
  have ex: "cost_to_trade impl b s w =
      (if cw_overflowed v then execution0\<lparr>ex_status := ExecOverflow\<rparr>
       else if units w - cw_remaining v = 0 then execution0\<lparr>ex_depth_exhausted := True, ex_status := ExecEmptyBook\<rparr>
       else (cw_result v)\<lparr>ex_qty := Qty (units w - cw_remaining v),
            ex_vwap := Price (conservative_vwap (cw_notional v) (units w - cw_remaining v) s),
            ex_depth_exhausted := cw_remaining v > 0,
            ex_slippage := bps_between (ticks (price l)) (conservative_vwap (cw_notional v) (units w - cw_remaining v) s),
            ex_status := ExecOk\<rparr>)"
    using False best L by (simp add: cost_to_trade_def Ll book_for_each_def v_def Let_def)
  have spec: "cost_spec s (units w) L =
      (if i64_max < notional_of F then execution0\<lparr>ex_status := ExecOverflow\<rparr>
       else filled s (ticks (price l)) (notional_of F) (volume_of F) (price (last F)) (length F) (volume_of F < units w))"
    using False by (simp add: cost_spec_def F_def Ll Let_def)
  show ?thesis
  proof (cases "i64_max < notional_of F")
    case True
    then have "cw_overflowed v" using walk mx w0 m by (simp add: F_def)
    then show ?thesis using ex spec True by simp
  next
    case nov: False
    then have v: "v = ?w0\<lparr>cw_notional := notional_of F, cw_remaining := units w - volume_of F,
        cw_result := execution0\<lparr>ex_limit_price := price (last F), ex_levels := length F\<rparr>\<rparr>"
      using walk mx w0 m F(1) by (simp add: F_def execution0_def)
    have "bps_between (ticks (price l)) (taker_vwap s (notional_of F) (volume_of F)) =
        slippage_of (ticks (price l)) (taker_vwap s (notional_of F) (volume_of F))"
      using taker_vwap_range [of "notional_of F" "volume_of F" s] nv nov t by (intro bps_between_exact) auto
    then show ?thesis
      using ex spec nov nv by (simp add: v taker_vwap_exact filled_def execution0_def)
  qed
qed

section \<open>Every reached book\<close>

lemma reached_levels:
  assumes "book_run (array_impl kDefaultSlots) ops (l2_book_new (array_impl kDefaultSlots) spec) = Some b"
    and "\<forall>op \<in> set ops. book_op_ok op"
  shows "levels_ok (si_levels (array_impl kDefaultSlots) (book_side_of s b))"
    and "book_best (array_impl kDefaultSlots) s b =
      (case si_levels (array_impl kDefaultSlots) (book_side_of s b) of [] \<Rightarrow> None | l # _ \<Rightarrow> Some l)"
    and "sorted_wrt (\<lambda>x y. precedes s (ticks (price x)) (ticks (price y)))
      (si_levels (array_impl kDefaultSlots) (book_side_of s b))"
proof -
  define m where "m = fold l2_step ops (\<lambda>s. [])"
  note r = reached_array [OF assms, folded m_def]
  have l: "si_levels (array_impl kDefaultSlots) (book_side_of s b) = depth m s"
    by (rule array_side.rep_levels [OF r(1)])
  show "book_best (array_impl kDefaultSlots) s b =
      (case si_levels (array_impl kDefaultSlots) (book_side_of s b) of [] \<Rightarrow> None | l # _ \<Rightarrow> Some l)"
    by (simp add: l array_side.rep_best [OF r(1)])
  show "levels_ok (si_levels (array_impl kDefaultSlots) (book_side_of s b))"
  proof -
    have "0 < units (qty x)" if "x \<in> set (depth m s)" for x
      using that r(2) by (fastforce simp: depth_def content_levels_def l2_ok_def)
    then show ?thesis using depth_range [OF r(2)] by (auto simp: l levels_ok_def int_limits)
  qed
  have "sorted_wrt (precedes s) (keys (book_order s (m s)))"
    using r(2) by (simp add: sorted_book_order l2_ok_def contents_ok_def)
  then show "sorted_wrt (\<lambda>x y. precedes s (ticks (price x)) (ticks (price y)))
      (si_levels (array_impl kDefaultSlots) (book_side_of s b))"
    by (simp add: l depth_def content_levels_def sorted_wrt_map keys_def)
qed

lemma notional_bounds:
  assumes "levels_ok F" "\<forall>l \<in> set F. a \<le> ticks (price l) \<and> ticks (price l) \<le> c"
  shows "a * volume_of F \<le> notional_of F \<and> notional_of F \<le> c * volume_of F"
  using assms
proof (induction F)
  case (Cons l F)
  then have h: "a * units (qty l) \<le> ticks (price l) * units (qty l)" "ticks (price l) * units (qty l) \<le> c * units (qty l)"
    by (simp_all add: mult_right_mono)
  have "a * volume_of F \<le> notional_of F \<and> notional_of F \<le> c * volume_of F"
    using Cons by simp
  then show ?case unfolding sums_simps distrib_left using h by linarith
qed simp

text \<open>The prices a taker trades at lie between the first and the last.\<close>

lemma between_ends:
  assumes "sorted_wrt (\<lambda>x y. precedes s (ticks (price x)) (ticks (price y))) F" "l \<in> set F"
  shows "s = Ask \<Longrightarrow> ticks (price (hd F)) \<le> ticks (price l) \<and> ticks (price l) \<le> ticks (price (last F))"
    and "s = Bid \<Longrightarrow> ticks (price (last F)) \<le> ticks (price l) \<and> ticks (price l) \<le> ticks (price (hd F))"
proof -
  have h: "l = hd F \<or> precedes s (ticks (price (hd F))) (ticks (price l))"
    using assms by (cases F) auto
  have "l = last F \<or> precedes s (ticks (price l)) (ticks (price (last F)))"
    using assms by (cases F rule: rev_cases) (auto simp: sorted_wrt_append)
  with h show "s = Ask \<Longrightarrow> ticks (price (hd F)) \<le> ticks (price l) \<and> ticks (price l) \<le> ticks (price (last F))"
    "s = Bid \<Longrightarrow> ticks (price (last F)) \<le> ticks (price l) \<and> ticks (price l) \<le> ticks (price (hd F))"
    by auto
qed

lemma fill_sorted:
  "sorted_wrt (\<lambda>x y. precedes s (ticks (price x)) (ticks (price y))) L \<Longrightarrow>
   sorted_wrt (\<lambda>x y. precedes s (ticks (price x)) (ticks (price y))) (fill w L) \<and>
   (\<forall>f \<in> set (fill w L). \<exists>l \<in> set L. price f = price l)"
proof (induction L arbitrary: w)
  case (Cons l L)
  show ?case
  proof (cases "w \<le> units (qty l)")
    case False
    note ih = Cons.IH [of "w - units (qty l)"]
    have "\<forall>f \<in> set (fill (w - units (qty l)) L). precedes s (ticks (price l)) (ticks (price f))"
      using ih Cons.prems by fastforce
    then show ?thesis using ih Cons.prems False by auto
  qed simp
qed simp

lemma fill_head: "L \<noteq> [] \<Longrightarrow> fill w L \<noteq> [] \<and> price (hd (fill w L)) = price (hd L)"
  by (cases L) auto

section \<open>Properties\<close>


text \<open>
  C32: \<open>cost_to_trade\<close> fills greedily and invents no depth.  On every reachable array book a positive request
  is filled from the touch outwards, taking whole levels and at most a part of the last, until it is
  filled or the side is exhausted, which is reported; the rest of the result is computed from exactly
  those fills, and an overflowing notional is reported instead of wrapped.
\<close>

theorem cost_to_trade_exact:
  assumes "book_run (array_impl kDefaultSlots) ops (l2_book_new (array_impl kDefaultSlots) spec) = Some b"
    and "\<forall>op \<in> set ops. book_op_ok op" and "units w \<le> i64_max"
  shows "cost_to_trade (array_impl kDefaultSlots) b s w =
      cost_spec s (units w) (si_levels (array_impl kDefaultSlots) (book_side_of s b)) \<and>
    (exec_ok (cost_to_trade (array_impl kDefaultSlots) b s w) \<longrightarrow>
       units (ex_qty (cost_to_trade (array_impl kDefaultSlots) b s w)) =
         min (units w) (volume_of (si_levels (array_impl kDefaultSlots) (book_side_of s b))))"
proof -
  note r = reached_levels [OF assms(1,2), of s]
  have e: "cost_to_trade (array_impl kDefaultSlots) b s w =
      cost_spec s (units w) (si_levels (array_impl kDefaultSlots) (book_side_of s b))"
    by (rule cost_to_trade_levels [OF refl r(2,1) assms(3)])
  then show ?thesis
    using fill_volume [OF r(1), of "units w"]
    by (auto simp: cost_spec_def filled_def execution0_def exec_ok_def Let_def)
qed

text \<open>
  The average price never flatters the taker.  For every answered \<open>cost_to_trade\<close> on a reachable array
  book, a buyer's average times the size covers the true cost with an excess below one tick per unit, a
  seller's does not exceed the true proceeds, and the average lies between the touch and the worst price.
\<close>

theorem vwap_never_flatters:
  assumes "book_run (array_impl kDefaultSlots) ops (l2_book_new (array_impl kDefaultSlots) spec) = Some b"
    and "\<forall>op \<in> set ops. book_op_ok op" and "units w \<le> i64_max"
    and e: "e = cost_to_trade (array_impl kDefaultSlots) b s w" and "exec_ok e"
    and n: "n = notional_of (fill (units w) (si_levels (array_impl kDefaultSlots) (book_side_of s b)))"
    and t: "book_best (array_impl kDefaultSlots) s b = Some t"
  shows "0 < units (ex_qty e) \<and>
    (if s = Ask
     then n \<le> ticks (ex_vwap e) * units (ex_qty e) \<and> ticks (ex_vwap e) * units (ex_qty e) < n + units (ex_qty e) \<and>
       price t \<le> ex_vwap e \<and> ex_vwap e \<le> ex_limit_price e
     else ticks (ex_vwap e) * units (ex_qty e) \<le> n \<and> n - units (ex_qty e) < ticks (ex_vwap e) * units (ex_qty e) \<and>
       ex_limit_price e \<le> ex_vwap e \<and> ex_vwap e \<le> price t)"
proof -
  define L where "L = si_levels (array_impl kDefaultSlots) (book_side_of s b)"
  define F where "F = fill (units w) L"
  note r = reached_levels [OF assms(1,2), of s, folded L_def]
  have e: "e = cost_spec s (units w) L"
    unfolding e by (rule cost_to_trade_levels [OF L_def [symmetric] r(2,1) assms(3)])
  then have w: "0 < units w" "L \<noteq> []" and ef: "e = filled s (ticks (price (hd L))) (notional_of F) (volume_of F)
      (price (last F)) (length F) (volume_of F < units w)"
    using \<open>exec_ok e\<close> by (auto simp: cost_spec_def exec_ok_def execution0_def F_def Let_def split: if_splits)
  have F: "levels_ok F" "F \<noteq> []" "price (hd F) = price (hd L)"
    using fill_ok [OF r(1) w(1) assms(3)] fill_head [OF w(2)] by (simp_all add: F_def)
  have v: "0 < volume_of F" by (rule volume_pos [OF F(1,2)])
  have srt: "sorted_wrt (\<lambda>x y. precedes s (ticks (price x)) (ticks (price y))) F"
    using fill_sorted [OF r(3)] by (simp add: F_def)
  have tt: "price t = price (hd F)" using t r(2) w(2) F(3) by (cases L) auto
  note vb = taker_vwap_bounds [OF v, of "notional_of F"]
  have nF: "n = notional_of F" by (simp add: n F_def L_def)
  show ?thesis
  proof (cases s)
    case Ask
    have "ticks (price (hd F)) * volume_of F \<le> notional_of F \<and> notional_of F \<le> ticks (price (last F)) * volume_of F"
      by (rule notional_bounds [OF F(1)]) (use between_ends(1) [OF srt] Ask in blast)
    then show ?thesis
      using Ask vb v taker_vwap_between [OF v, of "ticks (price (hd F))" "notional_of F" "ticks (price (last F))" Ask]
      by (simp add: ef filled_def nF tt less_eq_price_def)
  next
    case Bid
    have "ticks (price (last F)) * volume_of F \<le> notional_of F \<and> notional_of F \<le> ticks (price (hd F)) * volume_of F"
      by (rule notional_bounds [OF F(1)]) (use between_ends(2) [OF srt] Bid in blast)
    then show ?thesis
      using Bid vb v taker_vwap_between [OF v, of "ticks (price (last F))" "notional_of F" "ticks (price (hd F))" Bid]
      by (simp add: ef filled_def nF tt less_eq_price_def)
  qed
qed

text \<open>
  The two walks agree.  On every reachable array book, asking for the cost of exactly the size that
  \<open>executable_size\<close> found returns the same size, average, worst price, number of levels and slippage; only
  the exhaustion flag is cleared.
\<close>

theorem size_and_cost_agree:
  assumes "book_run (array_impl kDefaultSlots) ops (l2_book_new (array_impl kDefaultSlots) spec) = Some b"
    and "\<forall>op \<in> set ops. book_op_ok op" and "slippage \<le> i64_max"
    and "exec_ok (executable_size (array_impl kDefaultSlots) b s slippage)"
  shows "cost_to_trade (array_impl kDefaultSlots) b s (ex_qty (executable_size (array_impl kDefaultSlots) b s slippage)) =
    (executable_size (array_impl kDefaultSlots) b s slippage)\<lparr>ex_depth_exhausted := False\<rparr>"
proof -
  define L where "L = si_levels (array_impl kDefaultSlots) (book_side_of s b)"
  define P where "P = takeWhile (in_limit s (limit_of (ticks (price (hd L))) s slippage)) L"
  note r = reached_levels [OF assms(1,2), of s, folded L_def]
  have e: "executable_size (array_impl kDefaultSlots) b s slippage = size_spec s slippage L"
    by (rule executable_size_levels [OF L_def [symmetric] r(2,1) assms(3)])
  then have sl: "0 \<le> slippage" "L \<noteq> []" "volume_of P \<le> i64_max" "notional_of P \<le> i64_max"
    and ef: "size_spec s slippage L = filled s (ticks (price (hd L))) (notional_of P) (volume_of P)
      (price (last P)) (length P) (P = L)"
    using assms(4) by (auto simp: size_spec_def exec_ok_def execution0_def P_def Let_def split: if_splits)
  have P: "levels_ok P" unfolding P_def by (rule levels_ok_takeWhile [OF r(1)])
  have "in_limit s (limit_of (ticks (price (hd L))) s slippage) (hd L)"
    using touch_in_limit [of "hd L" "tl L"] r(1) sl by simp
  then have ne: "P \<noteq> []" using sl(2) by (cases L) (simp_all add: P_def)
  have split: "L = P @ dropWhile (in_limit s (limit_of (ticks (price (hd L))) s slippage)) L"
    by (simp add: P_def)
  have f: "fill (volume_of P) L = P"
    using fill_prefix [of P] r(1) ne split by metis
  have "cost_to_trade (array_impl kDefaultSlots) b s (Qty (volume_of P)) = cost_spec s (volume_of P) L"
    using cost_to_trade_levels [OF L_def [symmetric] r(2,1), of "Qty (volume_of P)"] sl(3) by simp
  also have "\<dots> = (filled s (ticks (price (hd L))) (notional_of P) (volume_of P)
      (price (last P)) (length P) (P = L))\<lparr>ex_depth_exhausted := False\<rparr>"
    using volume_pos [OF P ne] sl f by (simp add: cost_spec_def filled_def Let_def)
  finally show ?thesis using e ef by (simp add: filled_def)
qed

section \<open>Concrete walks\<close>

definition depth_ops :: "book_op list" where
  "depth_ops = [Book_apply Ask (Price 100001) (Qty 3), Book_apply Ask (Price 100000) (Qty 2),
     Book_apply Bid (Price 99999) (Qty 4), Book_apply Ask (Price 100005) (Qty 5)]"

lemma depth_ops_ok: "\<forall>op \<in> set depth_ops. book_op_ok op"
  by (simp add: depth_ops_def int_limits)

lemma depth_run:
  "\<exists>b. book_run (array_impl kDefaultSlots) depth_ops (l2_book_new (array_impl kDefaultSlots) sample_spec) = Some b \<and>
     si_levels (array_impl kDefaultSlots) (book_side_of Ask b) =
       [Level (Price 100000) (Qty 2), Level (Price 100001) (Qty 3), Level (Price 100005) (Qty 5)] \<and>
     book_best (array_impl kDefaultSlots) Ask b = Some (Level (Price 100000) (Qty 2))"
proof -
  have "int kDefaultSlots \<le> i64_max" by (simp add: kDefaultSlots_def int_limits)
  then obtain b where b: "book_run (array_impl kDefaultSlots) depth_ops (l2_book_new (array_impl kDefaultSlots) sample_spec) = Some b"
      "book_rep array_holds b (fold l2_step depth_ops (\<lambda>s. []))"
    using array_run [OF _ depth_ops_ok] by blast
  have "depth (fold l2_step depth_ops (\<lambda>s. [])) Ask =
      [Level (Price 100000) (Qty 2), Level (Price 100001) (Qty 3), Level (Price 100005) (Qty 5)]"
    by (simp add: depth_ops_def depth_def content_levels_def book_order_def l2_apply_def contents_apply_def
        amap_set_def level_of_def)
  then show ?thesis using b(1) array_side.rep_levels [OF b(2)] array_side.rep_best [OF b(2)] by auto
qed


lemma cost_to_trade_exact_witness:
  "\<exists>b. book_run (array_impl kDefaultSlots) depth_ops (l2_book_new (array_impl kDefaultSlots) sample_spec) = Some b \<and>
     ex_qty (cost_to_trade (array_impl kDefaultSlots) b Ask (Qty 4)) = Qty 4 \<and>
     ex_vwap (cost_to_trade (array_impl kDefaultSlots) b Ask (Qty 4)) = Price 100001"
proof -
  obtain b where b: "book_run (array_impl kDefaultSlots) depth_ops (l2_book_new (array_impl kDefaultSlots) sample_spec) = Some b"
     "si_levels (array_impl kDefaultSlots) (book_side_of Ask b) =
       [Level (Price 100000) (Qty 2), Level (Price 100001) (Qty 3), Level (Price 100005) (Qty 5)]"
    using depth_run by blast
  have "cost_to_trade (array_impl kDefaultSlots) b Ask (Qty 4) =
      cost_spec Ask 4 [Level (Price 100000) (Qty 2), Level (Price 100001) (Qty 3), Level (Price 100005) (Qty 5)]"
    using cost_to_trade_exact [OF b(1) depth_ops_ok, of "Qty 4" Ask] b(2) by (simp add: int_limits)
  then show ?thesis
    using b(1) by (auto simp: cost_spec_def filled_def taker_vwap_def int_limits)
qed

lemma vwap_never_flatters_witness:
  "\<exists>b. book_run (array_impl kDefaultSlots) depth_ops (l2_book_new (array_impl kDefaultSlots) sample_spec) = Some b \<and>
     400002 \<le> ticks (ex_vwap (cost_to_trade (array_impl kDefaultSlots) b Ask (Qty 4))) *
       units (ex_qty (cost_to_trade (array_impl kDefaultSlots) b Ask (Qty 4)))"
proof -
  obtain b where b: "book_run (array_impl kDefaultSlots) depth_ops (l2_book_new (array_impl kDefaultSlots) sample_spec) = Some b"
     "si_levels (array_impl kDefaultSlots) (book_side_of Ask b) =
       [Level (Price 100000) (Qty 2), Level (Price 100001) (Qty 3), Level (Price 100005) (Qty 5)]"
     "book_best (array_impl kDefaultSlots) Ask b = Some (Level (Price 100000) (Qty 2))"
    using depth_run by blast
  have m: "units (Qty 4) \<le> i64_max" by (simp add: int_limits)
  note r = reached_levels [OF b(1) depth_ops_ok, of Ask]
  have "exec_ok (cost_to_trade (array_impl kDefaultSlots) b Ask (Qty 4))"
    using cost_to_trade_levels [OF refl r(2,1) m]
    by (simp add: b(2) cost_spec_def filled_def exec_ok_def int_limits)
  from vwap_never_flatters [OF b(1) depth_ops_ok m refl this refl b(3)] show ?thesis
    using b(1,2) by (auto simp: notional_of_def)
qed

lemma size_and_cost_agree_witness:
  "\<exists>b. book_run (array_impl kDefaultSlots) depth_ops (l2_book_new (array_impl kDefaultSlots) sample_spec) = Some b \<and>
     cost_to_trade (array_impl kDefaultSlots) b Ask (ex_qty (executable_size (array_impl kDefaultSlots) b Ask 20)) =
       (executable_size (array_impl kDefaultSlots) b Ask 20)\<lparr>ex_depth_exhausted := False\<rparr>"
proof -
  obtain b where b: "book_run (array_impl kDefaultSlots) depth_ops (l2_book_new (array_impl kDefaultSlots) sample_spec) = Some b"
     "si_levels (array_impl kDefaultSlots) (book_side_of Ask b) =
       [Level (Price 100000) (Qty 2), Level (Price 100001) (Qty 3), Level (Price 100005) (Qty 5)]"
    using depth_run by blast
  have m: "(20 :: int) \<le> i64_max" by (simp add: int_limits)
  note r = reached_levels [OF b(1) depth_ops_ok, of Ask]
  have "exec_ok (executable_size (array_impl kDefaultSlots) b Ask 20)"
    using executable_size_levels [OF refl r(2,1) m]
    by (simp add: b(2) size_spec_def limit_of_def in_limit_def filled_def exec_ok_def int_limits)
  from size_and_cost_agree [OF b(1) depth_ops_ok m this] b(1) show ?thesis by blast
qed

end
