(* ===== verification/Ws_Frame.thy ===== *)
theory Ws_Frame
  imports Crc
begin

text \<open>
  The frame codec of \<open>include/crossbook/net/ws_frame.hpp\<close> (RFC 6455): opcodes, the header parser, the
  payload mask and the header writer.  A buffer is a list of bytes; the parser looks at it only as far as
  its length allows, as the code does.  The mask key is the little-endian word of its four wire bytes,
  which is what \<open>memcpy\<close> makes of them on the platforms the library supports.
\<close>

section \<open>Opcodes\<close>

datatype opcode = OpContinuation | OpText | OpBinary | OpClose | OpPing | OpPong

definition opcode_value :: "opcode \<Rightarrow> u8" where
  "opcode_value op =
     (case op of OpContinuation \<Rightarrow> 0x0 | OpText \<Rightarrow> 0x1 | OpBinary \<Rightarrow> 0x2 | OpClose \<Rightarrow> 0x8 | OpPing \<Rightarrow> 0x9 | OpPong \<Rightarrow> 0xA)"

definition opcode_of :: "u8 \<Rightarrow> opcode" where
  "opcode_of raw =
     (if raw = 0x0 then OpContinuation else if raw = 0x1 then OpText else if raw = 0x2 then OpBinary
      else if raw = 0x8 then OpClose else if raw = 0x9 then OpPing else OpPong)"

definition opcode_string :: "opcode \<Rightarrow> string" where
  "opcode_string op =
     (case op of OpContinuation \<Rightarrow> ''continuation'' | OpText \<Rightarrow> ''text'' | OpBinary \<Rightarrow> ''binary''
      | OpClose \<Rightarrow> ''close'' | OpPing \<Rightarrow> ''ping'' | OpPong \<Rightarrow> ''pong'')"

definition is_control :: "opcode \<Rightarrow> bool" where
  "is_control op \<longleftrightarrow> and (opcode_value op) 0x08 \<noteq> 0"

definition is_known_opcode :: "u8 \<Rightarrow> bool" where
  "is_known_opcode raw \<longleftrightarrow> raw = 0x0 \<or> raw = 0x1 \<or> raw = 0x2 \<or> raw = 0x8 \<or> raw = 0x9 \<or> raw = 0xA"

definition kMaxControlPayload :: nat where "kMaxControlPayload = 125"
definition kMaxHeaderSize :: nat where "kMaxHeaderSize = 14"

section \<open>The header parser\<close>

record frame_header =
  fh_opcode :: opcode
  fh_payload_len :: u64
  fh_mask_key :: u32
  fh_header_size :: nat
  fh_fin :: bool
  fh_masked :: bool

datatype frame_status = FrameOk frame_header | FrameIncomplete | FrameProtocolError

text \<open>The length field: what is known of it, and where the header goes on.\<close>

datatype len_field = LenOk u64 nat | LenIncomplete | LenBad

definition be_bytes :: "u8 list \<Rightarrow> u64" where
  "be_bytes bs = fold (\<lambda>b len. or (push_bit 8 len) (ucast b)) bs 0"

definition parse_length :: "u8 list \<Rightarrow> len_field" where
  "parse_length buf =
     (let short_len = and (buf ! 1) 0x7F; pos = 2 in
      if short_len < 126 then LenOk (ucast short_len) pos
      else if short_len = 126 then
        (if length buf < pos + 2 then LenIncomplete
         else
           (let len = or (push_bit 8 (ucast (buf ! pos))) (ucast (buf ! (pos + 1)))
            in if len < 126 then LenBad else LenOk len (pos + 2)))
      else
        (if length buf < pos + 8 then LenIncomplete
         else
           (let len = be_bytes (take 8 (drop pos buf))
            in if and len 0x8000000000000000 \<noteq> 0 then LenBad
               else if len < 65536 then LenBad
               else LenOk len (pos + 8))))"

definition parse_frame_header :: "u8 list \<Rightarrow> frame_status" where
  "parse_frame_header buf =
     (if length buf < 2 then FrameIncomplete
      else
        (let b0 = buf ! 0; b1 = buf ! 1; raw_opcode = and b0 0x0F in
         if and b0 0x70 \<noteq> 0 then FrameProtocolError
         else if \<not> is_known_opcode raw_opcode then FrameProtocolError
         else
           (let fin = (and b0 0x80 \<noteq> 0); op = opcode_of raw_opcode; masked = (and b1 0x80 \<noteq> 0) in
            case parse_length buf of
              LenIncomplete \<Rightarrow> FrameIncomplete
            | LenBad \<Rightarrow> FrameProtocolError
            | LenOk len pos \<Rightarrow>
                if is_control op \<and> (\<not> fin \<or> unat len > kMaxControlPayload) then FrameProtocolError
                else if masked then
                  (if length buf < pos + 4 then FrameIncomplete
                   else FrameOk \<lparr>fh_opcode = op, fh_payload_len = len,
                     fh_mask_key = load_le32 (buf ! pos) (buf ! (pos + 1)) (buf ! (pos + 2)) (buf ! (pos + 3)),
                     fh_header_size = pos + 4, fh_fin = fin, fh_masked = True\<rparr>)
                else FrameOk \<lparr>fh_opcode = op, fh_payload_len = len, fh_mask_key = 0,
                     fh_header_size = pos, fh_fin = fin, fh_masked = False\<rparr>)))"

section \<open>Masking and writing\<close>

definition key_byte :: "u32 \<Rightarrow> nat \<Rightarrow> u8" where
  "key_byte key i = ucast (drop_bit (8 * i) key)"

definition apply_mask :: "u8 list \<Rightarrow> u32 \<Rightarrow> nat \<Rightarrow> u8 list" where
  "apply_mask data key off =
     (if key = 0 then data
      else map (\<lambda>i. xor (data ! i) (key_byte key (and (i + off) 3))) [0..<length data])"

definition write_length :: "u64 \<Rightarrow> u8 list" where
  "write_length len =
     (if len < 126 then [or 0x80 (ucast len)]
      else if len \<le> 0xFFFF then [or 0x80 126, ucast (drop_bit 8 len), ucast len]
      else or 0x80 127 # map (\<lambda>k. ucast (drop_bit k len)) [56, 48, 40, 32, 24, 16, 8, 0])"

definition write_frame_header :: "opcode \<Rightarrow> u64 \<Rightarrow> u32 \<Rightarrow> bool \<Rightarrow> u8 list" where
  "write_frame_header op len key fin =
     (or (if fin then 0x80 else 0) (opcode_value op)) # write_length len @ map (key_byte key) [0..<4]"

section \<open>Bits and bytes\<close>

lemma bit_beyond: "8 \<le> n \<Longrightarrow> bit (w :: u8) n = False"
  by (auto dest: bit_imp_le_length)

lemma opcode_roundtrip [simp]:
  "opcode_of (opcode_value op) = op" "is_known_opcode (opcode_value op)"
  by (cases op; simp add: opcode_of_def opcode_value_def is_known_opcode_def)+

lemma opcode_value_of: "is_known_opcode raw \<Longrightarrow> opcode_value (opcode_of raw) = raw"
  by (auto simp: opcode_of_def opcode_value_def is_known_opcode_def)

lemma is_control_iff: "is_control op \<longleftrightarrow> op \<in> {OpClose, OpPing, OpPong}"
  by (cases op) (simp_all add: is_control_def opcode_value_def)

lemma first_byte:
  "and (or (if fin then 0x80 else 0) (opcode_value op)) 0x70 = 0"
  "and (or (if fin then 0x80 else 0) (opcode_value op)) 0x0F = opcode_value op"
  "and (or (if fin then 0x80 else 0) (opcode_value op)) 0x80 \<noteq> 0 \<longleftrightarrow> fin"
  by (cases op; cases fin; simp add: opcode_value_def)+

lemma load_key: "load_le32 (key_byte k 0) (key_byte k 1) (key_byte k 2) (key_byte k 3) = k"
proof (rule bit_word_eqI)
  fix n assume "n < LENGTH(32)"
  then consider "n < 8" | "8 \<le> n" "n < 16" | "16 \<le> n" "n < 24" | "24 \<le> n" "n < 32" by fastforce
  then show "bit (load_le32 (key_byte k 0) (key_byte k 1) (key_byte k 2) (key_byte k 3)) n = bit k n"
    unfolding load_le32_def key_byte_def by cases (simp_all add: bit_simps less_diff_conv2)
qed

lemma be_step:
  "or (push_bit 8 (drop_bit (s + 8) x)) (ucast (ucast (drop_bit s x) :: u8)) = drop_bit s (x :: u64)"
  by (rule bit_word_eqI) (auto simp: bit_simps add.commute)

lemma byte_of_small: "ucast (ucast (x :: u64) :: u8) = take_bit 8 x"
  by (rule bit_word_eqI) (auto simp: bit_simps)

lemma two_bytes: "or (push_bit 8 (ucast (ucast (drop_bit 8 x) :: u8))) (ucast (ucast x :: u8)) = take_bit 16 (x :: u64)"
  by (rule bit_word_eqI) (auto simp: bit_simps)

lemma take_bit_self: "take_bit n (x :: u64) = x \<longleftrightarrow> unat x < 2 ^ n"
  by (metis take_bit_nat_eq_self_iff unsigned_take_bit_eq unsigned_word_eqI)

lemma short_byte:
  assumes "(x :: u64) < 128"
  shows "and (or 0x80 (ucast x :: u8)) 0x7F = ucast x"
proof -
  have "take_bit 7 x = x" using assms by (simp add: take_bit_self word_less_nat_alt)
  then have z: "\<not> bit x n" if "7 \<le> n" for n using that by (metis bit_take_bit_iff not_le)
  have "bit (0x80 :: u8) n = (n = 7)" "bit (0x7F :: u8) n = (n < 7)" if "n < 8" for n
  proof -
    have "(0x80 :: u8) = push_bit 7 1" "(0x7F :: u8) = mask 7" by (simp_all add: mask_eq_exp_minus_1)
    then show "bit (0x80 :: u8) n = (n = 7)" "bit (0x7F :: u8) n = (n < 7)"
      using that by (simp_all only: bit_push_bit_iff bit_mask_iff bit_1_iff) auto
  qed
  moreover have "bit x n \<Longrightarrow> n < 7" for n using z [of n] by (cases "n < 7") auto
  ultimately show ?thesis
    by (intro bit_word_eqI) (auto simp: bit_and_iff bit_or_iff bit_ucast_iff)
qed

lemma be_bytes_all:
  "be_bytes (map (\<lambda>k. ucast (drop_bit k x)) [56, 48, 40, 32, 24, 16, 8, 0]) = x"
proof -
  have top: "ucast (ucast (drop_bit 56 x) :: u8) = drop_bit 56 x"
    by (rule bit_word_eqI) (auto simp: bit_simps dest: bit_imp_le_length)
  show ?thesis
    using be_step [of 48 x] be_step [of 40 x] be_step [of 32 x] be_step [of 24 x] be_step [of 16 x]
      be_step [of 8 x] be_step [of 0 x]
    by (simp add: be_bytes_def top)
qed

lemma top_bit: "and (x :: u64) 0x8000000000000000 \<noteq> 0 \<longleftrightarrow> bit x 63"
  using and_exp_eq_0_iff_not_bit [of x 63] by simp

lemma top_bit_less: "(x :: u64) < 0x8000000000000000 \<longleftrightarrow> \<not> bit x 63"
proof -
  have "x < 0x8000000000000000 \<longleftrightarrow> take_bit 63 x = x" by (simp add: take_bit_self word_less_nat_alt)
  also have "\<dots> \<longleftrightarrow> \<not> bit x 63"
  proof
    assume "take_bit 63 x = x"
    then show "\<not> bit x 63" by (metis bit_take_bit_iff less_irrefl)
  next
    assume b: "\<not> bit x 63"
    show "take_bit 63 x = x"
    proof (rule bit_word_eqI)
      fix n assume "n < LENGTH(64)"
      then have "n < 63 \<or> n = 63" by auto
      then show "bit (take_bit 63 x) n = bit x n" using b by (auto simp: bit_take_bit_iff)
    qed
  qed
  finally show ?thesis .
qed

section \<open>The writer and the parser\<close>

lemma parse_write_length:
  assumes "len < 0x8000000000000000"
  shows "parse_length (b0 # write_length len @ rest) = LenOk len (1 + length (write_length len))"
proof -
  consider "len < 126" | "126 \<le> len" "len \<le> 0xFFFF" | "0xFFFF < len" by fastforce
  then show ?thesis
  proof cases
    case 1
    then have l: "len < 128" by (rule less_trans) simp
    have u: "unat len < 126" using 1 by (simp add: word_less_nat_alt)
    then have "take_bit 8 len = len" by (simp add: take_bit_self)
    moreover have "(ucast len :: u8) < 126"
    proof -
      have "take_bit 8 (unat len) = unat len" using u by (simp add: take_bit_nat_eq_self_iff)
      then have "unat (ucast len :: u8) < 126" using u by (simp add: unsigned_ucast_eq)
      then show ?thesis by (simp add: word_less_nat_alt)
    qed
    ultimately show ?thesis
      using 1 short_byte [OF l] byte_of_small [of len] by (simp add: parse_length_def write_length_def)
  next
    case 2
    have "take_bit 16 len = len" using 2 by (simp add: take_bit_self word_le_nat_alt)
    moreover have "\<not> len < 126" using 2 by (simp add: not_less)
    ultimately show ?thesis
      using 2 two_bytes [of len] by (simp add: parse_length_def write_length_def)
  next
    case 3
    then have n: "\<not> len < 126" "\<not> len \<le> 0xFFFF" "\<not> len < 65536"
      by (simp_all add: word_le_nat_alt word_less_nat_alt)
    have "\<not> bit len 63" using assms by (simp add: top_bit_less)
    then have "and len 0x8000000000000000 = 0" using top_bit by blast
    then show ?thesis
      using n be_bytes_all [of len] by (simp add: parse_length_def write_length_def)
  qed
qed

lemma second_byte_masked: "\<exists>x xs. write_length len = x # xs \<and> and x 0x80 \<noteq> 0"
proof -
  have "and (or 0x80 y) 0x80 \<noteq> (0 :: u8)" for y :: u8
  proof -
    have "bit (and (or 0x80 y) 0x80) 7" by (simp add: bit_and_iff bit_or_iff)
    then show ?thesis by (metis bit_0_eq bot_apply bot_bool_def)
  qed
  then show ?thesis by (auto simp: write_length_def)
qed

lemma write_length_size: "length (write_length len) \<in> {1, 3, 9}"
  by (simp add: write_length_def)

lemma key_bytes [simp]: "map (key_byte key) [0..<4] = [key_byte key 0, key_byte key 1, key_byte key 2, key_byte key 3]"
  by (simp add: upt_rec numeral_2_eq_2 numeral_3_eq_3)

section \<open>The parser reads a prefix\<close>

lemma parse_length_pos: "parse_length buf = LenOk len pos \<Longrightarrow> 2 \<le> length buf \<Longrightarrow> 2 \<le> pos \<and> pos \<le> 10 \<and> pos \<le> length buf"
  by (auto simp: parse_length_def Let_def split: if_splits)

lemma parse_length_more:
  "2 \<le> length buf \<Longrightarrow> parse_length buf \<noteq> LenIncomplete \<Longrightarrow> parse_length (buf @ suf) = parse_length buf"
  by (auto simp: parse_length_def Let_def nth_append split: if_splits)

lemma parse_length_less:
  assumes "parse_length buf = LenOk len pos" "2 \<le> n" "n < pos"
  shows "parse_length (take n buf) = LenIncomplete"
  using assms by (auto simp: parse_length_def Let_def split: if_splits)

lemma parse_length_take:
  assumes "parse_length buf = LenOk len pos" "pos \<le> n" "2 \<le> length buf"
  shows "parse_length (take n buf) = LenOk len pos"
proof -
  note p = parse_length_pos [OF assms(1,3)]
  have "take 8 (drop 2 (take n buf)) = take 8 (drop 2 buf)" if "10 \<le> n"
    using that by (simp add: drop_take take_take min_def)
  then show ?thesis
    using assms p by (auto simp: parse_length_def Let_def min_def split: if_splits)
qed

lemma parse_header_more:
  assumes "parse_frame_header buf \<noteq> FrameIncomplete"
  shows "parse_frame_header (buf @ suf) = parse_frame_header buf"
proof -
  have l: "2 \<le> length buf" using assms by (auto simp: parse_frame_header_def split: if_splits)
  then have b: "(buf @ suf) ! 0 = buf ! 0" "(buf @ suf) ! 1 = buf ! 1" by (auto simp: nth_append)
  have bad: "and (buf ! 0) 0x70 \<noteq> 0 \<or> \<not> is_known_opcode (and (buf ! 0) 0x0F) \<or> parse_length buf \<noteq> LenIncomplete"
    using assms l by (auto simp: parse_frame_header_def Let_def)
  show ?thesis
  proof (cases "parse_length buf")
    case (LenOk len pos)
    then have "parse_length (buf @ suf) = LenOk len pos" using parse_length_more [OF l] by simp
    moreover have "pos \<le> length buf" using parse_length_pos [OF LenOk l] by simp
    ultimately show ?thesis
      using assms l LenOk unfolding parse_frame_header_def b Let_def
      by (auto simp: nth_append split: if_splits)
  next
    case LenIncomplete
    then show ?thesis using bad l unfolding parse_frame_header_def b Let_def by auto
  next
    case LenBad
    then have "parse_length (buf @ suf) = LenBad" using parse_length_more [OF l] by simp
    then show ?thesis using LenBad l unfolding parse_frame_header_def b Let_def by auto
  qed
qed

lemma parse_header_Ok:
  assumes "parse_frame_header buf = FrameOk h"
  obtains pos where "2 \<le> length buf" "and (buf ! 0) 0x70 = 0" "is_known_opcode (and (buf ! 0) 0x0F)"
    "parse_length buf = LenOk (fh_payload_len h) pos" "fh_opcode h = opcode_of (and (buf ! 0) 0x0F)"
    "fh_fin h \<longleftrightarrow> and (buf ! 0) 0x80 \<noteq> 0" "fh_masked h \<longleftrightarrow> and (buf ! 1) 0x80 \<noteq> 0"
    "is_control (fh_opcode h) \<longrightarrow> fh_fin h \<and> unat (fh_payload_len h) \<le> kMaxControlPayload"
    "fh_header_size h = (if fh_masked h then pos + 4 else pos)" "fh_header_size h \<le> length buf"
    "fh_mask_key h = (if fh_masked h
       then load_le32 (buf ! pos) (buf ! (pos + 1)) (buf ! (pos + 2)) (buf ! (pos + 3)) else 0)"
proof -
  have l: "2 \<le> length buf" using assms by (auto simp: parse_frame_header_def split: if_splits)
  obtain len pos where lo: "parse_length buf = LenOk len pos"
    using assms by (auto simp: parse_frame_header_def Let_def split: if_splits len_field.splits)
  note p = parse_length_pos [OF lo l]
  show thesis
    by (rule that [of pos])
      (use assms l lo p in \<open>auto simp: parse_frame_header_def Let_def split: if_splits\<close>)
qed

lemma header_size_bounds:
  assumes "parse_frame_header buf = FrameOk h"
  shows "2 \<le> fh_header_size h" "fh_header_size h \<le> length buf" "fh_header_size h \<le> kMaxHeaderSize"
proof -
  from assms obtain pos where "2 \<le> length buf" "parse_length buf = LenOk (fh_payload_len h) pos"
    "fh_header_size h = (if fh_masked h then pos + 4 else pos)" "fh_header_size h \<le> length buf"
    by (rule parse_header_Ok)
  then show "2 \<le> fh_header_size h" "fh_header_size h \<le> length buf" "fh_header_size h \<le> kMaxHeaderSize"
    using parse_length_pos [of buf "fh_payload_len h" pos] by (auto simp: kMaxHeaderSize_def)
qed

lemma parse_header_truncated:
  assumes ok: "parse_frame_header buf = FrameOk h" and n: "n < fh_header_size h"
  shows "parse_frame_header (take n buf) = FrameIncomplete"
proof (cases "n < 2")
  case True
  then have "length (take n buf) < 2" by simp
  then show ?thesis unfolding parse_frame_header_def by (simp only: if_True)
next
  case False
  from ok obtain pos where p: "2 \<le> length buf" "and (buf ! 0) 0x70 = 0" "is_known_opcode (and (buf ! 0) 0x0F)"
    "parse_length buf = LenOk (fh_payload_len h) pos" "fh_opcode h = opcode_of (and (buf ! 0) 0x0F)"
    "fh_fin h \<longleftrightarrow> and (buf ! 0) 0x80 \<noteq> 0" "fh_masked h \<longleftrightarrow> and (buf ! 1) 0x80 \<noteq> 0"
    "is_control (fh_opcode h) \<longrightarrow> fh_fin h \<and> unat (fh_payload_len h) \<le> kMaxControlPayload"
    "fh_header_size h = (if fh_masked h then pos + 4 else pos)" "fh_header_size h \<le> length buf"
    "fh_mask_key h = (if fh_masked h
       then load_le32 (buf ! pos) (buf ! (pos + 1)) (buf ! (pos + 2)) (buf ! (pos + 3)) else 0)"
    by (rule parse_header_Ok)
  have l: "length (take n buf) = n" using n p(10) by simp
  have b: "take n buf ! 0 = buf ! 0" "take n buf ! 1 = buf ! 1" using False by simp_all
  show ?thesis
  proof (cases "n < pos")
    case True
    then have "parse_length (take n buf) = LenIncomplete" using parse_length_less [OF p(4)] False by simp
    then show ?thesis using False p l unfolding parse_frame_header_def b Let_def by simp
  next
    case ge: False
    then have "parse_length (take n buf) = LenOk (fh_payload_len h) pos"
      using parse_length_take [OF p(4) _ p(1)] by simp
    moreover have "fh_masked h" using ge n p(9) by (auto split: if_splits)
    moreover have "n < pos + 4" using n p(9) by (auto split: if_splits)
    ultimately show ?thesis using False p l unfolding parse_frame_header_def b Let_def by auto
  qed
qed

section \<open>One spelling\<close>

lemma be_byte:
  fixes a b c d e f g h :: u8
  defines "x \<equiv> be_bytes [a, b, c, d, e, f, g, h]"
  shows "ucast (drop_bit 56 x) = a" "ucast (drop_bit 48 x) = b" "ucast (drop_bit 40 x) = c" "ucast (drop_bit 32 x) = d"
    "ucast (drop_bit 24 x) = e" "ucast (drop_bit 16 x) = f" "ucast (drop_bit 8 x) = g" "ucast x = h"
proof -
  show "ucast (drop_bit 56 x) = a" "ucast (drop_bit 48 x) = b" "ucast (drop_bit 40 x) = c" "ucast (drop_bit 32 x) = d"
    "ucast (drop_bit 24 x) = e" "ucast (drop_bit 16 x) = f" "ucast (drop_bit 8 x) = g" "ucast x = h"
    unfolding x_def be_bytes_def
    by (auto intro!: bit_word_eqI simp: bit_simps bit_beyond)
qed

text \<open>The header as the bytes it must have been.\<close>

definition length_bytes :: "bool \<Rightarrow> u64 \<Rightarrow> u8 list" where
  "length_bytes masked len =
     (let m = (if masked then 0x80 else 0) in
      if len < 126 then [or m (ucast len)]
      else if len \<le> 0xFFFF then [or m 126, ucast (drop_bit 8 len), ucast len]
      else or m 127 # map (\<lambda>k. ucast (drop_bit k len)) [56, 48, 40, 32, 24, 16, 8, 0])"

definition header_bytes :: "frame_header \<Rightarrow> u8 list" where
  "header_bytes h =
     (or (if fh_fin h then 0x80 else 0) (opcode_value (fh_opcode h))) #
     length_bytes (fh_masked h) (fh_payload_len h) @
     (if fh_masked h then map (key_byte (fh_mask_key h)) [0..<4] else [])"

lemma split_byte: "or (if and b 0x80 \<noteq> 0 then 0x80 else 0) (and b 0x7F) = (b :: u8)"
proof (rule bit_word_eqI)
  fix n assume n: "n < LENGTH(8)"
  have c: "bit (0x80 :: u8) n = (n = 7)" "bit (0x7F :: u8) n = (n < 7)"
  proof -
    have "(0x80 :: u8) = push_bit 7 1" "(0x7F :: u8) = mask 7" by (simp_all add: mask_eq_exp_minus_1)
    then show "bit (0x80 :: u8) n = (n = 7)" "bit (0x7F :: u8) n = (n < 7)"
      using n by (simp_all only: bit_push_bit_iff bit_mask_iff bit_1_iff) auto
  qed
  have t: "and b 0x80 \<noteq> 0 \<longleftrightarrow> bit b 7" using and_exp_eq_0_iff_not_bit [of b 7] by simp
  have "n < 7 \<or> n = 7" using n by auto
  then show "bit (or (if and b 0x80 \<noteq> 0 then 0x80 else 0) (and b 0x7F)) n = bit b n"
    unfolding t using c by (auto simp: bit_or_iff bit_and_iff)
qed

lemma key_byte_load:
  "key_byte (load_le32 a b c d) 0 = a" "key_byte (load_le32 a b c d) 1 = b"
  "key_byte (load_le32 a b c d) 2 = c" "key_byte (load_le32 a b c d) 3 = d"
  unfolding load_le32_def key_byte_def
  by (auto intro!: bit_word_eqI simp: bit_simps bit_beyond)

lemma take_Suc_nth: "n < length xs \<Longrightarrow> take (Suc n) xs = take n xs @ [xs ! n]"
  by (rule take_Suc_conv_app_nth)

lemma parse_length_bytes:
  assumes "parse_length buf = LenOk len pos" "2 \<le> length buf"
  shows "take (pos - 1) (drop 1 buf) = length_bytes (and (buf ! 1) 0x80 \<noteq> 0) len"
proof -
  define s where "s = and (buf ! 1) 0x7F"
  obtain b0 b1 rest where buf: "buf = b0 # b1 # rest"
    using assms(2) by (cases buf; cases "tl buf") auto
  have b1: "or (if and b1 0x80 \<noteq> 0 then 0x80 else 0) s = b1" using split_byte [of b1] by (simp add: s_def buf)
  have sm: "unat s < 128"
  proof -
    have "s = take_bit 7 b1" using take_bit_eq_mask [of 7 b1] by (simp add: s_def buf mask_eq_exp_minus_1)
    then show ?thesis by (simp add: unsigned_take_bit_eq take_bit_nat_def)
  qed
  consider "s < 126" | "s = 126" | "\<not> s < 126" "s \<noteq> 126" by blast
  then show ?thesis
  proof cases
    case 1
    then have "len = ucast s" "pos = 2" using assms(1) by (simp_all add: parse_length_def s_def Let_def)
    moreover have "ucast (ucast s :: u64) = s" by (rule bit_word_eqI) (auto simp: bit_simps)
    moreover have "(ucast s :: u64) < 126" using 1
      by (simp add: word_less_nat_alt unsigned_ucast_eq le_less_trans [OF take_bit_nat_less_eq_self])
    ultimately show ?thesis using b1 by (simp add: length_bytes_def buf Let_def)
  next
    case 2
    then obtain x y r where r: "rest = x # y # r"
      using assms(1) by (cases rest; cases "tl rest") (auto simp: parse_length_def s_def Let_def buf split: if_splits)
    have len: "len = or (push_bit 8 (ucast x)) (ucast y)" "pos = 4" "\<not> len < 126"
      using assms(1) 2 by (auto simp: parse_length_def s_def Let_def buf r split: if_splits)
    have "ucast (drop_bit 8 len) = x" "ucast len = y"
      unfolding len(1) by (auto intro!: bit_word_eqI simp: bit_simps bit_beyond)
    moreover have "len \<le> 0xFFFF"
    proof -
      have "take_bit 16 len = len"
      proof (rule bit_word_eqI)
        fix n
        show "bit (take_bit 16 len) n = bit len n"
          unfolding len(1) by (cases "n < 16") (simp_all add: bit_simps bit_beyond)
      qed
      then show ?thesis by (simp add: take_bit_self word_le_nat_alt)
    qed
    ultimately show ?thesis using b1 2 len(2,3) by (simp add: length_bytes_def buf r Let_def)
  next
    case 3
    have "s = 127" using 3 sm by (auto simp: word_less_nat_alt word_unat_eq_iff)
    have "8 \<le> length rest" using assms(1) 3 by (auto simp: parse_length_def s_def Let_def buf split: if_splits)
    then obtain c1 c2 c3 c4 c5 c6 c7 c8 r where r: "rest = c1 # c2 # c3 # c4 # c5 # c6 # c7 # c8 # r"
      by (auto simp: numeral_eq_Suc Suc_le_length_iff)
    have len: "len = be_bytes [c1, c2, c3, c4, c5, c6, c7, c8]" "pos = 10" "\<not> len < 65536"
      using assms(1) 3 by (auto simp: parse_length_def s_def Let_def buf r split: if_splits)
    have "\<not> len \<le> 0xFFFF" "\<not> len < 126" using len(3) by (auto simp: word_less_nat_alt word_le_nat_alt)
    then show ?thesis
      using b1 \<open>s = 127\<close> len(2) be_byte [of c1 c2 c3 c4 c5 c6 c7 c8]
      by (simp add: length_bytes_def buf r Let_def len(1) [symmetric])
  qed
qed

lemma low_nibble_known:
  assumes "and b 0x70 = (0 :: u8)"
  shows "or (if and b 0x80 \<noteq> 0 then 0x80 else 0) (and b 0x0F) = b"
proof -
  have "and b 0x7F = and b 0x0F"
  proof -
    have "(0x7F :: u8) = or 0x70 0x0F" by simp
    then have "and b 0x7F = or (and b 0x70) (and b 0x0F)" by (metis bit.conj_disj_distrib)
    then show ?thesis using assms by simp
  qed
  then show ?thesis using split_byte [of b] by simp
qed

lemma parse_header_bytes:
  assumes "parse_frame_header buf = FrameOk h"
  shows "take (fh_header_size h) buf = header_bytes h"
proof -
  from assms obtain pos where p: "2 \<le> length buf" "and (buf ! 0) 0x70 = 0" "is_known_opcode (and (buf ! 0) 0x0F)"
    "parse_length buf = LenOk (fh_payload_len h) pos" "fh_opcode h = opcode_of (and (buf ! 0) 0x0F)"
    "fh_fin h \<longleftrightarrow> and (buf ! 0) 0x80 \<noteq> 0" "fh_masked h \<longleftrightarrow> and (buf ! 1) 0x80 \<noteq> 0"
    "is_control (fh_opcode h) \<longrightarrow> fh_fin h \<and> unat (fh_payload_len h) \<le> kMaxControlPayload"
    "fh_header_size h = (if fh_masked h then pos + 4 else pos)" "fh_header_size h \<le> length buf"
    "fh_mask_key h = (if fh_masked h
       then load_le32 (buf ! pos) (buf ! (pos + 1)) (buf ! (pos + 2)) (buf ! (pos + 3)) else 0)"
    by (rule parse_header_Ok)
  note q = parse_length_pos [OF p(4,1)]
  have "buf ! 0 = or (if fh_fin h then 0x80 else 0) (opcode_value (fh_opcode h))"
    using low_nibble_known [OF p(2)] by (simp only: p(5,6) opcode_value_of [OF p(3)])
  moreover have "take pos buf = buf ! 0 # take (pos - 1) (drop 1 buf)"
    using p(1) q by (cases buf; cases pos) auto
  ultimately have t: "take pos buf = or (if fh_fin h then 0x80 else 0) (opcode_value (fh_opcode h)) #
      length_bytes (fh_masked h) (fh_payload_len h)"
    using parse_length_bytes [OF p(4,1)] p(7) by simp
  show ?thesis
  proof (cases "fh_masked h")
    case False
    then show ?thesis using t p(9) by (simp add: header_bytes_def)
  next
    case True
    then have l: "pos + 3 < length buf" using p(9,10) by simp
    have "take (pos + 4) buf = take pos buf @ [buf ! pos, buf ! (pos + 1), buf ! (pos + 2), buf ! (pos + 3)]"
      using l take_Suc_nth [of pos buf] take_Suc_nth [of "pos + 1" buf] take_Suc_nth [of "pos + 2" buf]
        take_Suc_nth [of "pos + 3" buf]
      by (simp add: eval_nat_numeral)
    then show ?thesis using t True p(9,11) by (simp add: header_bytes_def key_byte_load key_byte_load(2) [unfolded One_nat_def])
  qed
qed

lemma write_is_header_bytes:
  "write_frame_header op len key fin =
   header_bytes \<lparr>fh_opcode = op, fh_payload_len = len, fh_mask_key = key, fh_header_size = n, fh_fin = fin, fh_masked = True\<rparr>"
  by (simp add: write_frame_header_def header_bytes_def write_length_def length_bytes_def Let_def)

lemma write_header_size: "length (write_frame_header op len key fin) = 5 + length (write_length len)"
  by (simp add: write_frame_header_def)

text \<open>Used by the reader: the same law for the frames a server sends, which are not masked.\<close>

definition server_header :: "opcode \<Rightarrow> u64 \<Rightarrow> bool \<Rightarrow> u8 list" where
  "server_header op len fin =
     header_bytes \<lparr>fh_opcode = op, fh_payload_len = len, fh_mask_key = 0, fh_header_size = 0, fh_fin = fin, fh_masked = False\<rparr>"

lemma mask_xor_zero: "xor (xor x k) k = (x :: u8)"
  by (simp add: xor.assoc)

lemma mask_length: "length (apply_mask data key off) = length data"
  by (simp add: apply_mask_def)

lemma mask_nth:
  "i < length data \<Longrightarrow> apply_mask data key off ! i = (if key = 0 then data ! i else xor (data ! i) (key_byte key (and (i + off) 3)))"
  by (simp add: apply_mask_def)

lemma mask_involution: "apply_mask (apply_mask data key off) key off = data"
proof (rule nth_equalityI)
  fix i
  assume "i < length (apply_mask (apply_mask data key off) key off)"
  then show "apply_mask (apply_mask data key off) key off ! i = data ! i"
    using mask_xor_zero by (cases "key = 0") (simp_all add: mask_length mask_nth del: xor.assoc xor_self_eq)
qed (simp only: mask_length)

lemma written_header_parses:
  assumes "len < 0x8000000000000000" and "is_control op \<longrightarrow> fin \<and> unat len \<le> kMaxControlPayload"
  shows "parse_frame_header (write_frame_header op len key fin @ rest) =
      FrameOk \<lparr>fh_opcode = op, fh_payload_len = len, fh_mask_key = key,
        fh_header_size = length (write_frame_header op len key fin), fh_fin = fin, fh_masked = True\<rparr> \<and>
    length (write_frame_header op len key fin) \<le> kMaxHeaderSize"
proof -
  define b0 where "b0 = or (if fin then 0x80 else 0) (opcode_value op)"
  define W where "W = write_length len"
  define K where "K = map (key_byte key) [0..<4]"
  define buf where "buf = b0 # W @ K @ rest"
  have w: "write_frame_header op len key fin @ rest = buf"
    by (simp add: buf_def write_frame_header_def b0_def W_def K_def)
  obtain x xs where x: "W = x # xs" "and x 0x80 \<noteq> 0" using second_byte_masked [of len] by (auto simp: W_def)
  have pl: "parse_length buf = LenOk len (1 + length W)"
    using parse_write_length [OF assms(1), of b0 "K @ rest"] by (simp add: buf_def W_def)
  have b: "buf ! 0 = b0" "buf ! 1 = x" "2 \<le> length buf" by (simp_all add: buf_def x)
  have nthb: "buf ! (1 + length W + i) = (K @ rest) ! i" for i
    by (simp add: buf_def nth_append)
  have k: "buf ! (1 + length W) = key_byte key 0" "buf ! (1 + length W + 1) = key_byte key 1"
     "buf ! (1 + length W + 2) = key_byte key 2" "buf ! (1 + length W + 3) = key_byte key 3"
    using nthb [of 0] nthb [of 1] nthb [of 2] nthb [of 3] by (simp_all add: K_def)
  have l: "\<not> length buf < 1 + length W + 4" by (simp add: buf_def K_def)
  have "parse_frame_header buf = FrameOk \<lparr>fh_opcode = op, fh_payload_len = len, fh_mask_key = key,
        fh_header_size = 1 + length W + 4, fh_fin = fin, fh_masked = True\<rparr>"
    using b pl k l x(2) assms(2) first_byte [of fin op, folded b0_def]
    unfolding parse_frame_header_def Let_def by (auto simp: load_key load_key [unfolded One_nat_def])
  then show ?thesis
    using write_length_size [of len] unfolding w by (auto simp: write_header_size W_def kMaxHeaderSize_def)
qed

section \<open>Properties\<close>

text \<open>
  What the client writes, the parser reads.  For every opcode, length below 2^63, key and final flag that
  the protocol allows, the written header, whatever bytes follow it, parses back to the same fields, it is
  masked, its size is what was written, and it is at most \<open>kMaxHeaderSize\<close> bytes long.
\<close>

theorem frame_header_roundtrip:
  assumes "len < 0x8000000000000000" and "is_control op \<longrightarrow> fin \<and> unat len \<le> kMaxControlPayload"
  shows "parse_frame_header (write_frame_header op len key fin @ rest) =
      FrameOk \<lparr>fh_opcode = op, fh_payload_len = len, fh_mask_key = key,
        fh_header_size = length (write_frame_header op len key fin), fh_fin = fin, fh_masked = True\<rparr> \<and>
    length (write_frame_header op len key fin) \<le> kMaxHeaderSize"
  using written_header_parses [OF assms] .

lemma frame_header_roundtrip_witness:
  "parse_frame_header (write_frame_header OpText 300 7 True @ [1, 2]) =
     FrameOk \<lparr>fh_opcode = OpText, fh_payload_len = 300, fh_mask_key = 7, fh_header_size = 8, fh_fin = True, fh_masked = True\<rparr>"
proof -
  have "length (write_frame_header OpText 300 7 True) = 8"
    by (simp add: write_frame_header_def write_length_def)
  then show ?thesis
    using frame_header_roundtrip [of 300 OpText True 7 "[1, 2]"] by (simp add: is_control_iff)
qed

lemma frame_header_canonical_facts:
  assumes "parse_frame_header buf = FrameOk h"
  shows "fh_header_size h \<le> length buf" and "fh_header_size h \<le> kMaxHeaderSize"
    and "n < fh_header_size h \<Longrightarrow> parse_frame_header (take n buf) = FrameIncomplete"
    and "parse_frame_header (buf @ suf) = FrameOk h"
    and "parse_frame_header buf2 = FrameOk h \<Longrightarrow> take (fh_header_size h) buf2 = take (fh_header_size h) buf"
proof -
  show "fh_header_size h \<le> length buf" "fh_header_size h \<le> kMaxHeaderSize"
    using header_size_bounds [OF assms] by auto
  show "n < fh_header_size h \<Longrightarrow> parse_frame_header (take n buf) = FrameIncomplete"
    by (rule parse_header_truncated [OF assms])
  show "parse_frame_header (buf @ suf) = FrameOk h"
    using parse_header_more [of buf suf] assms by simp
  show "parse_frame_header buf2 = FrameOk h \<Longrightarrow> take (fh_header_size h) buf2 = take (fh_header_size h) buf"
    using parse_header_bytes [OF assms] parse_header_bytes [of buf2 h] by simp
qed

text \<open>
  A header has one spelling, and the parser never reads past it.  If two buffers parse to the same header,
  their headers are the same bytes: padded lengths and stray bits are refused.  The header lies inside
  the buffer, every shorter prefix is answered with \<open>Incomplete\<close>, and bytes after it change nothing.
\<close>

theorem frame_header_canonical:
  assumes "parse_frame_header buf = FrameOk h"
  shows "fh_header_size h \<le> length buf \<and> fh_header_size h \<le> kMaxHeaderSize \<and>
    (n < fh_header_size h \<longrightarrow> parse_frame_header (take n buf) = FrameIncomplete) \<and>
    parse_frame_header (buf @ suf) = FrameOk h \<and>
    (parse_frame_header buf2 = FrameOk h \<longrightarrow> take (fh_header_size h) buf2 = take (fh_header_size h) buf)"
  using frame_header_canonical_facts [OF assms] by blast

lemma frame_header_canonical_witness:
  "parse_frame_header [0x81, 0x05, 1, 2] = FrameOk \<lparr>fh_opcode = OpText, fh_payload_len = 5, fh_mask_key = 0,
     fh_header_size = 2, fh_fin = True, fh_masked = False\<rparr> \<and> parse_frame_header [0x81] = FrameIncomplete"
proof -
  have p: "parse_frame_header [0x81, 0x05, 1, 2] = FrameOk \<lparr>fh_opcode = OpText, fh_payload_len = 5, fh_mask_key = 0,
     fh_header_size = 2, fh_fin = True, fh_masked = False\<rparr>"
    by (simp add: parse_frame_header_def parse_length_def is_known_opcode_def opcode_of_def is_control_iff)
  from frame_header_canonical [OF p, of 1] p show ?thesis by simp
qed

text \<open>
  Unmasking is its own inverse and can be done in pieces.  Masking twice with the same key and offset gives
  the payload back, and masking two consecutive pieces, the second at the offset where it starts, is
  masking the whole.
\<close>

theorem mask_pieces:
  "apply_mask (apply_mask data key off) key off = data \<and>
   apply_mask (a @ b) key off = apply_mask a key off @ apply_mask b key (off + length a)"
proof -
  have "apply_mask (apply_mask data key off) key off = data"
    by (rule mask_involution)
  moreover have "apply_mask (a @ b) key off = apply_mask a key off @ apply_mask b key (off + length a)"
  proof (cases "key = 0")
    case False
    show ?thesis
    proof (rule nth_equalityI)
      fix i
      assume "i < length (apply_mask (a @ b) key off)"
      then have i: "i < length a + length b" using False by (simp add: apply_mask_def)
      show "apply_mask (a @ b) key off ! i = (apply_mask a key off @ apply_mask b key (off + length a)) ! i"
      proof (cases "i < length a")
        case True
        then show ?thesis using False i by (simp add: apply_mask_def nth_append)
      next
        case not: False
        then have e: "i - length a + (off + length a) = i + off" "i - length a < length b" using i by simp_all
        show ?thesis using False i not e by (simp add: apply_mask_def nth_append)
      qed
    qed (use False in \<open>simp add: apply_mask_def\<close>)
  qed (simp add: apply_mask_def)
  ultimately show ?thesis by simp
qed

end
