(* ===== verification/Ws_Reader.thy ===== *)
theory Ws_Reader
  imports Ws_Frame
begin

text \<open>
  The incremental frame reader of \<open>include/crossbook/net/ws_frame.hpp\<close>: \<open>CloseCode\<close>, \<open>ReadStatus\<close>, \<open>Event\<close>
  and \<open>FrameReader\<close>.  The receive buffer and the reassembly buffer are lists of bytes, \<open>read_pos\<close> an offset
  into the first.  A view into a buffer is the bytes it shows when the event is handed out.  \<open>next\<close> is
  \<open>reader_next\<close>; its loop is \<open>next_loop\<close>, which ends because every turn that goes round consumes a header.

  The specification \<open>feed_bytes\<close> has neither offsets nor pending work: it takes the bytes of the stream
  frame by frame and carries only the message under assembly.  \<open>reader_next\<close> is related to it by the
  abstraction \<open>unread\<close> / \<open>partial_msg\<close>.
\<close>

section \<open>The state\<close>

datatype close_code =
  CcNormal | CcGoingAway | CcProtocolError | CcUnsupportedData | CcNoStatus | CcAbnormal
| CcInvalidPayload | CcPolicyViolation | CcMessageTooBig | CcInternalError

definition close_value :: "close_code \<Rightarrow> 16 word" where
  "close_value c =
     (case c of CcNormal \<Rightarrow> 1000 | CcGoingAway \<Rightarrow> 1001 | CcProtocolError \<Rightarrow> 1002 | CcUnsupportedData \<Rightarrow> 1003
      | CcNoStatus \<Rightarrow> 1005 | CcAbnormal \<Rightarrow> 1006 | CcInvalidPayload \<Rightarrow> 1007 | CcPolicyViolation \<Rightarrow> 1008
      | CcMessageTooBig \<Rightarrow> 1009 | CcInternalError \<Rightarrow> 1011)"

datatype read_status = NeedMore | GotMessage | GotPing | GotPong | GotClose | ReadError | MessageTooLarge

record event =
  ev_opcode :: opcode
  ev_payload :: "u8 list"
  ev_close_code :: "16 word"

definition event0 :: event where
  "event0 = \<lparr>ev_opcode = OpContinuation, ev_payload = [], ev_close_code = close_value CcNoStatus\<rparr>"

record frame_reader =
  max_message_bytes :: nat
  rbuf :: "u8 list"
  assembled :: "u8 list"
  control_buf :: "u8 list"
  control_len :: nat
  read_pos :: nat
  pending_consume :: nat
  failure :: read_status
  message_opcode :: opcode
  pending_clear :: bool
  assembling :: bool

definition kDefaultMaxMessage :: nat where "kDefaultMaxMessage = 8 * 1024 * 1024"
definition kCompactThreshold :: nat where "kCompactThreshold = 32 * 1024"

definition new_reader :: "nat \<Rightarrow> frame_reader" where
  "new_reader max_bytes =
     \<lparr>max_message_bytes = max_bytes, rbuf = [], assembled = [], control_buf = replicate kMaxControlPayload 0,
      control_len = 0, read_pos = 0, pending_consume = 0, failure = NeedMore, message_opcode = OpText,
      pending_clear = False, assembling = False\<rparr>"

section \<open>Filling the buffer\<close>

definition consume_pending :: "frame_reader \<Rightarrow> frame_reader" where
  "consume_pending r =
     (let r1 = (if pending_consume r \<noteq> 0
                then r\<lparr>read_pos := read_pos r + pending_consume r, pending_consume := 0\<rparr> else r)
      in if pending_clear r1 then r1\<lparr>assembled := [], pending_clear := False\<rparr> else r1)"

definition reader_compact :: "frame_reader \<Rightarrow> frame_reader" where
  "reader_compact r0 =
     (let r = consume_pending r0 in
      if read_pos r = 0 then r
      else if read_pos r = length (rbuf r) then r\<lparr>rbuf := [], read_pos := 0\<rparr>
      else if read_pos r < kCompactThreshold then r
      else r\<lparr>rbuf := drop (read_pos r) (rbuf r), read_pos := 0\<rparr>)"

definition reader_append :: "frame_reader \<Rightarrow> u8 list \<Rightarrow> frame_reader" where
  "reader_append r bytes = (let r1 = reader_compact r in r1\<lparr>rbuf := rbuf r1 @ bytes\<rparr>)"

text \<open>
  \<open>writable_tail\<close> hands out room for \<open>len\<close> bytes whose content is whatever the transport leaves there
  (\<open>room\<close>); \<open>commit\<close> gives back what was not filled.
\<close>

definition writable_tail :: "frame_reader \<Rightarrow> u8 list \<Rightarrow> frame_reader" where
  "writable_tail r room = (let r1 = reader_compact r in r1\<lparr>rbuf := rbuf r1 @ room\<rparr>)"

definition reader_commit :: "frame_reader \<Rightarrow> nat \<Rightarrow> nat \<Rightarrow> frame_reader" where
  "reader_commit r written requested = r\<lparr>rbuf := take (length (rbuf r) - (requested - written)) (rbuf r)\<rparr>"

section \<open>Taking events out\<close>

definition latch :: "read_status \<Rightarrow> frame_reader \<Rightarrow> read_status \<times> frame_reader" where
  "latch st r = (st, r\<lparr>failure := st\<rparr>)"

definition emit_control :: "opcode \<Rightarrow> u8 list \<Rightarrow> frame_reader \<Rightarrow> read_status \<times> event \<times> frame_reader" where
  "emit_control op payload r0 =
     (let len = length payload;
          r = r0\<lparr>control_len := len,
                 control_buf := (if len > 0 then payload @ drop len (control_buf r0) else control_buf r0)\<rparr>;
          out = \<lparr>ev_opcode = op, ev_payload = take len (control_buf r), ev_close_code = close_value CcNoStatus\<rparr>
      in if op = OpPing then (GotPing, out, r)
         else if op = OpPong then (GotPong, out, r)
         else if len = 1 then (ReadError, out, r)
         else if len \<ge> 2 then
           (GotClose, out\<lparr>ev_close_code := or (push_bit 8 (ucast (payload ! 0))) (ucast (payload ! 1)),
              ev_payload := take (len - 2) (drop 2 (control_buf r))\<rparr>, r)
         else (GotClose, out, r))"

lemma header_fits: "parse_frame_header v = FrameOk h \<Longrightarrow> 0 < fh_header_size h \<and> fh_header_size h \<le> length v"
  using header_size_bounds [of v h] by auto

function next_loop :: "event \<Rightarrow> frame_reader \<Rightarrow> read_status \<times> event \<times> frame_reader" where
  "next_loop out r =
     (let view = drop (read_pos r) (rbuf r) in
      case parse_frame_header view of
        FrameIncomplete \<Rightarrow> (NeedMore, out, r)
      | FrameProtocolError \<Rightarrow> (let (st, r') = latch ReadError r in (st, out, r'))
      | FrameOk h \<Rightarrow>
          let len = unat (fh_payload_len h); frame_total = fh_header_size h + len in
          if fh_masked h then (let (st, r') = latch ReadError r in (st, out, r'))
          else if len > max_message_bytes r \<or> length (assembled r) + len > max_message_bytes r then
            (let (st, r') = latch MessageTooLarge r in (st, out, r'))
          else if length view < frame_total then (NeedMore, out, r)
          else
            let payload = take len (drop (fh_header_size h) view) in
            if is_control (fh_opcode h) then
              emit_control (fh_opcode h) payload (r\<lparr>read_pos := read_pos r + frame_total\<rparr>)
            else if fh_opcode h = OpContinuation \<and> \<not> assembling r then
              (let (st, r') = latch ReadError r in (st, out, r'))
            else if fh_opcode h \<noteq> OpContinuation \<and> assembling r then
              (let (st, r') = latch ReadError r in (st, out, r'))
            else
              let r1 = (if fh_opcode h = OpContinuation then r else r\<lparr>message_opcode := fh_opcode h\<rparr>) in
              if fh_fin h \<and> \<not> assembling r1 then
                (GotMessage,
                 \<lparr>ev_opcode = message_opcode r1, ev_payload = payload, ev_close_code = close_value CcNoStatus\<rparr>,
                 r1\<lparr>pending_consume := frame_total\<rparr>)
              else
                let r2 = r1\<lparr>assembled := assembled r1 @ payload, assembling := True,
                            read_pos := read_pos r1 + frame_total\<rparr> in
                if fh_fin h then
                  (GotMessage,
                   \<lparr>ev_opcode = message_opcode r2, ev_payload = assembled r2, ev_close_code = close_value CcNoStatus\<rparr>,
                   r2\<lparr>assembling := False, pending_clear := True\<rparr>)
                else next_loop out r2)"
  by pat_completeness auto
termination
  by (relation "measure (\<lambda>(out, r). length (rbuf r) - read_pos r)")
    (auto dest!: header_fits split: if_splits)

declare next_loop.simps [simp del]

definition reader_next :: "event \<Rightarrow> frame_reader \<Rightarrow> read_status \<times> event \<times> frame_reader" where
  "reader_next out r =
     (if failure r \<noteq> NeedMore then (failure r, out, r) else next_loop out (consume_pending r))"

definition reader_buffered :: "frame_reader \<Rightarrow> nat" where
  "reader_buffered r = length (rbuf r) - read_pos r"

definition reader_failed :: "frame_reader \<Rightarrow> bool" where
  "reader_failed r \<longleftrightarrow> failure r \<noteq> NeedMore"

definition reader_reset :: "frame_reader \<Rightarrow> frame_reader" where
  "reader_reset r =
     r\<lparr>rbuf := [], assembled := [], read_pos := 0, pending_consume := 0, pending_clear := False,
       assembling := False, failure := NeedMore\<rparr>"

section \<open>The stream, frame by frame\<close>

type_synonym partial = "(opcode \<times> u8 list) option"

definition partial_len :: "partial \<Rightarrow> nat" where
  "partial_len p = (case p of None \<Rightarrow> 0 | Some (op, a) \<Rightarrow> length a)"

definition message_event :: "opcode \<Rightarrow> u8 list \<Rightarrow> read_status \<times> event" where
  "message_event op bs = (GotMessage, \<lparr>ev_opcode = op, ev_payload = bs, ev_close_code = close_value CcNoStatus\<rparr>)"

definition control_result :: "opcode \<Rightarrow> u8 list \<Rightarrow> read_status \<times> event" where
  "control_result op bs =
     (if op = OpPing then (GotPing, \<lparr>ev_opcode = op, ev_payload = bs, ev_close_code = close_value CcNoStatus\<rparr>)
      else if op = OpPong then (GotPong, \<lparr>ev_opcode = op, ev_payload = bs, ev_close_code = close_value CcNoStatus\<rparr>)
      else case bs of
        [] \<Rightarrow> (GotClose, \<lparr>ev_opcode = op, ev_payload = [], ev_close_code = close_value CcNoStatus\<rparr>)
      | [b] \<Rightarrow> (ReadError, \<lparr>ev_opcode = op, ev_payload = [b], ev_close_code = close_value CcNoStatus\<rparr>)
      | b # c # reason \<Rightarrow>
          (GotClose, \<lparr>ev_opcode = op, ev_payload = reason, ev_close_code = or (push_bit 8 (ucast b)) (ucast c)\<rparr>))"

datatype frame_result =
  FMore | FFail read_status | FPart partial "u8 list" | FEvent read_status event partial "u8 list"

definition data_frame :: "opcode \<Rightarrow> bool \<Rightarrow> u8 list \<Rightarrow> partial \<Rightarrow> u8 list \<Rightarrow> frame_result" where
  "data_frame op fin payload p rest =
     (case p of
        None \<Rightarrow>
          if op = OpContinuation then FFail ReadError
          else if fin then FEvent (fst (message_event op payload)) (snd (message_event op payload)) None rest
          else FPart (Some (op, payload)) rest
      | Some (mop, a) \<Rightarrow>
          if op \<noteq> OpContinuation then FFail ReadError
          else if fin then FEvent (fst (message_event mop (a @ payload))) (snd (message_event mop (a @ payload))) None rest
          else FPart (Some (mop, a @ payload)) rest)"

definition one_frame :: "nat \<Rightarrow> partial \<Rightarrow> u8 list \<Rightarrow> frame_result" where
  "one_frame m p bs =
     (case parse_frame_header bs of
        FrameIncomplete \<Rightarrow> FMore
      | FrameProtocolError \<Rightarrow> FFail ReadError
      | FrameOk h \<Rightarrow>
          let len = unat (fh_payload_len h); n = fh_header_size h + len;
              payload = take len (drop (fh_header_size h) bs); rest = drop n bs in
          if fh_masked h then FFail ReadError
          else if partial_len p + len > m then FFail MessageTooLarge
          else if length bs < n then FMore
          else if is_control (fh_opcode h) then
            (case control_result (fh_opcode h) payload of (st, ev) \<Rightarrow>
               if st = ReadError then FFail ReadError else FEvent st ev p rest)
          else data_frame (fh_opcode h) (fh_fin h) payload p rest)"

lemma one_frame_shorter:
  "one_frame m p bs = FPart p' rest \<Longrightarrow> length rest < length bs"
  "one_frame m p bs = FEvent st ev p' rest \<Longrightarrow> length rest < length bs"
  by (auto simp: one_frame_def data_frame_def Let_def dest!: header_fits
      split: frame_status.splits if_splits prod.splits option.splits)

function feed_bytes :: "nat \<Rightarrow> partial \<Rightarrow> u8 list \<Rightarrow> (read_status \<times> event) list \<times> read_status \<times> partial \<times> u8 list" where
  "feed_bytes m p bs =
     (case one_frame m p bs of
        FMore \<Rightarrow> ([], NeedMore, p, bs)
      | FFail st \<Rightarrow> ([], st, None, [])
      | FPart p' rest \<Rightarrow> feed_bytes m p' rest
      | FEvent st ev p' rest \<Rightarrow> (case feed_bytes m p' rest of (evs, x) \<Rightarrow> ((st, ev) # evs, x)))"
  by pat_completeness auto
termination
  by (relation "measure (\<lambda>(m, p, bs). length bs)") (auto dest: one_frame_shorter)

declare feed_bytes.simps [simp del]

lemma feed_bytes_unfold:
  "one_frame m p bs = FMore \<Longrightarrow> feed_bytes m p bs = ([], NeedMore, p, bs)"
  "one_frame m p bs = FFail st \<Longrightarrow> feed_bytes m p bs = ([], st, None, [])"
  "one_frame m p bs = FPart p' rest \<Longrightarrow> feed_bytes m p bs = feed_bytes m p' rest"
  "one_frame m p bs = FEvent st ev p' rest \<Longrightarrow>
     feed_bytes m p bs = ((st, ev) # fst (feed_bytes m p' rest), snd (feed_bytes m p' rest))"
  by (subst feed_bytes.simps; simp add: case_prod_unfold)+

text \<open>More bytes never change what was decided on fewer.\<close>

definition with_more :: "u8 list \<Rightarrow> frame_result \<Rightarrow> frame_result" where
  "with_more c x =
     (case x of FMore \<Rightarrow> FMore | FFail st \<Rightarrow> FFail st | FPart p rest \<Rightarrow> FPart p (rest @ c)
      | FEvent st ev p rest \<Rightarrow> FEvent st ev p (rest @ c))"

lemma one_frame_more:
  assumes "one_frame m p bs \<noteq> FMore"
  shows "one_frame m p (bs @ c) = with_more c (one_frame m p bs)"
proof (cases "parse_frame_header bs")
  case (FrameOk h)
  have "parse_frame_header (bs @ c) = FrameOk h" using parse_header_more [of bs c] FrameOk by simp
  moreover have "fh_header_size h \<le> length bs" using header_fits [OF FrameOk] by simp
  ultimately show ?thesis
    using assms FrameOk
    by (auto simp: one_frame_def with_more_def Let_def data_frame_def split: prod.splits option.splits if_splits)
next
  case FrameIncomplete
  then show ?thesis using assms by (simp add: one_frame_def)
next
  case FrameProtocolError
  then show ?thesis using parse_header_more [of bs c] by (simp add: one_frame_def with_more_def)
qed

lemma feed_bytes_append:
  "feed_bytes m p (a @ b) =
   (case feed_bytes m p a of (evs, st, p', rest) \<Rightarrow>
      if st = NeedMore then (case feed_bytes m p' (rest @ b) of (evs', x) \<Rightarrow> (evs @ evs', x))
      else (evs, st, p', rest))"
proof (induction m p a rule: feed_bytes.induct)
  case (1 m p bs)
  show ?case
  proof (cases "one_frame m p bs")
    case FMore
    then show ?thesis by (simp add: feed_bytes_unfold(1) [OF FMore] split: prod.splits)
  next
    case (FFail st)
    then have "one_frame m p (bs @ b) = FFail st" "st \<noteq> NeedMore"
      using one_frame_more [of m p bs b]
      by (auto simp: with_more_def one_frame_def data_frame_def Let_def split: frame_status.splits if_splits prod.splits option.splits)
    then show ?thesis by (simp add: feed_bytes_unfold(2) [OF FFail] feed_bytes_unfold(2))
  next
    case (FPart p' rest)
    then have "one_frame m p (bs @ b) = FPart p' (rest @ b)"
      using one_frame_more [of m p bs b] by (simp add: with_more_def)
    then show ?thesis using 1(1) [OF FPart] by (simp add: feed_bytes_unfold(3) [OF FPart] feed_bytes_unfold(3))
  next
    case (FEvent st ev p' rest)
    then have "one_frame m p (bs @ b) = FEvent st ev p' (rest @ b)"
      using one_frame_more [of m p bs b] by (simp add: with_more_def)
    then show ?thesis using 1(2) [OF FEvent]
      by (simp add: feed_bytes_unfold(4) [OF FEvent] feed_bytes_unfold(4) split: prod.splits)
  qed
qed

section \<open>The reader implements it\<close>

definition unread :: "frame_reader \<Rightarrow> u8 list" where
  "unread r = drop (read_pos r + pending_consume r) (rbuf r)"

definition partial_msg :: "frame_reader \<Rightarrow> partial" where
  "partial_msg r = (if assembling r then Some (message_opcode r, assembled r) else None)"

definition reader_ok :: "frame_reader \<Rightarrow> bool" where
  "reader_ok r \<longleftrightarrow>
     failure r = NeedMore \<and> length (control_buf r) = kMaxControlPayload \<and>
     read_pos r + pending_consume r \<le> length (rbuf r) \<and> length (assembled r) \<le> max_message_bytes r \<and>
     (assembling r \<longrightarrow> \<not> pending_clear r) \<and> (\<not> assembling r \<and> \<not> pending_clear r \<longrightarrow> assembled r = [])"

definition settled :: "frame_reader \<Rightarrow> bool" where
  "settled r \<longleftrightarrow> pending_consume r = 0 \<and> \<not> pending_clear r"

lemma new_reader_ok [simp]: "reader_ok (new_reader m)" "unread (new_reader m) = []" "partial_msg (new_reader m) = None"
    "max_message_bytes (new_reader m) = m"
  by (simp_all add: reader_ok_def new_reader_def unread_def partial_msg_def)

lemma consume_pending_props:
  assumes "reader_ok r"
  shows "reader_ok (consume_pending r)" "settled (consume_pending r)" "unread (consume_pending r) = unread r"
    "partial_msg (consume_pending r) = partial_msg r" "max_message_bytes (consume_pending r) = max_message_bytes r"
  using assms by (auto simp: reader_ok_def settled_def unread_def partial_msg_def consume_pending_def Let_def)

lemma compact_props:
  assumes "reader_ok r"
  shows "reader_ok (reader_compact r)" "settled (reader_compact r)" "unread (reader_compact r) = unread r"
    "partial_msg (reader_compact r) = partial_msg r" "max_message_bytes (reader_compact r) = max_message_bytes r"
  using consume_pending_props [OF assms]
  by (auto simp: reader_compact_def Let_def reader_ok_def settled_def unread_def partial_msg_def split: if_splits)

lemma append_props:
  assumes "reader_ok r"
  shows "reader_ok (reader_append r c)" "unread (reader_append r c) = unread r @ c"
    "partial_msg (reader_append r c) = partial_msg r" "max_message_bytes (reader_append r c) = max_message_bytes r"
  using compact_props [OF assms]
  by (auto simp: reader_append_def Let_def reader_ok_def settled_def unread_def partial_msg_def split: if_splits)

lemma commit_is_append:
  "length junk = requested - length bytes \<Longrightarrow> length bytes \<le> requested \<Longrightarrow>
   reader_commit (writable_tail r (bytes @ junk)) (length bytes) requested = reader_append r bytes"
  by (simp add: reader_commit_def writable_tail_def reader_append_def Let_def)

lemma emit_control_result:
  assumes "length (control_buf r) = kMaxControlPayload" "length payload \<le> kMaxControlPayload"
    "emit_control op payload r = (st, ev, r')"
  shows "(st, ev) = control_result op payload"
    "r' = r\<lparr>control_len := control_len r', control_buf := control_buf r'\<rparr>" "length (control_buf r') = kMaxControlPayload"
proof -
  show "(st, ev) = control_result op payload"
  proof (cases payload)
    case Nil
    then show ?thesis using assms by (auto simp: emit_control_def control_result_def Let_def event.defs)
  next
    case (Cons a list)
    then show ?thesis using assms
      by (cases list) (auto simp: emit_control_def control_result_def Let_def numeral_2_eq_2)
  qed
  show "r' = r\<lparr>control_len := control_len r', control_buf := control_buf r'\<rparr>" "length (control_buf r') = kMaxControlPayload"
    using assms by (auto simp: emit_control_def Let_def split: if_splits)
qed

lemma control_len_bound:
  assumes "parse_frame_header v = FrameOk h" "is_control (fh_opcode h)"
  shows "unat (fh_payload_len h) \<le> kMaxControlPayload"
  using assms by (auto elim!: parse_header_Ok)

definition stops :: "read_status \<Rightarrow> bool" where
  "stops st \<longleftrightarrow> st \<in> {NeedMore, ReadError, MessageTooLarge}"

lemma too_large_partial:
  assumes "reader_ok r" "settled r"
  shows "len > max_message_bytes r \<or> length (assembled r) + len > max_message_bytes r \<longleftrightarrow>
     partial_len (partial_msg r) + len > max_message_bytes r"
  using assms by (auto simp: reader_ok_def settled_def partial_len_def partial_msg_def)

lemma next_loop_sim:
  assumes "reader_ok r" "settled r" "next_loop out r = (st, ev, r')"
  shows "feed_bytes (max_message_bytes r) (partial_msg r) (unread r) =
     (if st = NeedMore then ([], NeedMore, partial_msg r', unread r')
      else if stops st then ([], st, None, [])
      else ((st, ev) # fst (feed_bytes (max_message_bytes r) (partial_msg r') (unread r')),
            snd (feed_bytes (max_message_bytes r) (partial_msg r') (unread r')))) \<and>
     (stops st \<and> st \<noteq> NeedMore \<or> reader_ok r') \<and> max_message_bytes r' = max_message_bytes r \<and>
     (\<not> stops st \<longrightarrow> length (unread r') < length (unread r) \<and> length (ev_payload ev) \<le> max_message_bytes r)"
  using assms
proof (induction out r arbitrary: st ev r' rule: next_loop.induct)
  case (1 out r)
  define view where "view = drop (read_pos r) (rbuf r)"
  have u: "unread r = view" using 1(3) by (simp add: unread_def view_def settled_def)
  note unfolded = 1(4) [unfolded next_loop.simps [of out r], folded view_def]
  show ?case
  proof (cases "parse_frame_header view")
    case FrameIncomplete
    then have "one_frame (max_message_bytes r) (partial_msg r) view = FMore" by (simp add: one_frame_def)
    then show ?thesis using unfolded FrameIncomplete 1(2) u by (simp add: feed_bytes_unfold(1) stops_def)
  next
    case FrameProtocolError
    then have "one_frame (max_message_bytes r) (partial_msg r) view = FFail ReadError" by (simp add: one_frame_def)
    then show ?thesis using unfolded FrameProtocolError 1(2) u
      by (auto simp: feed_bytes_unfold(2) stops_def latch_def)
  next
    case (FrameOk h)
    define len where "len = unat (fh_payload_len h)"
    define n where "n = fh_header_size h + len"
    define payload where "payload = take len (drop (fh_header_size h) view)"
    define m where "m = max_message_bytes r"
    note big = too_large_partial [OF 1(2,3), of len]
    note hd = header_fits [OF FrameOk]
    note of1 = one_frame_def [of m "partial_msg r" view, simplified FrameOk frame_status.case Let_def,
        folded len_def, folded n_def payload_def]
    note nl = unfolded [simplified FrameOk frame_status.case Let_def, folded len_def, folded n_def payload_def]
    consider (bad) "fh_masked h" | (large) "\<not> fh_masked h" "partial_len (partial_msg r) + len > m"
      | (short) "\<not> fh_masked h" "\<not> partial_len (partial_msg r) + len > m" "length view < n"
      | (ctl) "\<not> fh_masked h" "\<not> partial_len (partial_msg r) + len > m" "\<not> length view < n" "is_control (fh_opcode h)"
      | (data) "\<not> fh_masked h" "\<not> partial_len (partial_msg r) + len > m" "\<not> length view < n" "\<not> is_control (fh_opcode h)"
      by blast
    then show ?thesis
    proof cases
      case bad
      then show ?thesis using nl of1 u by (auto simp: latch_def feed_bytes_unfold(2) stops_def m_def)
    next
      case large
      then show ?thesis using nl of1 u big by (auto simp: latch_def feed_bytes_unfold(2) stops_def m_def)
    next
      case short
      then show ?thesis using nl of1 u big 1(2) by (auto simp: feed_bytes_unfold(1) stops_def m_def)
    next
      case ctl
      then have "emit_control (fh_opcode h) payload (r\<lparr>read_pos := read_pos r + n\<rparr>) = (st, ev, r')"
        using nl big by (simp add: m_def)
      note em = emit_control_result [OF _ _ this]
      have pl: "length payload \<le> kMaxControlPayload" "length payload \<le> m"
        using control_len_bound [OF FrameOk ctl(4)] ctl(2) by (simp_all add: payload_def len_def)
      have cr: "(st, ev) = control_result (fh_opcode h) payload"
        and r': "r' = r\<lparr>read_pos := read_pos r + n, control_len := control_len r', control_buf := control_buf r'\<rparr>"
        and cb: "length (control_buf r') = kMaxControlPayload"
        using em 1(2) pl(1) by (simp_all add: reader_ok_def)
      have keeps: "unread r' = drop n view" "partial_msg r' = partial_msg r" "max_message_bytes r' = m"
        using 1(3) by (subst r'; simp add: unread_def partial_msg_def settled_def view_def m_def add.commute)+
      have ok: "reader_ok r'"
        using 1(2,3) cb ctl(3) by (subst r') (auto simp: reader_ok_def settled_def view_def)
      have st: "st = ReadError \<or> \<not> stops st" "st \<noteq> NeedMore" "length (ev_payload ev) \<le> length payload"
        using cr by (auto simp: control_result_def stops_def split: if_splits list.splits)
      have "one_frame m (partial_msg r) view =
          (if st = ReadError then FFail ReadError else FEvent st ev (partial_msg r) (drop n view))"
        using of1 ctl by (simp add: cr [symmetric])
      then show ?thesis
        using st keeps ok u hd ctl(3) pl(2)
        by (cases "st = ReadError") (auto simp: feed_bytes_unfold stops_def m_def [symmetric] n_def)
    next
      case data
      define r1 where "r1 = (if fh_opcode h = OpContinuation then r else r\<lparr>message_opcode := fh_opcode h\<rparr>)"
      define r2 where "r2 = r1\<lparr>assembled := assembled r1 @ payload, assembling := True, read_pos := read_pos r1 + n\<rparr>"
      have pl: "length payload = len" using data(3) by (simp add: payload_def n_def len_def)
      have r1: "assembling r1 = assembling r" "assembled r1 = assembled r" "read_pos r1 = read_pos r"
          "rbuf r1 = rbuf r" "max_message_bytes r1 = m" "failure r1 = failure r" "control_buf r1 = control_buf r"
          "pending_consume r1 = pending_consume r" "pending_clear r1 = pending_clear r"
          "message_opcode r1 = (if fh_opcode h = OpContinuation then message_opcode r else fh_opcode h)"
        by (simp_all add: r1_def m_def)
      have empty: "\<not> assembling r \<Longrightarrow> assembled r = []" using 1(2,3) by (auto simp: reader_ok_def settled_def)
      have room: "length (assembled r) + len \<le> m" "len \<le> m" using data(2) big by (auto simp: m_def)
      have r2_ok: "reader_ok r2" "settled r2" "unread r2 = drop n view" "max_message_bytes r2 = m"
        using 1(2,3) data(3) room pl
        by (auto simp: r2_def r1 reader_ok_def settled_def unread_def view_def add.commute)
      have r1_ok: "reader_ok (r1\<lparr>pending_consume := n\<rparr>)" "unread (r1\<lparr>pending_consume := n\<rparr>) = drop n view"
        using 1(2,3) data(3) by (auto simp: r1 reader_ok_def settled_def unread_def view_def m_def add.commute)
      have nl': "(if fh_opcode h = OpContinuation \<and> \<not> assembling r \<or> fh_opcode h \<noteq> OpContinuation \<and> assembling r
           then (ReadError, out, r\<lparr>failure := ReadError\<rparr>)
         else if fh_fin h \<and> \<not> assembling r then (fst (message_event (message_opcode r1) payload),
           snd (message_event (message_opcode r1) payload), r1\<lparr>pending_consume := n\<rparr>)
         else if fh_fin h then (fst (message_event (message_opcode r2) (assembled r2)),
           snd (message_event (message_opcode r2) (assembled r2)), r2\<lparr>assembling := False, pending_clear := True\<rparr>)
         else next_loop out r2) = (st, ev, r')"
        using nl data big r1(1)
        by (auto simp: latch_def message_event_def r1_def r2_def m_def split: if_splits)
      have of2: "one_frame m (partial_msg r) view =
          data_frame (fh_opcode h) (fh_fin h) payload (partial_msg r) (drop n view)"
        using of1 data by simp
      consider (seq) "fh_opcode h = OpContinuation \<and> \<not> assembling r \<or> fh_opcode h \<noteq> OpContinuation \<and> assembling r"
        | (whole) "fh_opcode h \<noteq> OpContinuation" "\<not> assembling r" "fh_fin h"
        | (final) "fh_opcode h = OpContinuation" "assembling r" "fh_fin h"
        | (part) "fh_opcode h = OpContinuation \<longleftrightarrow> assembling r" "\<not> fh_fin h"
        by blast
      then show ?thesis
      proof cases
        case seq
        then have "one_frame m (partial_msg r) view = FFail ReadError"
          unfolding of2 by (auto simp: data_frame_def partial_msg_def)
        then show ?thesis using nl' seq u by (auto simp: feed_bytes_unfold(2) stops_def m_def)
      next
        case whole
        then have "one_frame m (partial_msg r) view =
            FEvent (fst (message_event (fh_opcode h) payload)) (snd (message_event (fh_opcode h) payload)) None (drop n view)"
          unfolding of2 by (auto simp: data_frame_def partial_msg_def)
        then show ?thesis
          using nl' whole u r1 r1_ok hd data(3) pl room
          by (auto simp: feed_bytes_unfold(4) stops_def message_event_def partial_msg_def m_def [symmetric] n_def)
      next
        case final
        then have "one_frame m (partial_msg r) view =
            FEvent (fst (message_event (message_opcode r) (assembled r @ payload)))
              (snd (message_event (message_opcode r) (assembled r @ payload))) None (drop n view)"
          unfolding of2 by (auto simp: data_frame_def partial_msg_def)
        moreover have "reader_ok (r2\<lparr>assembling := False, pending_clear := True\<rparr>)"
            "unread (r2\<lparr>assembling := False, pending_clear := True\<rparr>) = drop n view"
          using r2_ok by (auto simp: reader_ok_def unread_def settled_def)
        ultimately show ?thesis
          using nl' final u r1 r2_ok(4) hd data(3) pl room
          by (auto simp: feed_bytes_unfold(4) stops_def message_event_def partial_msg_def m_def [symmetric] n_def r2_def)
      next
        case part
        then have "one_frame m (partial_msg r) view = FPart (partial_msg r2) (drop n view)"
          using empty unfolding of2 by (auto simp: data_frame_def partial_msg_def r2_def r1)
        moreover have nl2: "next_loop out r2 = (st, ev, r')" using nl' part by (auto split: if_splits)
        note 1(1) [OF view_def FrameOk len_def n_def data(1) _ data(3) payload_def data(4) _ _ r1_def _ r2_def part(2)
            r2_ok(1,2) nl2]
        moreover have "\<not> (max_message_bytes r < len \<or> max_message_bytes r < length (assembled r) + len)"
            "\<not> (fh_opcode h = OpContinuation \<and> \<not> assembling r)" "\<not> (fh_opcode h \<noteq> OpContinuation \<and> assembling r)"
            "\<not> (fh_fin h \<and> \<not> assembling r1)"
          using part big data(2) by (auto simp: m_def)
        ultimately show ?thesis using r2_ok(3,4) u hd data(3) empty
          by (auto simp: feed_bytes_unfold(3) m_def [symmetric] n_def)
      qed
    qed
  qed
qed

section \<open>Reading a stream in chunks\<close>

text \<open>
  What the user of the reader does: hand over a chunk of the stream, take events until there is none or the
  stream has failed, go on with the next chunk.
\<close>

lemma next_loop_progress:
  assumes "pending_consume r = 0" "next_loop out r = (st, ev, r')" "\<not> stops st"
  shows "length (unread r') < length (drop (read_pos r) (rbuf r))"
  using assms
proof (induction out r arbitrary: st ev r' rule: next_loop.induct)
  case (1 out r)
  note unfolded = 1(3) [unfolded next_loop.simps [of out r]]
  show ?case
  proof (cases "parse_frame_header (drop (read_pos r) (rbuf r))")
    case (FrameOk h)
    then show ?thesis
      using unfolded 1(2,4) header_fits [OF FrameOk] 1(1) [OF refl FrameOk refl refl _ _ _ refl _ _ _ refl _ refl]
      by (fastforce simp: Let_def latch_def stops_def emit_control_def unread_def split: if_splits)
  qed (use unfolded 1(4) in \<open>auto simp: Let_def latch_def stops_def\<close>)
qed

lemma reader_next_progress:
  assumes "reader_next out r = (st, ev, r')" "\<not> stops st" "\<not> reader_failed r'"
  shows "length (unread r') < length (unread r)"
proof (cases "failure r = NeedMore")
  case True
  have c: "pending_consume (consume_pending r) = 0"
      "drop (read_pos (consume_pending r)) (rbuf (consume_pending r)) = unread r"
    by (simp_all add: consume_pending_def Let_def unread_def)
  have "next_loop out (consume_pending r) = (st, ev, r')" using assms(1) True by (simp add: reader_next_def)
  from next_loop_progress [OF c(1) this assms(2)] show ?thesis unfolding c(2) .
next
  case False
  then show ?thesis using assms by (simp add: reader_next_def reader_failed_def)
qed

function drain :: "frame_reader \<Rightarrow> (read_status \<times> event) list \<times> read_status \<times> frame_reader" where
  "drain r =
     (case reader_next event0 r of (st, ev, r') \<Rightarrow>
        if stops st \<or> reader_failed r' then ([], st, r')
        else (case drain r' of (evs, x) \<Rightarrow> ((st, ev) # evs, x)))"
  by pat_completeness auto
termination
  by (relation "measure (\<lambda>r. length (unread r))") (auto intro: reader_next_progress [OF sym])

declare drain.simps [simp del]

fun feed_chunks :: "frame_reader \<Rightarrow> u8 list list \<Rightarrow> (read_status \<times> event) list \<times> read_status \<times> frame_reader" where
  "feed_chunks r [] = ([], NeedMore, r)"
| "feed_chunks r (c # cs) =
     (case drain (reader_append r c) of (evs, st, r') \<Rightarrow>
        if st = NeedMore then (case feed_chunks r' cs of (evs', x) \<Rightarrow> (evs @ evs', x)) else (evs, st, r'))"

lemma reader_next_sim:
  assumes "reader_ok r" "reader_next out r = (st, ev, r')"
  shows "feed_bytes (max_message_bytes r) (partial_msg r) (unread r) =
     (if st = NeedMore then ([], NeedMore, partial_msg r', unread r')
      else if stops st then ([], st, None, [])
      else ((st, ev) # fst (feed_bytes (max_message_bytes r) (partial_msg r') (unread r')),
            snd (feed_bytes (max_message_bytes r) (partial_msg r') (unread r'))))"
    and "stops st \<and> st \<noteq> NeedMore \<or> reader_ok r'" and "max_message_bytes r' = max_message_bytes r"
    and "\<not> stops st \<longrightarrow> length (ev_payload ev) \<le> max_message_bytes r"
proof -
  have f: "failure r = NeedMore" using assms(1) by (simp add: reader_ok_def)
  have "next_loop out (consume_pending r) = (st, ev, r')" using assms(2) f by (simp add: reader_next_def)
  note sim = next_loop_sim [OF consume_pending_props(1,2) [OF assms(1)] this,
      unfolded consume_pending_props(3-5) [OF assms(1)]]
  from sim show "feed_bytes (max_message_bytes r) (partial_msg r) (unread r) =
     (if st = NeedMore then ([], NeedMore, partial_msg r', unread r')
      else if stops st then ([], st, None, [])
      else ((st, ev) # fst (feed_bytes (max_message_bytes r) (partial_msg r') (unread r')),
            snd (feed_bytes (max_message_bytes r) (partial_msg r') (unread r'))))" by blast
  from sim show "stops st \<and> st \<noteq> NeedMore \<or> reader_ok r'" by blast
  from sim show "max_message_bytes r' = max_message_bytes r" by blast
  from sim show "\<not> stops st \<longrightarrow> length (ev_payload ev) \<le> max_message_bytes r" by blast
qed

lemma ok_not_failed: "reader_ok r \<Longrightarrow> \<not> reader_failed r"
  by (simp add: reader_ok_def reader_failed_def)

lemma drain_sim:
  assumes "reader_ok r" "drain r = (evs, st, r')"
  shows "fst (feed_bytes (max_message_bytes r) (partial_msg r) (unread r)) = evs \<and>
     fst (snd (feed_bytes (max_message_bytes r) (partial_msg r) (unread r))) = st \<and> stops st \<and>
     (st = NeedMore \<longrightarrow> reader_ok r' \<and>
        snd (snd (feed_bytes (max_message_bytes r) (partial_msg r) (unread r))) = (partial_msg r', unread r')) \<and>
     max_message_bytes r' = max_message_bytes r \<and>
     (\<forall>(st, ev) \<in> set evs. \<not> stops st \<and> length (ev_payload ev) \<le> max_message_bytes r)"
  using assms
proof (induction r arbitrary: evs st r' rule: drain.induct)
  case (1 r)
  obtain st1 ev r1 where n: "reader_next event0 r = (st1, ev, r1)" by (cases "reader_next event0 r") auto
  note sim = reader_next_sim [OF 1(2) n]
  show ?case
  proof (cases "stops st1 \<or> reader_failed r1")
    case True
    moreover have "stops st1" using True sim(2) ok_not_failed by blast
    ultimately show ?thesis using 1(3) n sim by (auto simp: drain.simps [of r])
  next
    case False
    obtain evs2 st2 r2 where d: "drain r1 = (evs2, st2, r2)" by (cases "drain r1") auto
    then have e: "evs = (st1, ev) # evs2" "st = st2" "r' = r2"
      using 1(3) n False by (auto simp: drain.simps [of r])
    have ok1: "reader_ok r1" using sim(2) False by blast
    have nm: "st1 \<noteq> NeedMore" using False by (auto simp: stops_def)
    show ?thesis
      using 1(1) [OF n [symmetric] refl False ok1 d] sim(1,3,4) False nm e by (auto simp: case_prod_unfold)
  qed
qed

lemma feed_chunks_sim:
  assumes "reader_ok r" "feed_chunks r cs = (evs, st, r')"
    and "feed_bytes (max_message_bytes r) (partial_msg r) (unread r) = ([], NeedMore, partial_msg r, unread r)"
  shows "fst (feed_bytes (max_message_bytes r) (partial_msg r) (unread r @ concat cs)) = evs \<and>
     fst (snd (feed_bytes (max_message_bytes r) (partial_msg r) (unread r @ concat cs))) = st \<and>
     (\<forall>(st, ev) \<in> set evs. length (ev_payload ev) \<le> max_message_bytes r) \<and>
     (st = NeedMore \<longrightarrow> reader_ok r') \<and> max_message_bytes r' = max_message_bytes r"
  using assms
proof (induction cs arbitrary: r evs)
  case Nil
  then show ?case by simp
next
  case (Cons c cs)
  define m where "m = max_message_bytes r"
  note ap = append_props [OF Cons.prems(1), of c]
  obtain evs1 st1 r1 where d: "drain (reader_append r c) = (evs1, st1, r1)" by (cases "drain (reader_append r c)") auto
  note sim = drain_sim [OF ap(1) d, unfolded ap(2-4)]
  obtain evs' st' p' u' where fb: "feed_bytes m (partial_msg r) (unread r @ c) = (evs', st', p', u')"
    by (cases "feed_bytes m (partial_msg r) (unread r @ c)") auto
  have st1: "evs' = evs1" "st' = st1" using sim fb by (auto simp: m_def)
  show ?case
  proof (cases "st1 = NeedMore")
    case False
    then have "evs = evs1" "st = st1" "r' = r1" using Cons.prems(2) d by simp_all
    moreover have "feed_bytes m (partial_msg r) (unread r @ concat (c # cs)) = (evs1, st1, p', u')"
      using feed_bytes_append [of m "partial_msg r" "unread r @ c" "concat cs"] fb st1 False by simp
    ultimately show ?thesis using sim False by (auto simp: m_def)
  next
    case True
    obtain evs2 st2 r2 where f2: "feed_chunks r1 cs = (evs2, st2, r2)" by (cases "feed_chunks r1 cs") auto
    then have e: "evs = evs1 @ evs2" "st = st2" "r' = r2" using Cons.prems(2) d True by simp_all
    have s: "reader_ok r1" "p' = partial_msg r1" "u' = unread r1" "max_message_bytes r1 = m"
      using sim fb True by (auto simp: m_def)
    have rest: "feed_bytes m p' u' = ([], NeedMore, p', u')"
      using feed_bytes_append [of m "partial_msg r" "unread r @ c" "[]"] fb st1 True
      by (auto split: prod.splits)
    have ih: "fst (feed_bytes m p' (u' @ concat cs)) = evs2 \<and> fst (snd (feed_bytes m p' (u' @ concat cs))) = st2 \<and>
       (\<forall>(st, ev) \<in> set evs2. length (ev_payload ev) \<le> m) \<and> (st2 = NeedMore \<longrightarrow> reader_ok r2) \<and> max_message_bytes r2 = m"
      using Cons.IH [of r1 evs2] s rest f2 e by simp
    have "feed_bytes m (partial_msg r) (unread r @ concat (c # cs)) =
        (case feed_bytes m p' (u' @ concat cs) of (es, x) \<Rightarrow> (evs1 @ es, x))"
      using feed_bytes_append [of m "partial_msg r" "unread r @ c" "concat cs"] fb st1 True by simp
    then show ?thesis using ih e sim by (auto simp: m_def split: prod.splits)
  qed
qed

lemma nothing_to_feed: "feed_bytes m p [] = ([], NeedMore, p, [])"
  by (rule feed_bytes_unfold) (simp add: one_frame_def parse_frame_header_def)

lemma feed_chunks_new:
  assumes "feed_chunks (new_reader m) cs = (evs, st, r')"
  shows "fst (feed_bytes m None (concat cs)) = evs" "fst (snd (feed_bytes m None (concat cs))) = st"
    "\<forall>(st, ev) \<in> set evs. length (ev_payload ev) \<le> m" "st = NeedMore \<longrightarrow> reader_ok r'" "max_message_bytes r' = m"
  using feed_chunks_sim [OF new_reader_ok(1) assms] nothing_to_feed by simp_all

section \<open>What a conforming server sends\<close>

definition server_frame :: "opcode \<Rightarrow> bool \<Rightarrow> u8 list \<Rightarrow> u8 list" where
  "server_frame op fin payload = server_header op (of_nat (length payload)) fin @ payload"

lemma parse_length_masked: "parse_length (b0 # or 0x80 x # rest) = parse_length (b0 # x # rest)"
proof -
  have "and (or 0x80 x) 0x7F = and x (0x7F :: u8)"
    using bit.conj_disj_distrib2 [of "0x80 :: u8" x "0x7F"] by simp
  then show ?thesis by (simp add: parse_length_def Let_def)
qed

lemma or_zero_u8: "or (0 :: u8) x = x"
  by simp

lemma length_bytes_forms:
  obtains x xs where "length_bytes False len = x # xs" "write_length len = or 0x80 x # xs" "and x 0x80 = 0"
proof -
  consider "len < 126" | "\<not> len < 126" "len \<le> 0xFFFF" | "\<not> len < 126" "\<not> len \<le> 0xFFFF" by blast
  then show ?thesis
  proof cases
    case 1
    have "and (ucast len :: u8) 0x80 = 0"
    proof -
      have u: "unat (ucast len :: u8) < 2 ^ 7" using 1
        by (auto simp: word_less_nat_alt unsigned_ucast_eq intro: le_less_trans [OF take_bit_nat_less_eq_self])
      have "take_bit 7 (ucast len :: u8) = ucast len"
        using u by (metis take_bit_nat_eq_self_iff unsigned_take_bit_eq unsigned_word_eqI)
      then have "\<not> bit (ucast len :: u8) 7" by (metis bit_take_bit_iff less_irrefl)
      then show ?thesis using and_exp_eq_0_iff_not_bit [of "ucast len :: u8" 7] by simp
    qed
    then show ?thesis using that [of "ucast len" "[]"] 1 by (simp add: length_bytes_def write_length_def)
  qed (use that in \<open>simp_all add: length_bytes_def write_length_def Let_def\<close>)
qed

lemma server_header_parses:
  assumes "len < 0x8000000000000000" "is_control op \<longrightarrow> fin \<and> unat len \<le> kMaxControlPayload"
  shows "parse_frame_header (server_header op len fin @ rest) =
      FrameOk \<lparr>fh_opcode = op, fh_payload_len = len, fh_mask_key = 0,
        fh_header_size = length (server_header op len fin), fh_fin = fin, fh_masked = False\<rparr>"
proof -
  define b0 where "b0 = or (if fin then 0x80 else 0) (opcode_value op)"
  obtain x xs where x: "length_bytes False len = x # xs" "write_length len = or 0x80 x # xs" "and x 0x80 = 0"
    by (rule length_bytes_forms)
  have h: "server_header op len fin = b0 # x # xs"
    by (simp add: server_header_def header_bytes_def x(1) b0_def)
  have "parse_length (b0 # x # xs @ rest) = LenOk len (length (b0 # x # xs))"
    using parse_write_length [OF assms(1), of b0 rest] by (simp add: x(2) parse_length_masked)
  then show ?thesis
    using x(3) assms(2) first_byte [of fin op, folded b0_def]
    unfolding h parse_frame_header_def by (auto simp: Let_def)
qed

lemma server_frame_step:
  assumes "length payload < 2 ^ 63" "is_control op \<longrightarrow> fin \<and> length payload \<le> kMaxControlPayload"
    and "partial_len p + length payload \<le> m"
  shows "one_frame m p (server_frame op fin payload @ rest) =
     (if is_control op then
        (case control_result op payload of (st, ev) \<Rightarrow> if st = ReadError then FFail ReadError else FEvent st ev p rest)
      else data_frame op fin payload p rest)"
proof -
  have u: "unat (of_nat (length payload) :: u64) = length payload"
    using assms(1) by (simp add: unat_of_nat take_bit_nat_eq_self)
  have l: "(of_nat (length payload) :: u64) < 0x8000000000000000"
    using assms(1) by (simp add: word_less_nat_alt u)
  have "parse_frame_header (server_header op (of_nat (length payload)) fin @ payload @ rest) =
     FrameOk \<lparr>fh_opcode = op, fh_payload_len = of_nat (length payload), fh_mask_key = 0,
        fh_header_size = length (server_header op (of_nat (length payload)) fin), fh_fin = fin, fh_masked = False\<rparr>"
    using server_header_parses [OF l, of op fin "payload @ rest"] assms(2) u by simp
  then show ?thesis
    using assms(3) by (auto simp: one_frame_def server_frame_def Let_def u split: prod.split)
qed

text \<open>
  A message travels in one or more frames; pings, pongs and closes may come between its frames.
\<close>

datatype sent =
  SentControl opcode "u8 list"
| SentMessage opcode "u8 list" "((opcode \<times> u8 list) list \<times> u8 list) list"

definition encode_controls :: "(opcode \<times> u8 list) list \<Rightarrow> u8 list" where
  "encode_controls cs = concat (map (\<lambda>(op, c). server_frame op True c) cs)"

fun encode_parts :: "((opcode \<times> u8 list) list \<times> u8 list) list \<Rightarrow> u8 list" where
  "encode_parts [] = []"
| "encode_parts ((cs, q) # parts) = encode_controls cs @ server_frame OpContinuation (parts = []) q @ encode_parts parts"

fun encode_sent :: "sent \<Rightarrow> u8 list" where
  "encode_sent (SentControl op c) = server_frame op True c"
| "encode_sent (SentMessage op q parts) = server_frame op (parts = []) q @ encode_parts parts"

definition control_events :: "(opcode \<times> u8 list) list \<Rightarrow> (read_status \<times> event) list" where
  "control_events cs = map (\<lambda>(op, c). control_result op c) cs"

fun events_of :: "sent \<Rightarrow> (read_status \<times> event) list" where
  "events_of (SentControl op c) = [control_result op c]"
| "events_of (SentMessage op q parts) =
     concat (map (control_events \<circ> fst) parts) @ [message_event op (q @ concat (map snd parts))]"

definition control_fine :: "nat \<Rightarrow> opcode \<times> u8 list \<Rightarrow> bool" where
  "control_fine room oc \<longleftrightarrow> is_control (fst oc) \<and> length (snd oc) \<le> kMaxControlPayload \<and> length (snd oc) \<le> room \<and>
     (fst oc = OpClose \<longrightarrow> length (snd oc) \<noteq> 1)"

definition part_fine :: "nat \<Rightarrow> (opcode \<times> u8 list) list \<times> u8 list \<Rightarrow> bool" where
  "part_fine room pt \<longleftrightarrow> list_all (control_fine room) (fst pt)"

fun sendable :: "nat \<Rightarrow> sent \<Rightarrow> bool" where
  "sendable m (SentControl op c) \<longleftrightarrow> control_fine m (op, c)"
| "sendable m (SentMessage op q parts) \<longleftrightarrow>
     op \<in> {OpText, OpBinary} \<and> length (q @ concat (map snd parts)) \<le> m \<and>
     list_all (part_fine (m - length (q @ concat (map snd parts)))) parts"

lemma control_result_fine:
  assumes "control_fine room (op, c)"
  shows "fst (control_result op c) \<noteq> ReadError" "\<not> stops (fst (control_result op c))"
  using assms by (auto simp: control_fine_def control_result_def stops_def is_control_iff split: list.splits)

lemma feed_controls:
  assumes "list_all (control_fine room) cs" "partial_len p + room \<le> m" "m < 2 ^ 63"
  shows "feed_bytes m p (encode_controls cs @ rest) =
     (control_events cs @ fst (feed_bytes m p rest), snd (feed_bytes m p rest))"
  using assms(1)
proof (induction cs)
  case Nil
  then show ?case by (simp add: encode_controls_def control_events_def)
next
  case (Cons oc cs)
  obtain op c where oc: "oc = (op, c)" by (cases oc)
  have fine: "control_fine room (op, c)" using Cons.prems oc by simp
  then have "one_frame m p (server_frame op True c @ encode_controls cs @ rest) =
      FEvent (fst (control_result op c)) (snd (control_result op c)) p (encode_controls cs @ rest)"
    using server_frame_step [of c op True p m "encode_controls cs @ rest"] assms(2,3) control_result_fine [OF fine]
    by (auto simp: control_fine_def split: prod.splits)
  then show ?case
    using Cons by (simp add: encode_controls_def control_events_def oc feed_bytes_unfold(4))
qed

lemma feed_parts:
  assumes "list_all (part_fine (m - length (a @ concat (map snd parts)))) parts"
    "length (a @ concat (map snd parts)) \<le> m" "m < 2 ^ 63" "parts \<noteq> []"
  shows "feed_bytes m (Some (op, a)) (encode_parts parts @ rest) =
     (concat (map (control_events \<circ> fst) parts) @ message_event op (a @ concat (map snd parts)) #
        fst (feed_bytes m None rest), snd (feed_bytes m None rest))"
  using assms
proof (induction parts arbitrary: a)
  case (Cons pt parts)
  obtain cs q where pt: "pt = (cs, q)" by (cases pt)
  define room where "room = m - length (a @ concat (map snd (pt # parts)))"
  have fine: "list_all (control_fine room) cs" "partial_len (Some (op, a)) + room \<le> m"
    using Cons.prems(1,2) by (auto simp: pt part_fine_def room_def partial_len_def)
  have c: "feed_bytes m (Some (op, a)) (encode_parts (pt # parts) @ rest) =
     (control_events cs @ fst (feed_bytes m (Some (op, a)) (server_frame OpContinuation (parts = []) q @ encode_parts parts @ rest)),
      snd (feed_bytes m (Some (op, a)) (server_frame OpContinuation (parts = []) q @ encode_parts parts @ rest)))"
    using feed_controls [OF fine Cons.prems(3)] by (simp add: pt)
  have step: "one_frame m (Some (op, a)) (server_frame OpContinuation (parts = []) q @ encode_parts parts @ rest) =
      data_frame OpContinuation (parts = []) q (Some (op, a)) (encode_parts parts @ rest)"
    using server_frame_step [of q OpContinuation "parts = []" "Some (op, a)" m] Cons.prems(2,3)
    by (simp add: is_control_iff partial_len_def pt)
  show ?case
  proof (cases "parts = []")
    case True
    then show ?thesis using c step by (simp add: pt data_frame_def feed_bytes_unfold(4) message_event_def)
  next
    case False
    then have "feed_bytes m (Some (op, a)) (server_frame OpContinuation (parts = []) q @ encode_parts parts @ rest) =
        feed_bytes m (Some (op, a @ q)) (encode_parts parts @ rest)"
      using step by (simp add: data_frame_def feed_bytes_unfold(3))
    moreover have "list_all (part_fine (m - length ((a @ q) @ concat (map snd parts)))) parts"
        "length ((a @ q) @ concat (map snd parts)) \<le> m"
      using Cons.prems(1,2) by (simp_all add: pt)
    ultimately show ?thesis using c Cons.IH [of "a @ q"] Cons.prems(3) False by (simp add: pt)
  qed
qed simp

lemma feed_sent:
  assumes "sendable m s" "m < 2 ^ 63"
  shows "feed_bytes m None (encode_sent s @ rest) = (events_of s @ fst (feed_bytes m None rest), snd (feed_bytes m None rest))"
proof (cases s)
  case (SentControl op c)
  then show ?thesis
    using feed_controls [of m "[(op, c)]" None m rest] assms
    by (simp add: encode_controls_def control_events_def partial_len_def)
next
  case (SentMessage op q parts)
  have nc: "\<not> is_control op" "op \<noteq> OpContinuation" using assms SentMessage by (auto simp: is_control_iff)
  have step: "one_frame m None (server_frame op (parts = []) q @ encode_parts parts @ rest) =
      data_frame op (parts = []) q None (encode_parts parts @ rest)"
    using server_frame_step [of q op "parts = []" None m] assms SentMessage nc by (simp add: partial_len_def)
  show ?thesis
  proof (cases "parts = []")
    case True
    then show ?thesis using step nc SentMessage
      by (simp add: data_frame_def feed_bytes_unfold(4) message_event_def)
  next
    case False
    then show ?thesis using step nc SentMessage feed_parts [of m q parts op rest] assms
      by (simp add: data_frame_def feed_bytes_unfold(3))
  qed
qed

lemma feed_all_sent:
  assumes "list_all (sendable m) items" "m < 2 ^ 63"
  shows "feed_bytes m None (concat (map encode_sent items)) = (concat (map events_of items), NeedMore, None, [])"
  using assms(1)
proof (induction items)
  case Nil
  then show ?case by (simp add: nothing_to_feed)
next
  case (Cons s items)
  then show ?case using feed_sent [OF _ assms(2), of s] by simp
qed

section \<open>Properties\<close>

text \<open>
  C33: Chunking does not matter.  However the bytes of a stream are cut into transport reads, the reader
  delivers the events that the stream read frame by frame has, in the same order, and ends in the
  same status; with \<open>writable_tail\<close> and \<open>commit\<close> instead of \<open>append\<close> it is in the same state.
\<close>

theorem reader_ignores_chunking:
  "fst (feed_chunks (new_reader m) cs) = fst (feed_bytes m None (concat cs)) \<and>
   fst (snd (feed_chunks (new_reader m) cs)) = fst (snd (feed_bytes m None (concat cs))) \<and>
   (concat cs = concat ds \<longrightarrow> fst (feed_chunks (new_reader m) cs) = fst (feed_chunks (new_reader m) ds) \<and>
      fst (snd (feed_chunks (new_reader m) cs)) = fst (snd (feed_chunks (new_reader m) ds))) \<and>
   reader_commit (writable_tail r (bytes @ junk)) (length bytes) (length bytes + length junk) = reader_append r bytes"
proof -
  have "fst (feed_chunks (new_reader m) xs) = fst (feed_bytes m None (concat xs))"
    "fst (snd (feed_chunks (new_reader m) xs)) = fst (snd (feed_bytes m None (concat xs)))" for xs
    using feed_chunks_new [of m xs] by (cases "feed_chunks (new_reader m) xs"; auto)+
  then show ?thesis by (simp add: commit_is_append)
qed

lemma reader_ignores_chunking_witness:
  "concat [[0x81, 0x01], [0x41 :: u8]] = concat [[0x81, 0x01, 0x41]] \<and>
   fst (feed_chunks (new_reader 10) [[0x81, 0x01], [0x41]]) = fst (feed_chunks (new_reader 10) [[0x81, 0x01, 0x41]])"
  using reader_ignores_chunking [of 10 "[[0x81, 0x01], [0x41]]" "[[0x81, 0x01, 0x41]]" "new_reader 10" "[]" "[]"]
  by (auto simp del: feed_chunks.simps)

text \<open>
  C34: What a conforming server sends is what the user gets.  A sequence of text and binary messages, each
  in one or more frames with control frames between them, and of control frames on their own, cut into reads in
  any way, comes out as exactly those messages and control events, and the reader then waits for more.
\<close>

theorem reader_delivers_what_was_sent:
  assumes "list_all (sendable m) items" "m < 2 ^ 63" "concat cs = concat (map encode_sent items)"
  shows "fst (feed_chunks (new_reader m) cs) = concat (map events_of items) \<and>
         fst (snd (feed_chunks (new_reader m) cs)) = NeedMore"
  using feed_chunks_new(1,2) [of m cs] feed_all_sent [OF assms(1,2)] assms(3)
  by (cases "feed_chunks (new_reader m) cs") auto

lemma reader_delivers_what_was_sent_witness:
  "fst (feed_chunks (new_reader 10) [[0x01, 0x01, 0x41, 0x89], [0x00, 0x80, 0x01], [0x42]]) =
     [(GotPing, \<lparr>ev_opcode = OpPing, ev_payload = [], ev_close_code = 1005\<rparr>),
      (GotMessage, \<lparr>ev_opcode = OpText, ev_payload = [0x41, 0x42], ev_close_code = 1005\<rparr>)]"
proof -
  define items where "items = [SentMessage OpText [0x41] [([(OpPing, [])], [0x42])]]"
  have "list_all (sendable 10) items"
    by (simp add: items_def part_fine_def control_fine_def is_control_iff)
  moreover have "concat [[0x01, 0x01, 0x41, 0x89], [0x00, 0x80, 0x01], [0x42]] = concat (map encode_sent items)"
    by (simp add: items_def encode_controls_def server_frame_def server_header_def header_bytes_def length_bytes_def opcode_value_def)
  ultimately have "fst (feed_chunks (new_reader 10) [[0x01, 0x01, 0x41, 0x89], [0x00, 0x80, 0x01], [0x42]]) =
      concat (map events_of items)"
    using reader_delivers_what_was_sent [of 10 items "[[0x01, 0x01, 0x41, 0x89], [0x00, 0x80, 0x01], [0x42]]"] by simp
  then show ?thesis
    by (simp add: items_def control_events_def control_result_def message_event_def close_value_def)
qed

text \<open>
  C35: The ceiling holds and a failure sticks.  Whatever bytes arrive, no message delivered and no message
  under assembly is longer than the configured maximum; and once the reader has latched a failure, every
  further call reports it, whatever is appended, until \<open>reset\<close>.
\<close>

theorem reader_ceiling_and_latch:
  "(\<forall>(st, ev) \<in> set (fst (feed_chunks (new_reader m) cs)). length (ev_payload ev) \<le> m) \<and>
   (fst (snd (feed_chunks (new_reader m) cs)) = NeedMore \<longrightarrow>
      length (assembled (snd (snd (feed_chunks (new_reader m) cs)))) \<le> m) \<and>
   (reader_failed r \<longrightarrow> reader_next out (reader_append r bytes) = (failure r, out, reader_append r bytes) \<and>
      reader_failed (reader_append r bytes) \<and> \<not> reader_failed (reader_reset r))"
proof (cases "feed_chunks (new_reader m) cs")
  case (fields evs st r')
  have "failure (reader_append r bytes) = failure r"
    by (simp add: reader_append_def reader_compact_def consume_pending_def Let_def)
  then show ?thesis
    using feed_chunks_new [OF fields] fields
    by (auto simp: reader_ok_def reader_failed_def reader_next_def reader_reset_def)
qed

lemma reader_ceiling_and_latch_witness:
  "reader_failed ((new_reader 4)\<lparr>failure := MessageTooLarge\<rparr>) \<and>
   fst (reader_next event0 (reader_append ((new_reader 4)\<lparr>failure := MessageTooLarge\<rparr>) [0x81, 0x00])) = MessageTooLarge"
  using reader_ceiling_and_latch [of 4 "[]" "(new_reader 4)\<lparr>failure := MessageTooLarge\<rparr>" event0 "[0x81, 0x00]"]
  by (simp add: reader_failed_def new_reader_def)

text \<open>
  Two observations.  A close frame with a one-byte payload is answered with \<open>ReadError\<close> but not latched:
  the next call reads on.  And a control frame counts against the message ceiling while a message is under assembly.
\<close>

lemma one_byte_close_not_latched:
  "fst (reader_next event0 (reader_append (new_reader 100) [0x88, 0x01, 0x03, 0x81, 0x00])) = ReadError \<and>
   fst (reader_next event0 (snd (snd (reader_next event0 (reader_append (new_reader 100) [0x88, 0x01, 0x03, 0x81, 0x00]))))) =
     GotMessage"
  by (simp add: reader_next_def reader_append_def reader_compact_def consume_pending_def new_reader_def Let_def
      next_loop.simps parse_frame_header_def parse_length_def is_known_opcode_def opcode_of_def is_control_iff
      emit_control_def kMaxControlPayload_def)

lemma ping_counts_against_ceiling:
  "one_frame 100 (Some (OpText, replicate 100 0)) (server_frame OpPing True [0x41]) = FFail MessageTooLarge"
  by (simp add: one_frame_def server_frame_def server_header_def header_bytes_def length_bytes_def opcode_value_def
      parse_frame_header_def parse_length_def is_known_opcode_def opcode_of_def is_control_iff kMaxControlPayload_def
      partial_len_def)

end
