(* ===== verification/Sha1.thy ===== *)
theory Sha1
  imports Crc
begin

text \<open>
  The digest and the encoding of the websocket handshake, \<open>include/crossbook/net/handshake.hpp\<close>: \<open>sha1\<close> and
  \<open>base64_encode\<close>.  The code pads the message implicitly, through \<open>byte_at\<close>, and keeps the message
  schedule in an array; the specification \<open>sha1_fips\<close> is the text of FIPS 180-4: explicit padding,
  blocks of sixteen words, the functions Ch, Parity and Maj.  \<open>base64_decode\<close> is the reference
  decoder of RFC 4648.
\<close>

section \<open>SHA-1\<close>

definition rotl32 :: "u32 \<Rightarrow> nat \<Rightarrow> u32" where
  "rotl32 v bits = or (push_bit bits v) (drop_bit (32 - bits) v)"

definition sha_padded_len :: "nat \<Rightarrow> nat" where
  "sha_padded_len n = ((n + 8) div 64 + 1) * 64"

definition sha_byte_at :: "u8 list \<Rightarrow> nat \<Rightarrow> u8" where
  "sha_byte_at data i =
     (if i < length data then data ! i
      else if i = length data then 0x80
      else if i \<ge> sha_padded_len (length data) - 8 then
        (let shift = (sha_padded_len (length data) - 1 - i) * 8; bit_len = (of_nat (length data * 8) :: u64)
         in ucast (drop_bit shift bit_len))
      else 0)"

definition sha_word :: "u8 list \<Rightarrow> nat \<Rightarrow> u32" where
  "sha_word data p =
     or (or (or (push_bit 24 (ucast (sha_byte_at data p))) (push_bit 16 (ucast (sha_byte_at data (p + 1)))))
            (push_bit 8 (ucast (sha_byte_at data (p + 2))))) (ucast (sha_byte_at data (p + 3)))"

text \<open>The schedule array is filled from the front, so what is filled of it is a list.\<close>

definition sha_extend :: "nat \<Rightarrow> u32 list \<Rightarrow> u32 list" where
  "sha_extend i w = w @ [rotl32 (xor (xor (xor (w ! (i - 3)) (w ! (i - 8))) (w ! (i - 14))) (w ! (i - 16))) 1]"

definition sha_schedule :: "u8 list \<Rightarrow> nat \<Rightarrow> u32 list" where
  "sha_schedule data chunk = fold sha_extend [16..<80] (map (\<lambda>i. sha_word data (chunk + i * 4)) [0..<16])"

record sha_state =
  sha_a :: u32
  sha_b :: u32
  sha_c :: u32
  sha_d :: u32
  sha_e :: u32

definition sha_init :: sha_state where
  "sha_init = \<lparr>sha_a = 0x67452301, sha_b = 0xEFCDAB89, sha_c = 0x98BADCFE, sha_d = 0x10325476, sha_e = 0xC3D2E1F0\<rparr>"

definition sha_round :: "u32 list \<Rightarrow> nat \<Rightarrow> sha_state \<Rightarrow> sha_state" where
  "sha_round w i s =
     (let b = sha_b s; c = sha_c s; d = sha_d s;
          (f, k) = (if i < 20 then (or (and b c) (and (not b) d), 0x5A827999)
                    else if i < 40 then (xor (xor b c) d, 0x6ED9EBA1)
                    else if i < 60 then (or (or (and b c) (and b d)) (and c d), 0x8F1BBCDC)
                    else (xor (xor b c) d, 0xCA62C1D6));
          temp = rotl32 (sha_a s) 5 + f + sha_e s + k + w ! i
      in \<lparr>sha_a = temp, sha_b = sha_a s, sha_c = rotl32 b 30, sha_d = c, sha_e = d\<rparr>)"

definition sha_chunk :: "u8 list \<Rightarrow> nat \<Rightarrow> sha_state \<Rightarrow> sha_state" where
  "sha_chunk data chunk h =
     (let s = fold (sha_round (sha_schedule data chunk)) [0..<80] h
      in \<lparr>sha_a = sha_a h + sha_a s, sha_b = sha_b h + sha_b s, sha_c = sha_c h + sha_c s,
          sha_d = sha_d h + sha_d s, sha_e = sha_e h + sha_e s\<rparr>)"

definition be32_bytes :: "u32 \<Rightarrow> u8 list" where
  "be32_bytes x = [ucast (drop_bit 24 x), ucast (drop_bit 16 x), ucast (drop_bit 8 x), ucast x]"

definition sha1 :: "u8 list \<Rightarrow> u8 list" where
  "sha1 data =
     (let h = fold (\<lambda>k. sha_chunk data (k * 64)) [0..<sha_padded_len (length data) div 64] sha_init
      in be32_bytes (sha_a h) @ be32_bytes (sha_b h) @ be32_bytes (sha_c h) @ be32_bytes (sha_d h) @ be32_bytes (sha_e h))"

section \<open>FIPS 180-4\<close>

definition fips_pad :: "u8 list \<Rightarrow> u8 list" where
  "fips_pad m =
     m @ [0x80] @ replicate ((119 - length m mod 64) mod 64) 0 @
     map (\<lambda>s. ucast (drop_bit s (of_nat (8 * length m) :: u64))) [56, 48, 40, 32, 24, 16, 8, 0]"

definition be_word :: "u8 list \<Rightarrow> u32" where
  "be_word bs = fold (\<lambda>b acc. or (push_bit 8 acc) (ucast b)) bs 0"

definition fips_M :: "u8 list \<Rightarrow> nat \<Rightarrow> nat \<Rightarrow> u32" where
  "fips_M padded i t = be_word (take 4 (drop (64 * i + 4 * t) padded))"

fun fips_W :: "(nat \<Rightarrow> u32) \<Rightarrow> nat \<Rightarrow> u32" where
  "fips_W M t =
     (if t < 16 then M t
      else word_rotl 1 (xor (xor (xor (fips_W M (t - 3)) (fips_W M (t - 8))) (fips_W M (t - 14))) (fips_W M (t - 16))))"

declare fips_W.simps [simp del]

definition fips_Ch :: "u32 \<Rightarrow> u32 \<Rightarrow> u32 \<Rightarrow> u32" where "fips_Ch x y z = xor (and x y) (and (not x) z)"
definition fips_Parity :: "u32 \<Rightarrow> u32 \<Rightarrow> u32 \<Rightarrow> u32" where "fips_Parity x y z = xor x (xor y z)"
definition fips_Maj :: "u32 \<Rightarrow> u32 \<Rightarrow> u32 \<Rightarrow> u32" where "fips_Maj x y z = xor (and x y) (xor (and x z) (and y z))"

definition fips_f :: "nat \<Rightarrow> u32 \<Rightarrow> u32 \<Rightarrow> u32 \<Rightarrow> u32" where
  "fips_f t = (if t < 20 then fips_Ch else if 40 \<le> t \<and> t < 60 then fips_Maj else fips_Parity)"

definition fips_K :: "nat \<Rightarrow> u32" where
  "fips_K t = [0x5A827999, 0x6ED9EBA1, 0x8F1BBCDC, 0xCA62C1D6] ! (t div 20)"

definition fips_round :: "(nat \<Rightarrow> u32) \<Rightarrow> nat \<Rightarrow> u32 list \<Rightarrow> u32 list" where
  "fips_round W t H =
     (case H of [a, b, c, d, e] \<Rightarrow> [word_rotl 5 a + fips_f t b c d + e + fips_K t + W t, a, word_rotl 30 b, c, d] | _ \<Rightarrow> H)"

definition fips_block :: "(nat \<Rightarrow> u32) \<Rightarrow> u32 list \<Rightarrow> u32 list" where
  "fips_block M H = map2 (+) H (fold (fips_round (fips_W M)) [0..<80] H)"

definition sha1_fips :: "u8 list \<Rightarrow> u8 list" where
  "sha1_fips m =
     concat (map be32_bytes
       (fold (\<lambda>i. fips_block (fips_M (fips_pad m) i)) [0..<length (fips_pad m) div 64]
         [0x67452301, 0xEFCDAB89, 0x98BADCFE, 0x10325476, 0xC3D2E1F0]))"

section \<open>The digest is the standard's\<close>

lemma rotl32_word_rotl:
  assumes "0 < k" "k < 32"
  shows "rotl32 v k = word_rotl k v"
proof (rule bit_word_eqI)
  fix n assume n: "n < LENGTH(32)"
  show "bit (rotl32 v k) n = bit (word_rotl k v) n"
  proof (cases "k \<le> n")
    case True
    have "\<not> bit v (32 - k + n)" using bit_imp_le_length [of v "32 - k + n"] True assms by auto
    moreover have "(n + (32 - k)) mod 32 = n - k"
    proof -
      have e: "n + (32 - k) = 32 + (n - k)" using True assms by simp
      show ?thesis unfolding e using n by (simp del: Nat.add_diff_assoc)
    qed
    ultimately show ?thesis using True n assms by (simp add: rotl32_def bit_simps)
  next
    case False
    then have m: "(n + (32 - k)) mod 32 = 32 - k + n" using n assms by (simp del: Nat.add_diff_assoc Nat.add_diff_assoc2)
    have km: "k mod 32 = k" using assms by simp
    have "bit (word_rotl k v) n = bit v (32 - k + n)"
      unfolding bit_word_rotl_iff using n m km by (simp del: Nat.add_diff_assoc Nat.add_diff_assoc2)
    moreover have "bit (rotl32 v k) n = bit v (32 - k + n)"
      using False by (simp add: rotl32_def bit_or_iff bit_push_bit_iff bit_drop_bit_eq del: Nat.add_diff_assoc Nat.add_diff_assoc2)
    ultimately show ?thesis by simp
  qed
qed

lemma choose_bits: "or (and b c) (and (not b) d) = fips_Ch b c d"
  by (auto intro!: bit_word_eqI simp: fips_Ch_def bit_simps)

lemma majority_bits: "or (or (and b c) (and b d)) (and c d) = fips_Maj b c d"
  by (auto intro!: bit_word_eqI simp: fips_Maj_def bit_simps)

lemma parity_bits: "xor (xor b c) d = fips_Parity b c d"
  by (simp add: fips_Parity_def ac_simps)

lemma padded_len_mod: "sha_padded_len n mod 64 = 0" "n + 9 \<le> sha_padded_len n" "sha_padded_len n \<le> n + 72"
  by (simp_all add: sha_padded_len_def)

lemma pad_zeros: "(119 - n mod 64) mod 64 + 9 + n = sha_padded_len n"
proof -
  have "n mod 64 < 64" "n = 64 * (n div 64) + n mod 64" by simp_all
  then obtain q r where qr: "r < 64" "n = 64 * q + r" by blast
  have "(n + 8) div 64 = q + (r + 8) div 64" using qr by simp
  moreover have "(r + 8) div 64 = (if r < 56 then 0 else 1)" using qr(1) by (auto simp: div_nat_eqI)
  moreover have "(119 - r) mod 64 = (if r < 56 then 55 - r else 119 - r)"
  proof (cases "r < 56")
    case True
    then have e: "119 - r = 64 + (55 - r)" by simp
    show ?thesis unfolding e using True by (simp del: Nat.add_diff_assoc Nat.diff_diff_right)
  qed (use qr in simp)
  ultimately show ?thesis using qr by (auto simp: sha_padded_len_def)
qed

lemma length_fips_pad: "length (fips_pad m) = sha_padded_len (length m)"
  using pad_zeros [of "length m"] by (simp add: fips_pad_def)

lemma shifts: "j < 8 \<Longrightarrow> (7 - j) * 8 = [56, 48, 40, 32, 24, 16, 8, 0 :: nat] ! j"
  by (auto simp: less_Suc_eq numeral_eq_Suc)

lemma byte_at_pad: "i < sha_padded_len (length m) \<Longrightarrow> sha_byte_at m i = fips_pad m ! i"
proof -
  assume i: "i < sha_padded_len (length m)"
  define z where "z = (119 - length m mod 64) mod 64"
  have len: "sha_padded_len (length m) = length m + 1 + z + 8" using pad_zeros [of "length m"] by (simp add: z_def)
  have split: "fips_pad m = (m @ [0x80]) @ replicate z 0 @
      map (\<lambda>s. ucast (drop_bit s (of_nat (8 * length m) :: u64))) [56, 48, 40, 32, 24, 16, 8, 0]"
    by (simp add: fips_pad_def z_def)
  consider "i < length m" | "i = length m" | "length m < i" "i < length m + 1 + z"
    | j where "i = length m + 1 + z + j" "j < 8"
    using i len that(4) [of "i - (length m + 1 + z)"] by linarith
  then show ?thesis
  proof cases
    case 4
    then have "\<not> i < length m" "i \<noteq> length m" "\<not> i < sha_padded_len (length m) - 8"
        "sha_padded_len (length m) - 1 - i = 7 - j"
      using len by auto
    then have "sha_byte_at m i = ucast (drop_bit ((7 - j) * 8) (of_nat (length m * 8) :: u64))"
      by (simp add: sha_byte_at_def Let_def)
    also have "(7 - j) * 8 = [56, 48, 40, 32, 24, 16, 8, 0] ! j"
      using shifts [OF 4(2)] .
    finally show ?thesis using 4 unfolding split
      by (simp add: nth_append mult.commute del: list.map)
  qed (use len in \<open>auto simp: sha_byte_at_def split nth_append nth_Cons'\<close>)
qed

lemma word_from_pad:
  assumes "p + 4 \<le> sha_padded_len (length m)"
  shows "sha_word m p = be_word (take 4 (drop p (fips_pad m)))"
proof -
  have "take 4 (drop p (fips_pad m)) = map ((!) (fips_pad m)) [p, p + 1, p + 2, p + 3]"
    using assms by (intro nth_equalityI) (auto simp: length_fips_pad less_Suc_eq numeral_eq_Suc)
  then have "be_word (take 4 (drop p (fips_pad m))) =
      be_word [sha_byte_at m p, sha_byte_at m (p + 1), sha_byte_at m (p + 2), sha_byte_at m (p + 3)]"
    using assms by (simp add: byte_at_pad)
  also have "\<dots> = sha_word m p"
    unfolding be_word_def sha_word_def by (auto intro!: bit_word_eqI simp: bit_simps)
  finally show ?thesis by simp
qed

lemma schedule_W:
  assumes "64 * k + 64 \<le> sha_padded_len (length m)" "t < 80"
  shows "sha_schedule m (k * 64) ! t = fips_W (fips_M (fips_pad m) k) t"
proof -
  define M where "M = fips_M (fips_pad m) k"
  define w0 where "w0 = map (\<lambda>i. sha_word m (k * 64 + i * 4)) [0..<16]"
  have w0: "w0 = map (fips_W M) [0..<16]"
  proof (rule nth_equalityI)
    show "w0 ! i = map (fips_W M) [0..<16] ! i" if "i < length w0" for i
      using that assms word_from_pad [of "k * 64 + i * 4" m]
      by (simp add: w0_def M_def fips_W.simps [of _ i] fips_M_def mult.commute)
  qed (simp add: w0_def)
  have step: "fold sha_extend [16..<16 + n] w0 = map (fips_W M) [0..<16 + n]" for n
  proof (induction n)
    case 0
    then show ?case by (simp add: w0)
  next
    case (Suc n)
    have "fips_W M (16 + n) = rotl32 (xor (xor (xor (fips_W M (16 + n - 3)) (fips_W M (16 + n - 8))) (fips_W M (16 + n - 14))) (fips_W M n)) 1"
      by (subst fips_W.simps) (simp add: rotl32_word_rotl)
    moreover have u: "[16..<16 + Suc n] = [16..<16 + n] @ [16 + n]" "[0..<16 + Suc n] = [0..<16 + n] @ [16 + n]"
      unfolding add_Suc_right by (simp_all only: upt_Suc_append le_add1 le0)
    ultimately show ?case unfolding u using Suc by (simp add: sha_extend_def)
  qed
  show ?thesis using step [of 64] assms(2) by (simp add: sha_schedule_def w0_def [symmetric] M_def)
qed

definition sha_list :: "sha_state \<Rightarrow> u32 list" where
  "sha_list s = [sha_a s, sha_b s, sha_c s, sha_d s, sha_e s]"

lemma round_is_fips:
  assumes "i < 80" "w ! i = W i"
  shows "sha_list (sha_round w i s) = fips_round W i (sha_list s)"
proof -
  consider "i < 20" | "20 \<le> i" "i < 40" | "40 \<le> i" "i < 60" | "60 \<le> i" by linarith
  then show ?thesis
  proof cases
    case 1
    then show ?thesis using assms
      by (simp add: sha_round_def fips_round_def sha_list_def Let_def fips_f_def fips_K_def rotl32_word_rotl choose_bits)
  next
    case 2
    then have "i div 20 = 1" by simp
    then show ?thesis using assms 2
      by (simp add: sha_round_def fips_round_def sha_list_def Let_def fips_f_def fips_K_def rotl32_word_rotl parity_bits)
  next
    case 3
    then have "i div 20 = 2" by simp
    then show ?thesis using assms 3
      by (simp add: sha_round_def fips_round_def sha_list_def Let_def fips_f_def fips_K_def rotl32_word_rotl majority_bits)
  next
    case 4
    then have "i div 20 = 3" using assms(1) by simp
    then show ?thesis using assms 4
      by (simp add: sha_round_def fips_round_def sha_list_def Let_def fips_f_def fips_K_def rotl32_word_rotl parity_bits)
  qed
qed

lemma rounds_are_fips:
  assumes "\<And>i. i \<in> set is \<Longrightarrow> i < 80 \<and> w ! i = W i"
  shows "sha_list (fold (sha_round w) is s) = fold (fips_round W) is (sha_list s)"
  using assms by (induction "is" arbitrary: s) (simp_all add: round_is_fips)

lemma chunk_is_fips:
  assumes "64 * k + 64 \<le> sha_padded_len (length m)"
  shows "sha_list (sha_chunk m (k * 64) h) = fips_block (fips_M (fips_pad m) k) (sha_list h)"
proof -
  have "sha_list (fold (sha_round (sha_schedule m (k * 64))) [0..<80] h) =
      fold (fips_round (fips_W (fips_M (fips_pad m) k))) [0..<80] (sha_list h)"
    by (rule rounds_are_fips) (simp add: schedule_W [OF assms])
  moreover have "sha_list (sha_chunk m (k * 64) h) =
      map2 (+) (sha_list h) (sha_list (fold (sha_round (sha_schedule m (k * 64))) [0..<80] h))"
    by (simp add: sha_chunk_def Let_def sha_list_def)
  ultimately show ?thesis by (simp add: fips_block_def)
qed

lemma chunks_are_fips:
  assumes "\<And>k. k \<in> set ks \<Longrightarrow> 64 * k + 64 \<le> sha_padded_len (length m)"
  shows "sha_list (fold (\<lambda>k. sha_chunk m (k * 64)) ks h) = fold (\<lambda>i. fips_block (fips_M (fips_pad m) i)) ks (sha_list h)"
  using assms by (induction ks arbitrary: h) (simp_all add: chunk_is_fips)

section \<open>Base64\<close>

definition kAlphabet :: string where
  "kAlphabet = ''ABCDEFGHIJKLMNOPQRSTUVWXYZabcdefghijklmnopqrstuvwxyz0123456789+/''"

definition alphabet_at :: "u32 \<Rightarrow> char" where
  "alphabet_at x = kAlphabet ! unat (and x 0x3F)"

definition b64_block :: "u8 \<Rightarrow> u8 \<Rightarrow> u8 \<Rightarrow> u32" where
  "b64_block a b c = or (or (push_bit 16 (ucast a)) (push_bit 8 (ucast b))) (ucast c)"

fun base64_encode :: "u8 list \<Rightarrow> string" where
  "base64_encode (a # b # c # rest) =
     (let block = b64_block a b c in
      [alphabet_at (drop_bit 18 block), alphabet_at (drop_bit 12 block), alphabet_at (drop_bit 6 block), alphabet_at block]
      @ base64_encode rest)"
| "base64_encode [a, b] =
     (let block = or (push_bit 16 (ucast a)) (push_bit 8 (ucast b)) in
      [alphabet_at (drop_bit 18 block), alphabet_at (drop_bit 12 block), alphabet_at (drop_bit 6 block), CHR ''=''])"
| "base64_encode [a] =
     (let block = push_bit 16 (ucast a) in
      [alphabet_at (drop_bit 18 block), alphabet_at (drop_bit 12 block), CHR ''='', CHR ''=''])"
| "base64_encode [] = []"

text \<open>The reference decoder: six bits per character, eight per byte.\<close>

fun index_of :: "char \<Rightarrow> string \<Rightarrow> nat option" where
  "index_of c [] = None"
| "index_of c (x # xs) = (if x = c then Some 0 else map_option Suc (index_of c xs))"

definition sextet :: "char \<Rightarrow> u32 option" where
  "sextet c = map_option of_nat (index_of c kAlphabet)"

fun base64_decode :: "string \<Rightarrow> u8 list option" where
  "base64_decode (p # q # r # s # rest) =
     (if s = CHR ''='' then
        (if rest \<noteq> [] then None
         else if r = CHR ''='' then
           (case (sextet p, sextet q) of
              (Some x, Some y) \<Rightarrow> Some [ucast (drop_bit 4 (or (push_bit 6 x) y))]
            | _ \<Rightarrow> None)
         else
           (case (sextet p, sextet q, sextet r) of
              (Some x, Some y, Some z) \<Rightarrow>
                let v = or (push_bit 12 x) (or (push_bit 6 y) z) in Some [ucast (drop_bit 10 v), ucast (drop_bit 2 v)]
            | _ \<Rightarrow> None))
      else
        (case (sextet p, sextet q, sextet r, sextet s, base64_decode rest) of
           (Some x, Some y, Some z, Some u, Some bs) \<Rightarrow>
             let v = or (push_bit 18 x) (or (push_bit 12 y) (or (push_bit 6 z) u))
             in Some (ucast (drop_bit 16 v) # ucast (drop_bit 8 v) # ucast v # bs)
         | _ \<Rightarrow> None))"
| "base64_decode [] = Some []"
| "base64_decode _ = None"

lemma index_of_nth: "distinct xs \<Longrightarrow> i < length xs \<Longrightarrow> index_of (xs ! i) xs = Some i"
  by (induction xs arbitrary: i) (auto simp: nth_Cons split: nat.splits)

lemma alphabet_facts: "distinct kAlphabet" "length kAlphabet = 64" "CHR ''='' \<notin> set kAlphabet"
    "set kAlphabet \<inter> {CHR '' '', CHR 0x09, CHR 0x0D, CHR 0x0A, CHR '':''} = {}"
  by (simp_all add: kAlphabet_def)

lemma sextet_small: "unat (and x (0x3F :: u32)) < 64"
proof -
  have "and x 0x3F = take_bit 6 x" using take_bit_eq_mask [of 6 x] by (simp add: mask_eq_exp_minus_1)
  then show ?thesis by (simp add: unsigned_take_bit_eq take_bit_nat_def)
qed

lemma sextet_alphabet: "sextet (alphabet_at x) = Some (and x 0x3F)"
  using index_of_nth [OF alphabet_facts(1), of "unat (and x 0x3F)"] sextet_small [of x]
  by (simp add: sextet_def alphabet_at_def alphabet_facts(2))

lemma alphabet_in: "alphabet_at x \<in> set kAlphabet"
  using sextet_small [of x] by (simp add: alphabet_at_def alphabet_facts(2))

lemma alphabet_not_pad: "alphabet_at x \<noteq> CHR ''=''" "CHR ''='' \<noteq> alphabet_at x"
  using alphabet_in [of x] alphabet_facts(3) by metis+

lemma sextet_take: "and x (0x3F :: u32) = take_bit 6 x"
  using take_bit_eq_mask [of 6 x] by (simp add: mask_eq_exp_minus_1)

lemma byte_beyond: "8 \<le> n \<Longrightarrow> bit (w :: u8) n = False"
  by (auto dest: bit_imp_le_length)

lemma join_bits:
  assumes "k + 6 \<le> 32"
  shows "or (push_bit k (take_bit 6 (drop_bit k x))) (take_bit k x) = take_bit (k + 6) (x :: u32)"
proof (rule bit_word_eqI)
  fix n assume n: "n < LENGTH(32)"
  show "bit (or (push_bit k (take_bit 6 (drop_bit k x))) (take_bit k x)) n = bit (take_bit (k + 6) x) n"
    using n by (cases "n < k") (auto simp: bit_simps)
qed

lemma join_four:
  "or (push_bit 18 (take_bit 6 (drop_bit 18 x))) (or (push_bit 12 (take_bit 6 (drop_bit 12 x)))
     (or (push_bit 6 (take_bit 6 (drop_bit 6 x))) (take_bit 6 x))) = take_bit 24 (x :: u32)"
  using join_bits [of 6 x] join_bits [of 12 x] join_bits [of 18 x] by simp

lemma block_bytes:
  "ucast (drop_bit 16 (take_bit 24 (b64_block a b c))) = a"
  "ucast (drop_bit 8 (take_bit 24 (b64_block a b c))) = b"
  "ucast (take_bit 24 (b64_block a b c)) = c"
  unfolding b64_block_def by (auto intro!: bit_word_eqI simp: bit_simps byte_beyond)

lemma two_bytes_block:
  fixes a b :: u8
  defines "x \<equiv> or (push_bit 16 (ucast a)) (push_bit 8 (ucast b)) :: u32"
  defines "v \<equiv> or (push_bit 12 (take_bit 6 (drop_bit 18 x))) (or (push_bit 6 (take_bit 6 (drop_bit 12 x))) (take_bit 6 (drop_bit 6 x)))"
  shows "ucast (drop_bit 10 v) = a" "ucast (drop_bit 2 v) = b"
proof -
  have "v = take_bit 18 (drop_bit 6 x)"
    using join_bits [of 6 "drop_bit 6 x"] join_bits [of 12 "drop_bit 6 x"] by (simp add: v_def)
  then show "ucast (drop_bit 10 v) = a" "ucast (drop_bit 2 v) = b"
    unfolding x_def by (auto intro!: bit_word_eqI simp: bit_simps byte_beyond)
qed

lemma one_byte_block:
  fixes a :: u8
  defines "x \<equiv> push_bit 16 (ucast a) :: u32"
  shows "ucast (drop_bit 4 (or (push_bit 6 (take_bit 6 (drop_bit 18 x))) (take_bit 6 (drop_bit 12 x)))) = a"
proof -
  have "or (push_bit 6 (take_bit 6 (drop_bit 18 x))) (take_bit 6 (drop_bit 12 x)) = take_bit 12 (drop_bit 12 x)"
    using join_bits [of 6 "drop_bit 12 x"] by simp
  then show ?thesis
    unfolding x_def by (auto intro!: bit_word_eqI simp: bit_simps byte_beyond)
qed

lemma decode_encode: "base64_decode (base64_encode bs) = Some bs"
proof (induction bs rule: base64_encode.induct)
  case (1 a b c rest)
  then show ?case
    by (simp add: Let_def alphabet_not_pad sextet_alphabet sextet_take join_four block_bytes)
next
  case (2 a b)
  show ?case using two_bytes_block [of a b]
    by (simp add: Let_def alphabet_not_pad sextet_alphabet sextet_take)
next
  case (3 a)
  show ?case using one_byte_block [of a]
    by (simp add: Let_def alphabet_not_pad sextet_alphabet sextet_take)
qed simp

lemma base64_length: "length (base64_encode bs) = (length bs + 2) div 3 * 4"
proof (induction bs rule: base64_encode.induct)
  case (1 a b c rest)
  have "(length (a # b # c # rest) + 2) div 3 = Suc ((length rest + 2) div 3)"
    using div_add_self1 [of 3 "length rest + 2"] by simp
  then show ?case using 1 by (simp add: Let_def)
qed (simp_all add: Let_def)

lemma base64_chars: "set (base64_encode bs) \<subseteq> insert CHR ''='' (set kAlphabet)"
  by (induction bs rule: base64_encode.induct) (auto simp: Let_def alphabet_in)

section \<open>Properties\<close>

text \<open>
  C39: The digest is SHA-1.  For every message, \<open>sha1\<close>, with its implicit padding, its schedule array and its
  bit tricks, computes the digest that FIPS 180-4 defines.
\<close>

theorem sha1_is_fips: "sha1 data = sha1_fips data"
proof -
  have "64 * k + 64 \<le> sha_padded_len (length data)" if "k < sha_padded_len (length data) div 64" for k
    using that padded_len_mod(1) [of "length data"] by (simp add: sha_padded_len_def)
  then have "sha_list (fold (\<lambda>k. sha_chunk data (k * 64)) [0..<sha_padded_len (length data) div 64] sha_init) =
      fold (\<lambda>i. fips_block (fips_M (fips_pad data) i)) [0..<length (fips_pad data) div 64] (sha_list sha_init)"
    unfolding length_fips_pad by (intro chunks_are_fips) simp
  then have "concat (map be32_bytes (sha_list (fold (\<lambda>k. sha_chunk data (k * 64)) [0..<sha_padded_len (length data) div 64] sha_init))) =
      concat (map be32_bytes (fold (\<lambda>i. fips_block (fips_M (fips_pad data) i)) [0..<length (fips_pad data) div 64] (sha_list sha_init)))"
    by (simp only:)
  moreover have "sha_list sha_init = [0x67452301, 0xEFCDAB89, 0x98BADCFE, 0x10325476, 0xC3D2E1F0]"
    by (simp add: sha_list_def sha_init_def)
  ultimately show ?thesis
    by (simp add: sha1_def sha1_fips_def Let_def sha_list_def)
qed

text \<open>
  Base64 loses nothing.  The reference decoder reads every encoding back to the bytes it was made from; an
  encoding has four characters for every three bytes begun, all of them letters, digits, plus, slash or padding.
\<close>

theorem base64_roundtrip:
  "base64_decode (base64_encode bs) = Some bs \<and> length (base64_encode bs) = (length bs + 2) div 3 * 4 \<and>
   set (base64_encode bs) \<subseteq> insert CHR ''='' (set kAlphabet)"
  using decode_encode base64_length base64_chars by blast

end
