(* ===== verification/Text_View.thy ===== *)
theory Text_View
  imports Fixed_Decimal
begin

text \<open>
  What the text parsers of the library use of \<open>std::string_view\<close>: \<open>starts_with\<close>, \<open>find\<close> and \<open>rfind\<close> of a
  character, \<open>find\<close> of a substring, and removing characters from both ends.  \<open>npos\<close> is \<open>None\<close>.
\<close>

section \<open>Searching\<close>

definition find_char :: "char \<Rightarrow> string \<Rightarrow> nat option" where
  "find_char c s = (let k = length (takeWhile (\<lambda>x. x \<noteq> c) s) in if k < length s then Some k else None)"

definition rfind_char :: "char \<Rightarrow> string \<Rightarrow> nat option" where
  "rfind_char c s = map_option (\<lambda>k. length s - 1 - k) (find_char c (rev s))"

definition starts_with :: "string \<Rightarrow> string \<Rightarrow> bool" where
  "starts_with pat s \<longleftrightarrow> take (length pat) s = pat"

fun find_text :: "string \<Rightarrow> string \<Rightarrow> nat option" where
  "find_text pat s =
     (if starts_with pat s then Some 0
      else case s of [] \<Rightarrow> None | _ # t \<Rightarrow> map_option Suc (find_text pat t))"

declare find_text.simps [simp del]

definition strip_front :: "(char \<Rightarrow> bool) \<Rightarrow> string \<Rightarrow> string" where
  "strip_front P s = dropWhile P s"

definition strip_back :: "(char \<Rightarrow> bool) \<Rightarrow> string \<Rightarrow> string" where
  "strip_back P s = rev (dropWhile P (rev s))"

section \<open>Facts\<close>

lemma find_char_Some:
  assumes "find_char c s = Some k"
  shows "k < length s" "s ! k = c" "c \<notin> set (take k s)"
proof -
  have k: "k = length (takeWhile (\<lambda>x. x \<noteq> c) s)" "k < length s"
    using assms by (auto simp: find_char_def Let_def split: if_splits)
  show "k < length s" by (rule k)
  show "s ! k = c" using nth_length_takeWhile [of "\<lambda>x. x \<noteq> c" s] k by simp
  show "c \<notin> set (take k s)" unfolding k(1) by (simp add: takeWhile_eq_take [symmetric]) (auto dest: set_takeWhileD)
qed

lemma find_char_None: "find_char c s = None \<longleftrightarrow> c \<notin> set s"
proof
  assume "find_char c s = None"
  then have "length (takeWhile (\<lambda>x. x \<noteq> c) s) = length s"
    using length_takeWhile_le [of "\<lambda>x. x \<noteq> c" s] by (auto simp: find_char_def Let_def split: if_splits)
  then have "takeWhile (\<lambda>x. x \<noteq> c) s = s" by (metis takeWhile_eq_take take_all order_refl)
  then show "c \<notin> set s" by (metis (mono_tags) set_takeWhileD)
next
  assume "c \<notin> set s"
  then have t: "takeWhile (\<lambda>x. x \<noteq> c) s = s" by (auto simp: takeWhile_eq_all_conv)
  show "find_char c s = None" unfolding find_char_def t by simp
qed

lemma find_char_append: "c \<notin> set a \<Longrightarrow> find_char c (a @ c # b) = Some (length a)"
proof -
  assume "c \<notin> set a"
  then have "takeWhile (\<lambda>x. x \<noteq> c) (a @ c # b) = a" by (subst takeWhile_append2) auto
  then show ?thesis unfolding find_char_def by (simp only:) simp
qed

lemma find_char_append_absent: "c \<notin> set a \<Longrightarrow> find_char c (a @ b) = map_option (\<lambda>k. length a + k) (find_char c b)"
  by (auto simp: find_char_def Let_def takeWhile_append)

lemma rfind_char_append: "c \<notin> set b \<Longrightarrow> rfind_char c (a @ c # b) = Some (length a)"
  using find_char_append [of c "rev b" "rev a"] by (simp add: rfind_char_def)

lemma rfind_char_None: "rfind_char c s = None \<longleftrightarrow> c \<notin> set s"
  by (simp add: rfind_char_def find_char_None)

lemma rfind_char_Some:
  assumes "rfind_char c s = Some k"
  shows "k < length s" "s ! k = c" "c \<notin> set (drop (Suc k) s)"
proof -
  obtain j where j: "find_char c (rev s) = Some j" "k = length s - 1 - j"
    using assms by (auto simp: rfind_char_def)
  note f = find_char_Some [OF j(1)]
  show "k < length s" "s ! k = c" using f j(2) by (auto simp: rev_nth)
  have "Suc k = length s - j" using f(1) j(2) by simp
  then have "drop (Suc k) s = rev (take j (rev s))" by (simp add: take_rev)
  then show "c \<notin> set (drop (Suc k) s)" using f(3) by simp
qed

lemma starts_with_append [simp]: "starts_with p (p @ s)"
  by (simp add: starts_with_def)

lemma starts_with_iff: "starts_with p s \<longleftrightarrow> (\<exists>t. s = p @ t)"
  by (metis append_take_drop_id starts_with_append starts_with_def)

lemma find_text_Some:
  "find_text p s = Some k \<Longrightarrow> k \<le> length s \<and> starts_with p (drop k s) \<and> (\<forall>j < k. \<not> starts_with p (drop j s))"
proof (induction p s arbitrary: k rule: find_text.induct)
  case (1 p s)
  show ?case
  proof (cases "starts_with p s")
    case True
    then show ?thesis using 1(2) by (simp add: find_text.simps [of p s])
  next
    case False
    then obtain c t j where s: "s = c # t" "find_text p t = Some j" "k = Suc j"
      using 1(2) by (auto simp: find_text.simps [of p s] split: list.splits)
    have ih: "j \<le> length t \<and> starts_with p (drop j t) \<and> (\<forall>i < j. \<not> starts_with p (drop i t))"
      using 1(1) [OF False s(1) s(2)] .
    have "\<not> starts_with p (drop i s)" if "i < k" for i
      using that ih False s by (cases i) auto
    then show ?thesis using ih s by simp
  qed
qed

lemma find_text_None: "find_text p s = None \<longleftrightarrow> (\<forall>k \<le> length s. \<not> starts_with p (drop k s))"
proof (induction p s rule: find_text.induct)
  case (1 p s)
  show ?case
  proof (cases s)
    case Nil
    then show ?thesis by (simp add: find_text.simps [of p "[]"])
  next
    case (Cons c t)
    have split: "(\<forall>k \<le> length s. \<not> starts_with p (drop k s)) \<longleftrightarrow>
        \<not> starts_with p s \<and> (\<forall>k \<le> length t. \<not> starts_with p (drop k t))"
      unfolding Cons by (metis drop0 drop_Suc_Cons length_Cons not0_implies_Suc Suc_le_mono le0)
    show ?thesis unfolding split using 1 Cons by (cases "starts_with p s") (auto simp: find_text.simps [of p "c # t"])
  qed
qed

lemma find_text_unique:
  assumes "k \<le> length s" "starts_with p (drop k s)" "\<And>j. j < k \<Longrightarrow> \<not> starts_with p (drop j s)"
  shows "find_text p s = Some k"
proof (cases "find_text p s")
  case None
  then show ?thesis using assms by (auto simp: find_text_None)
next
  case (Some j)
  then show ?thesis using find_text_Some [OF Some] assms by (metis linorder_neqE_nat)
qed

lemma find_text_more:
  assumes "find_text p s = Some k"
  shows "find_text p (s @ t) = Some k"
proof (rule find_text_unique)
  note f = find_text_Some [OF assms]
  show "k \<le> length (s @ t)" using f by simp
  show "starts_with p (drop k (s @ t))" using f by (auto simp: starts_with_iff)
  obtain r where r: "drop k s = p @ r" using f by (auto simp: starts_with_iff)
  have l: "length p + k \<le> length s" using arg_cong [OF r, of length] f by auto
  show "\<not> starts_with p (drop j (s @ t))" if "j < k" for j
    using f that l by (auto simp: starts_with_def)
qed

lemma strip_back_append: "\<not> P c \<Longrightarrow> strip_back P (s @ [c]) = s @ [c]"
  by (simp add: strip_back_def)

lemma strip_none: "s = [] \<or> \<not> P (hd s) \<Longrightarrow> strip_front P s = s" "s = [] \<or> \<not> P (last s) \<Longrightarrow> strip_back P s = s"
  by (cases s; simp add: strip_front_def) (cases s rule: rev_cases; simp add: strip_back_def)

end
