(* ===== verification/Handshake.thy ===== *)
theory Handshake
  imports Sha1 Text_View
begin

text \<open>
  The websocket opening handshake, \<open>include/crossbook/net/handshake.hpp\<close>: the accept value, the request,
  the case-insensitive header lookup and the validation of the server's response.

  Two branches exist because the C++ has them.  The status code is accumulated in an \<open>int\<close>: a code that
  does not fit is undefined behaviour there and the branch \<open>HsUndefined\<close> here.  And the length of the header
  block, \<open>end - first_eol - 2\<close>, is a \<open>size_t\<close>: for a response without headers it wraps, and \<open>substr\<close> then
  takes everything that follows (\<open>header_block\<close>).
\<close>

section \<open>The accept value and the request\<close>

definition kWebSocketGuid :: string where "kWebSocketGuid = ''258EAFA5-E914-47DA-95CA-C5AB0DC85B11''"

definition websocket_accept_for :: "string \<Rightarrow> string" where
  "websocket_accept_for key = base64_encode (sha1 (bytes_of (key @ kWebSocketGuid)))"

definition crlf :: string where "crlf = [CHR 0x0D, CHR 0x0A]"

definition make_handshake_request :: "string \<Rightarrow> nat \<Rightarrow> string \<Rightarrow> string \<Rightarrow> bool \<Rightarrow> string" where
  "make_handshake_request host port path key secure =
     ''GET '' @ (if path = [] then ''/'' else path) @ '' HTTP/1.1'' @ crlf @
     ''Host: '' @ host @
     (let default_port = (if secure then 443 else 80) in
      if port \<noteq> default_port then '':'' @ write_decimal port [] else []) @
     crlf @
     ''Upgrade: websocket'' @ crlf @
     ''Connection: Upgrade'' @ crlf @
     ''Sec-WebSocket-Key: '' @ key @ crlf @
     ''Sec-WebSocket-Version: 13'' @ crlf @
     ''User-Agent: crossbook/0.2'' @ crlf @
     crlf"

section \<open>Headers\<close>

definition char_lower :: "char \<Rightarrow> char" where
  "char_lower c = (if CHR ''A'' \<le> c \<and> c \<le> CHR ''Z'' then char_of ((of_char c :: nat) - 65 + 97) else c)"

definition iequals :: "string \<Rightarrow> string \<Rightarrow> bool" where
  "iequals a b \<longleftrightarrow> length a = length b \<and> list_all2 (\<lambda>x y. char_lower x = char_lower y) a b"

fun icontains_from :: "string \<Rightarrow> string \<Rightarrow> bool" where
  "icontains_from hay needle =
     (if length hay < length needle then False
      else if iequals (take (length needle) hay) needle then True
      else case hay of [] \<Rightarrow> False | _ # t \<Rightarrow> icontains_from t needle)"

declare icontains_from.simps [simp del]

definition icontains :: "string \<Rightarrow> string \<Rightarrow> bool" where
  "icontains hay needle =
     (if needle = [] \<or> length hay < length needle then needle = [] else icontains_from hay needle)"

definition trim :: "string \<Rightarrow> string" where
  "trim s =
     strip_back (\<lambda>c. c = CHR '' '' \<or> c = CHR 0x09 \<or> c = CHR 0x0D)
       (strip_front (\<lambda>c. c = CHR '' '' \<or> c = CHR 0x09) s)"

function find_header :: "string \<Rightarrow> string \<Rightarrow> string" where
  "find_header headers name =
     (if headers = [] then []
      else
        (let eol = find_text crlf headers;
             line = (case eol of None \<Rightarrow> headers | Some e \<Rightarrow> take e headers);
             next = (case eol of None \<Rightarrow> [] | Some e \<Rightarrow> find_header (drop (e + 2) headers) name)
         in case find_char CHR '':'' line of
              Some colon \<Rightarrow> if iequals (trim (take colon line)) name then trim (drop (colon + 1) line) else next
            | None \<Rightarrow> next))"
  by pat_completeness auto
termination
  by (relation "measure (\<lambda>(headers, name). length headers)") (auto dest: find_text_Some)

declare find_header.simps [simp del]

section \<open>The response\<close>

datatype handshake_status = HsOk | HsIncomplete | HsNotSwitchingProtocols | HsNotUpgraded | HsBadAccept | HsUndefined

definition handshake_status_string :: "handshake_status \<Rightarrow> string" where
  "handshake_status_string s =
     (case s of HsOk \<Rightarrow> ''ok'' | HsIncomplete \<Rightarrow> ''incomplete'' | HsNotSwitchingProtocols \<Rightarrow> ''not_switching_protocols''
      | HsNotUpgraded \<Rightarrow> ''not_upgraded'' | HsBadAccept \<Rightarrow> ''bad_accept'' | HsUndefined \<Rightarrow> ''unknown'')"

record handshake_response =
  header_bytes :: nat
  status_code :: int

definition handshake_response0 :: handshake_response where
  "handshake_response0 = \<lparr>header_bytes = 0, status_code = 0\<rparr>"

datatype code_result = Code int | CodeNotADigit | CodeOverflow

definition int_max :: int where "int_max = 2147483647"

fun status_code_loop :: "string \<Rightarrow> int \<Rightarrow> code_result" where
  "status_code_loop [] code = Code code"
| "status_code_loop (c # cs) code =
     (if c = CHR '' '' then Code code
      else if \<not> is_digit c then CodeNotADigit
      else if code * 10 + int (digit_value c) > int_max then CodeOverflow
      else status_code_loop cs (code * 10 + int (digit_value c)))"

definition header_block :: "string \<Rightarrow> nat \<Rightarrow> nat \<Rightarrow> string" where
  "header_block response first_eol end_pos =
     (if end_pos < first_eol + 2 then drop (first_eol + 2) response
      else take (end_pos - first_eol - 2) (drop (first_eol + 2) response))"

definition check_headers :: "string \<Rightarrow> string \<Rightarrow> handshake_status" where
  "check_headers headers expected_accept =
     (if \<not> iequals (find_header headers ''upgrade'') ''websocket'' then HsNotUpgraded
      else if \<not> icontains (find_header headers ''connection'') ''upgrade'' then HsNotUpgraded
      else if find_header headers ''sec-websocket-accept'' \<noteq> expected_accept then HsBadAccept
      else HsOk)"

definition parse_handshake_response :: "string \<Rightarrow> string \<Rightarrow> handshake_response \<Rightarrow> handshake_status \<times> handshake_response" where
  "parse_handshake_response response expected_accept out =
     (case find_text (crlf @ crlf) response of
        None \<Rightarrow> (HsIncomplete, out)
      | Some end_pos \<Rightarrow>
          (let out1 = out\<lparr>header_bytes := end_pos + 4\<rparr>;
               first_eol = the (find_text crlf response);
               status_line = take first_eol response
           in case find_char CHR '' '' status_line of
                None \<Rightarrow> (HsNotSwitchingProtocols, out1)
              | Some sp \<Rightarrow>
                  (case status_code_loop (drop (sp + 1) status_line) 0 of
                     CodeNotADigit \<Rightarrow> (HsNotSwitchingProtocols, out1)
                   | CodeOverflow \<Rightarrow> (HsUndefined, out1)
                   | Code code \<Rightarrow>
                       let out2 = out1\<lparr>status_code := code\<rparr> in
                       if code \<noteq> 101 then (HsNotSwitchingProtocols, out2)
                       else (check_headers (header_block response first_eol end_pos) expected_accept, out2))))"

section \<open>Searching for the line ends\<close>

lemma starts_with_mono: "starts_with (p @ q) s \<Longrightarrow> starts_with p s"
  by (auto simp: starts_with_iff)

lemma first_eol_exists:
  assumes "find_text (crlf @ crlf) s = Some e"
  obtains f where "find_text crlf s = Some f" "f \<le> e"
proof -
  have e: "e \<le> length s" "starts_with crlf (drop e s)" using find_text_Some [OF assms] starts_with_mono by auto
  then obtain f where f: "find_text crlf s = Some f" by (cases "find_text crlf s") (auto simp: find_text_None)
  have "f \<le> e"
  proof (rule ccontr)
    assume "\<not> f \<le> e"
    then show False using find_text_Some [OF f] e by simp
  qed
  with f show ?thesis using that by blast
qed

text \<open>A piece without carriage return is skipped as a whole.\<close>

lemma find_text_skip:
  assumes "CHR 0x0D \<notin> set a"
  shows "find_text (CHR 0x0D # p) (a @ b) = map_option (\<lambda>k. length a + k) (find_text (CHR 0x0D # p) b)"
  using assms
proof (induction a)
  case Nil
  then show ?case by (cases "find_text (CHR 0x0D # p) b") simp_all
next
  case (Cons c a)
  then have "\<not> starts_with (CHR 0x0D # p) ((c # a) @ b)" by (auto simp: starts_with_def)
  then show ?case using Cons
    by (cases "find_text (CHR 0x0D # p) b") (simp_all add: find_text.simps [of _ "c # (a @ b)"])
qed

lemma find_crlf_here: "find_text crlf (crlf @ s) = Some 0"
  by (simp add: find_text.simps [of crlf "crlf @ s"])

lemma blank_in_crlf: "starts_with (crlf @ crlf) (crlf @ s) \<longleftrightarrow> starts_with crlf s"
  by (simp add: starts_with_def crlf_def)

lemma find_blank_line:
  assumes "CHR 0x0D \<notin> set a" "\<not> starts_with crlf b"
  shows "find_text (crlf @ crlf) (a @ crlf @ b) = map_option (\<lambda>k. length a + 2 + k) (find_text (crlf @ crlf) b)"
proof -
  have "\<not> starts_with (crlf @ crlf) (CHR 0x0A # b)" by (simp add: starts_with_def crlf_def)
  then have "find_text (crlf @ crlf) (crlf @ b) = map_option (\<lambda>k. 2 + k) (find_text (crlf @ crlf) b)"
    using assms(2) blank_in_crlf [of b]
    by (cases "find_text (crlf @ crlf) b")
      (simp_all add: crlf_def find_text.simps [of _ "_ # _ # b"] find_text.simps [of _ "CHR 0x0A # b"])
  moreover have "find_text (crlf @ crlf) (a @ crlf @ b) = map_option (\<lambda>k. length a + k) (find_text (crlf @ crlf) (crlf @ b))"
    using find_text_skip [OF assms(1), of "CHR 0x0A # crlf" "crlf @ b"] by (simp add: crlf_def)
  ultimately show ?thesis by (cases "find_text (crlf @ crlf) b") simp_all
qed

lemma find_blank_end:
  assumes "CHR 0x0D \<notin> set a"
  shows "find_text (crlf @ crlf) (a @ crlf @ crlf @ b) = Some (length a)"
  using find_text_skip [OF assms, of "CHR 0x0A # crlf" "crlf @ crlf @ b"]
    find_text.simps [of "crlf @ crlf" "crlf @ crlf @ b"] starts_with_append [of "crlf @ crlf" b]
  by (simp add: crlf_def)

lemma find_eol_end:
  assumes "CHR 0x0D \<notin> set a"
  shows "find_text crlf (a @ crlf @ b) = Some (length a)" "find_text crlf a = None"
proof -
  show "find_text crlf (a @ crlf @ b) = Some (length a)"
    using find_text_skip [OF assms, of "[CHR 0x0A]" "crlf @ b"] find_crlf_here [of b] by (simp add: crlf_def)
  have "find_text crlf ([] :: string) = None" by (simp add: crlf_def find_text.simps [of "[_, _]" "[]"] starts_with_def)
  then show "find_text crlf a = None" using find_text_skip [OF assms, of "[CHR 0x0A]" "[]"] by (simp add: crlf_def)
qed

lemma drop_line: "drop (length x + 2) (x @ crlf @ rest) = rest"
  by (simp add: crlf_def)

lemma take_line: "take (length x) (x @ rest) = x"
  by simp

section \<open>Looking headers up\<close>

definition clean_value :: "string \<Rightarrow> bool" where
  "clean_value v \<longleftrightarrow> v \<noteq> [] \<and> CHR 0x0D \<notin> set v \<and> hd v \<notin> {CHR '' '', CHR 0x09} \<and> last v \<notin> {CHR '' '', CHR 0x09}"

definition header_name :: "string \<Rightarrow> bool" where
  "header_name n \<longleftrightarrow> clean_value n \<and> CHR '':'' \<notin> set n"

lemma clean_last: "clean_value v \<Longrightarrow> last v \<notin> {CHR '' '', CHR 0x09, CHR 0x0D}"
  by (metis clean_value_def empty_iff insert_iff last_in_set)

lemma trim_clean: "clean_value v \<Longrightarrow> trim v = v" "clean_value v \<Longrightarrow> trim (CHR '' '' # v) = v"
proof -
  assume v: "clean_value v"
  have "strip_front (\<lambda>c. c = CHR '' '' \<or> c = CHR 0x09) v = v" "strip_front (\<lambda>c. c = CHR '' '' \<or> c = CHR 0x09) (CHR '' '' # v) = v"
    using v by (cases v; simp add: clean_value_def strip_front_def)+
  then show "trim v = v" "trim (CHR '' '' # v) = v"
    unfolding trim_def using clean_last [OF v] by (simp_all add: strip_none)
qed

lemma find_header_line:
  assumes "header_name n" "clean_value v"
  shows "find_header (n @ '': '' @ v @ crlf @ rest) name =
      (if iequals n name then v else find_header rest name)"
    and "find_header (n @ '': '' @ v) name = (if iequals n name then v else [])"
proof -
  have cr: "CHR 0x0D \<notin> set (n @ '': '' @ v)" and ne: "n \<noteq> []"
    using assms by (auto simp: header_name_def clean_value_def)
  have col: "find_char CHR '':'' (n @ '': '' @ v) = Some (length n)"
    using find_char_append [of "CHR '':''" n] assms by (simp add: header_name_def)
  have tr: "trim (take (length n) (n @ '': '' @ v)) = n" "trim (drop (length n + 1) (n @ '': '' @ v)) = v"
    using trim_clean(1) [of n] trim_clean(2) [of v] assms by (simp_all add: header_name_def)
  have e: "find_text crlf ((n @ '': '' @ v) @ crlf @ rest) = Some (length (n @ '': '' @ v))" by (rule find_eol_end(1) [OF cr])
  have tk: "take (length (n @ '': '' @ v)) ((n @ '': '' @ v) @ crlf @ rest) = n @ '': '' @ v"
      "drop (length (n @ '': '' @ v) + 2) ((n @ '': '' @ v) @ crlf @ rest) = rest"
    by (rule take_line, rule drop_line)
  have "find_header ((n @ '': '' @ v) @ crlf @ rest) name = (if iequals n name then v else find_header rest name)"
    by (subst find_header.simps) (simp only: e Let_def option.case tk col tr, simp add: ne)
  then show "find_header (n @ '': '' @ v @ crlf @ rest) name = (if iequals n name then v else find_header rest name)" by simp
  show "find_header (n @ '': '' @ v) name = (if iequals n name then v else [])"
    by (subst find_header.simps) (simp only: find_eol_end(2) [OF cr] Let_def option.case col tr, simp add: ne)
qed

lemma iequals_code [simp]:
  "iequals [] [] = True" "iequals (x # xs) (y # ys) \<longleftrightarrow> char_lower x = char_lower y \<and> iequals xs ys"
  "iequals (x # xs) [] = False" "iequals [] (y # ys) = False"
  by (auto simp: iequals_def)

section \<open>A conforming response\<close>

definition server_response :: "string \<Rightarrow> string" where
  "server_response accept =
     ''HTTP/1.1 101 Switching Protocols'' @ crlf @ ''Upgrade: websocket'' @ crlf @ ''Connection: Upgrade'' @ crlf @
     ''Sec-WebSocket-Accept: '' @ accept @ crlf @ crlf"

definition server_headers :: "string \<Rightarrow> string" where
  "server_headers accept =
     ''Upgrade'' @ '': '' @ ''websocket'' @ crlf @ ''Connection'' @ '': '' @ ''Upgrade'' @ crlf @ ''Sec-WebSocket-Accept'' @ '': '' @ accept"

lemma server_headers_checked:
  assumes "clean_value accept"
  shows "check_headers (server_headers accept) expected = (if accept = expected then HsOk else HsBadAccept)"
proof -
  have n: "header_name ''Upgrade''" "header_name ''Connection''" "header_name ''Sec-WebSocket-Accept''"
      "clean_value ''websocket''" "clean_value ''Upgrade''"
    by (simp_all add: header_name_def clean_value_def)
  have i: "iequals ''Upgrade'' ''upgrade''" "\<not> iequals ''Upgrade'' ''connection''" "iequals ''Connection'' ''connection''"
      "\<not> iequals ''Upgrade'' ''sec-websocket-accept''" "\<not> iequals ''Connection'' ''sec-websocket-accept''"
      "iequals ''Sec-WebSocket-Accept'' ''sec-websocket-accept''" "iequals ''websocket'' ''websocket''"
      "icontains ''Upgrade'' ''upgrade''"
    by code_simp+
  have u: "find_header (server_headers accept) ''upgrade'' = ''websocket''"
    unfolding server_headers_def find_header_line(1) [OF n(1,4)] by (simp only: i if_True)
  have c: "find_header (server_headers accept) ''connection'' = ''Upgrade''"
    unfolding server_headers_def find_header_line(1) [OF n(1,4)] find_header_line(1) [OF n(2,5)] by (simp only: i if_True if_False)
  have a: "find_header (server_headers accept) ''sec-websocket-accept'' = accept"
    unfolding server_headers_def find_header_line(1) [OF n(1,4)] find_header_line(1) [OF n(2,5)]
      find_header_line(2) [OF n(3) assms] by (simp only: i if_True if_False)
  show ?thesis by (simp only: check_headers_def u c a i simp_thms if_False) simp
qed

lemma parse_status_line:
  assumes "find_text (crlf @ crlf) r = Some e" "find_text crlf r = Some f"
    "take f r = ''HTTP/1.1 101 Switching Protocols''"
  shows "parse_handshake_response r acc out =
    (check_headers (header_block r f e) acc, out\<lparr>header_bytes := e + 4, status_code := 101\<rparr>)"
proof -
  have "find_char CHR '' '' ''HTTP/1.1 101 Switching Protocols'' = Some 8" by code_simp
  moreover have "status_code_loop (drop (8 + 1) ''HTTP/1.1 101 Switching Protocols'') 0 = Code 101" by code_simp
  ultimately show ?thesis
    by (simp only: parse_handshake_response_def assms option.case option.sel Let_def code_result.case) simp
qed

lemma server_response_parsed:
  assumes "clean_value accept"
  shows "parse_handshake_response (server_response accept @ frames) expected out =
    (if accept = expected then HsOk else HsBadAccept,
     out\<lparr>header_bytes := length (server_response accept), status_code := 101\<rparr>)"
proof -
  define line where "line = ''HTTP/1.1 101 Switching Protocols''"
  define r where "r = server_response accept @ frames"
  have r: "r = line @ crlf @ server_headers accept @ crlf @ crlf @ frames"
    by (simp add: r_def line_def server_response_def server_headers_def)
  have cr: "CHR 0x0D \<notin> set line" by (simp add: line_def)
  have f: "find_text crlf r = Some (length line)" unfolding r by (rule find_eol_end(1) [OF cr])
  have acr: "CHR 0x0D \<notin> set (''Sec-WebSocket-Accept: '' @ accept)" using assms by (simp add: clean_value_def)
  have e: "find_text (crlf @ crlf) r = Some (length line + 2 + length (server_headers accept))"
  proof -
    have r': "r = line @ crlf @ ''Upgrade: websocket'' @ crlf @ ''Connection: Upgrade'' @ crlf @
        (''Sec-WebSocket-Accept: '' @ accept) @ crlf @ crlf @ frames"
      unfolding r server_headers_def by simp
    have nb: "\<not> starts_with crlf (''Upgrade: websocket'' @ x)" "\<not> starts_with crlf (''Connection: Upgrade'' @ x)"
        "\<not> starts_with crlf ((''Sec-WebSocket-Accept: '' @ accept) @ x)" for x
      by (simp_all add: starts_with_def crlf_def)
    have c3: "CHR 0x0D \<notin> set ''Upgrade: websocket''" "CHR 0x0D \<notin> set ''Connection: Upgrade''" by simp_all
    show ?thesis unfolding r' find_blank_line [OF cr nb(1)] find_blank_line [OF c3(1) nb(2)]
        find_blank_line [OF c3(2) nb(3)] find_blank_end [OF acr]
      by (simp add: server_headers_def crlf_def)
  qed
  have "take (length line) r = ''HTTP/1.1 101 Switching Protocols''" by (simp add: r line_def)
  note p = parse_status_line [OF e f this]
  have "header_block r (length line) (length line + 2 + length (server_headers accept)) = server_headers accept"
    by (simp add: header_block_def r crlf_def)
  then show ?thesis
    using p server_headers_checked [OF assms, of expected]
    by (simp add: r_def [symmetric]) (simp add: server_response_def server_headers_def line_def crlf_def)
qed

lemma accept_clean: "clean_value (websocket_accept_for key)"
proof -
  define a where "a = websocket_accept_for key"
  have sub: "set a \<subseteq> insert CHR ''='' (set kAlphabet)"
    by (simp only: a_def websocket_accept_for_def base64_chars)
  have l: "length a = 28" by (simp add: a_def websocket_accept_for_def base64_length sha1_def Let_def be32_bytes_def)
  then have ne: "a \<noteq> []" by auto
  have no: "set a \<inter> {CHR '' '', CHR 0x09, CHR 0x0D, CHR 0x0A, CHR '':''} = {}"
    using sub alphabet_facts(4) by fastforce
  have "hd a \<notin> {CHR '' '', CHR 0x09}" "last a \<notin> {CHR '' '', CHR 0x09}" "CHR 0x0D \<notin> set a"
    using no hd_in_set [OF ne] last_in_set [OF ne] by blast+
  then show ?thesis using ne unfolding clean_value_def a_def by blast
qed

section \<open>What is read is the header\<close>

lemma blank_within:
  assumes "find_text (crlf @ crlf) r = Some e"
  shows "e + 4 \<le> length r" "drop e r = crlf @ crlf @ drop (e + 4) r"
proof -
  obtain t where t: "drop e r = (crlf @ crlf) @ t" using find_text_Some [OF assms] by (auto simp: starts_with_iff)
  have "length (drop e r) = 4 + length t" by (simp add: t crlf_def)
  then show "e + 4 \<le> length r" by simp
  have "drop (e + 4) r = t" using arg_cong [OF t, of "drop 4"] by (simp add: crlf_def add.commute)
  then show "drop e r = crlf @ crlf @ drop (e + 4) r" using t by simp
qed

lemma header_block_more:
  assumes "find_text (crlf @ crlf) r = Some e" "f + 2 \<le> e"
  shows "header_block (r @ suf) f e = header_block r f e"
  using blank_within(1) [OF assms(1)] assms(2) by (simp add: header_block_def)

lemma blank_truncated:
  assumes "find_text (crlf @ crlf) r = Some e" "n < e + 4"
  shows "find_text (crlf @ crlf) (take n r) = None"
proof (cases "find_text (crlf @ crlf) (take n r)")
  case (Some j)
  have "find_text (crlf @ crlf) (take n r @ drop n r) = Some j" by (rule find_text_more [OF Some])
  then have "j = e" using assms(1) by simp
  then show ?thesis using blank_within(1) [OF Some] assms(2) by simp
qed

lemma eol_gap:
  assumes "find_text (crlf @ crlf) r = Some e" "find_text crlf r = Some f" "f \<noteq> e"
  shows "f + 2 \<le> e"
proof -
  have le: "f \<le> e" using first_eol_exists [OF assms(1)] assms(2) by auto
  have "f + 1 \<noteq> e"
  proof
    assume "f + 1 = e"
    moreover have "drop f r = crlf @ drop (f + 2) r"
    proof -
      obtain t where t: "drop f r = crlf @ t" using find_text_Some [OF assms(2)] by (auto simp: starts_with_iff)
      have "drop (f + 2) r = t" using arg_cong [OF t, of "drop 2"] by (simp add: crlf_def add.commute)
      then show ?thesis using t by simp
    qed
    moreover have "drop (f + 1) r = drop 1 (drop f r)" by (simp add: add.commute)
    ultimately have "hd (drop e r) = CHR 0x0A" by (simp add: crlf_def)
    then show False using blank_within(2) [OF assms(1)] by (simp add: crlf_def)
  qed
  then show ?thesis using le assms(3) by simp
qed

section \<open>The request, as a server reads it\<close>

definition request_headers :: "string \<Rightarrow> string" where
  "request_headers req = drop (the (find_text crlf req) + 2) req"

definition host_value :: "string \<Rightarrow> nat \<Rightarrow> bool \<Rightarrow> string" where
  "host_value host port secure =
     host @ (if port = (if secure then 443 else 80) then [] else CHR '':'' # write_decimal port [])"

lemma digits_not_blank: "all_digits cs \<Longrightarrow> set cs \<inter> {CHR '' '', CHR 0x09, CHR 0x0D} = {}"
  by (auto simp: all_digits_def list_all_iff is_digit_code)

lemma host_value_clean:
  assumes "clean_value host"
  shows "clean_value (host_value host port secure)"
proof -
  have d: "write_decimal port [] \<noteq> []" "set (write_decimal port []) \<inter> {CHR '' '', CHR 0x09, CHR 0x0D} = {}"
    using write_decimal_props [of port] digits_not_blank by blast+
  then have "last (write_decimal port []) \<notin> {CHR '' '', CHR 0x09}" "CHR 0x0D \<notin> set (write_decimal port [])"
    using last_in_set [OF d(1)] by blast+
  then show ?thesis using assms d(1) by (auto simp: host_value_def clean_value_def)
qed

lemma request_headers_eq:
  assumes "CHR 0x0D \<notin> set path"
  shows "request_headers (make_handshake_request host port path key secure) =
    ''Host'' @ '': '' @ host_value host port secure @ crlf @ ''Upgrade'' @ '': '' @ ''websocket'' @ crlf @
    ''Connection'' @ '': '' @ ''Upgrade'' @ crlf @ ''Sec-WebSocket-Key'' @ '': '' @ key @ crlf @
    ''Sec-WebSocket-Version'' @ '': '' @ ''13'' @ crlf @ ''User-Agent'' @ '': '' @ ''crossbook/0.2'' @ crlf @ crlf"
proof -
  define line where "line = ''GET '' @ (if path = [] then ''/'' else path) @ '' HTTP/1.1''"
  define tail where "tail = ''Host'' @ '': '' @ host_value host port secure @ crlf @ ''Upgrade'' @ '': '' @ ''websocket'' @ crlf @
    ''Connection'' @ '': '' @ ''Upgrade'' @ crlf @ ''Sec-WebSocket-Key'' @ '': '' @ key @ crlf @
    ''Sec-WebSocket-Version'' @ '': '' @ ''13'' @ crlf @ ''User-Agent'' @ '': '' @ ''crossbook/0.2'' @ crlf @ crlf"
  have r: "make_handshake_request host port path key secure = line @ crlf @ tail"
    by (simp add: make_handshake_request_def line_def tail_def host_value_def Let_def)
  have "CHR 0x0D \<notin> set line" using assms by (simp add: line_def)
  note e = find_eol_end(1) [OF this, of tail]
  have "request_headers (line @ crlf @ tail) = tail" by (simp only: request_headers_def e option.sel drop_line)
  then show ?thesis by (simp only: r tail_def)
qed

section \<open>Properties\<close>

text \<open>
  The request says what it should: a server that looks the headers up finds the host with
  its port exactly when the port is not the default of the scheme, the upgrade to websocket, version 13, and
  the client's key; the request line carries the path.
\<close>

theorem request_is_read_back:
  fixes port :: nat and secure :: bool
  assumes "clean_value host" "clean_value key" "CHR 0x0D \<notin> set path"
  defines "h \<equiv> request_headers (make_handshake_request host port path key secure)"
  shows "find_header h ''host'' = host @ (if port = (if secure then 443 else 80) then [] else CHR '':'' # write_decimal port [])"
    and "find_header h ''upgrade'' = ''websocket''" and "find_header h ''connection'' = ''Upgrade''"
    and "find_header h ''sec-websocket-key'' = key" and "find_header h ''sec-websocket-version'' = ''13''"
    and "starts_with (''GET '' @ (if path = [] then ''/'' else path) @ '' HTTP/1.1'' @ crlf)
           (make_handshake_request host port path key secure)"
proof -
  have n: "header_name ''Host''" "header_name ''Upgrade''" "header_name ''Connection''" "header_name ''Sec-WebSocket-Key''"
      "header_name ''Sec-WebSocket-Version''"
      "clean_value ''websocket''" "clean_value ''Upgrade''" "clean_value ''13''"
    by (simp_all add: header_name_def clean_value_def)
  note lines = find_header_line(1) [OF n(1) host_value_clean [OF assms(1)]] find_header_line(1) [OF n(2,6)]
    find_header_line(1) [OF n(3,7)] find_header_line(1) [OF n(4) assms(2)] find_header_line(1) [OF n(5,8)]
  have i: "iequals ''Host'' ''host''" "\<not> iequals ''Host'' ''upgrade''" "iequals ''Upgrade'' ''upgrade''"
      "\<not> iequals ''Host'' ''connection''" "\<not> iequals ''Upgrade'' ''connection''" "iequals ''Connection'' ''connection''"
      "\<not> iequals ''Host'' ''sec-websocket-key''" "\<not> iequals ''Upgrade'' ''sec-websocket-key''"
      "\<not> iequals ''Connection'' ''sec-websocket-key''" "iequals ''Sec-WebSocket-Key'' ''sec-websocket-key''"
      "\<not> iequals ''Host'' ''sec-websocket-version''" "\<not> iequals ''Upgrade'' ''sec-websocket-version''"
      "\<not> iequals ''Connection'' ''sec-websocket-version''" "\<not> iequals ''Sec-WebSocket-Key'' ''sec-websocket-version''"
      "iequals ''Sec-WebSocket-Version'' ''sec-websocket-version''"
    by code_simp+
  note eq = request_headers_eq [OF assms(3)]
  show "find_header h ''host'' = host @ (if port = (if secure then 443 else 80) then [] else CHR '':'' # write_decimal port [])"
    unfolding h_def eq lines by (simp only: i if_True host_value_def)
  show "find_header h ''upgrade'' = ''websocket''" unfolding h_def eq lines by (simp only: i if_True if_False)
  show "find_header h ''connection'' = ''Upgrade''" unfolding h_def eq lines by (simp only: i if_True if_False)
  show "find_header h ''sec-websocket-key'' = key" unfolding h_def eq lines by (simp only: i if_True if_False)
  show "find_header h ''sec-websocket-version'' = ''13''" unfolding h_def eq lines by (simp only: i if_True if_False)
  show "starts_with (''GET '' @ (if path = [] then ''/'' else path) @ '' HTTP/1.1'' @ crlf)
           (make_handshake_request host port path key secure)"
    unfolding starts_with_iff by (simp add: make_handshake_request_def)
qed

lemma request_is_read_back_witness:
  "find_header (request_headers (make_handshake_request ''h'' 443 ''/v2'' ''k'' True)) ''host'' = ''h''"
  using request_is_read_back(1) [of "''h''" "''k''" "''/v2''" 443 True] by (simp add: clean_value_def)



lemma handshake_reads_header_only_facts:
  assumes "find_text (crlf @ crlf) r = Some e" "find_text crlf r = Some f" "f \<noteq> e"
  shows "parse_handshake_response (r @ suf) accept out = parse_handshake_response r accept out"
    and "n < e + 4 \<Longrightarrow> parse_handshake_response (take n r) accept out = (HsIncomplete, out)"
    and "header_bytes (snd (parse_handshake_response r accept out)) = e + 4" and "e + 4 \<le> length r"
    and "fst (parse_handshake_response r accept out) = HsOk \<Longrightarrow>
      status_code (snd (parse_handshake_response r accept out)) = 101 \<and>
      check_headers (take (e - f - 2) (drop (f + 2) r)) accept = HsOk"
proof -
  have g: "f + 2 \<le> e" by (rule eol_gap [OF assms])
  have m: "find_text (crlf @ crlf) (r @ suf) = Some e" "find_text crlf (r @ suf) = Some f"
    by (rule find_text_more [OF assms(1)], rule find_text_more [OF assms(2)])
  have tk: "take f (r @ suf) = take f r" using g blank_within(1) [OF assms(1)] by simp
  show "parse_handshake_response (r @ suf) accept out = parse_handshake_response r accept out"
    unfolding parse_handshake_response_def m assms(1,2) option.case option.sel Let_def tk header_block_more [OF assms(1) g] ..
  show "parse_handshake_response (take n r) accept out = (HsIncomplete, out)" if "n < e + 4"
    unfolding parse_handshake_response_def blank_truncated [OF assms(1) that] by simp
  show "header_bytes (snd (parse_handshake_response r accept out)) = e + 4"
    by (simp add: parse_handshake_response_def assms Let_def split: option.split code_result.split)
  show "e + 4 \<le> length r" by (rule blank_within(1) [OF assms(1)])
  show "status_code (snd (parse_handshake_response r accept out)) = 101 \<and>
      check_headers (take (e - f - 2) (drop (f + 2) r)) accept = HsOk"
    if "fst (parse_handshake_response r accept out) = HsOk"
    using that g by (auto simp: parse_handshake_response_def assms Let_def header_block_def
        split: option.splits code_result.splits if_splits)
qed

text \<open>
  The verdict is about the header alone.  For a response that ends its header with a blank line and has at
  least one header, every proper prefix is incomplete, what follows the blank line changes nothing, the reported
  size ends exactly at the blank line, and \<open>HsOk\<close> means status 101 with the three headers checked.
\<close>

theorem handshake_reads_header_only:
  assumes "find_text (crlf @ crlf) r = Some e" "find_text crlf r = Some f" "f \<noteq> e"
  shows "parse_handshake_response (r @ suf) accept out = parse_handshake_response r accept out \<and>
    (n < e + 4 \<longrightarrow> parse_handshake_response (take n r) accept out = (HsIncomplete, out)) \<and>
    header_bytes (snd (parse_handshake_response r accept out)) = e + 4 \<and> e + 4 \<le> length r \<and>
    (fst (parse_handshake_response r accept out) = HsOk \<longrightarrow>
      status_code (snd (parse_handshake_response r accept out)) = 101 \<and>
      check_headers (take (e - f - 2) (drop (f + 2) r)) accept = HsOk)"
  using handshake_reads_header_only_facts [OF assms] by blast

lemma handshake_reads_header_only_witness:
  "parse_handshake_response (''HTTP/1.1 429 Slow'' @ crlf @ ''a: b'' @ crlf @ crlf @ ''xyz'') ''k'' handshake_response0 =
   parse_handshake_response (''HTTP/1.1 429 Slow'' @ crlf @ ''a: b'' @ crlf @ crlf) ''k'' handshake_response0"
proof -
  have "find_text (crlf @ crlf) (''HTTP/1.1 429 Slow'' @ crlf @ ''a: b'' @ crlf @ crlf) = Some 23"
    "find_text crlf (''HTTP/1.1 429 Slow'' @ crlf @ ''a: b'' @ crlf @ crlf) = Some 17"
    by code_simp+
  from handshake_reads_header_only [OF this, of "''xyz''" "''k''" handshake_response0] show ?thesis by simp
qed

text \<open>
  Two observations.  A response without any header is judged by the bytes after its blank line; and a status
  code of ten digits overflows the \<open>int\<close> it is accumulated in.
\<close>

definition headerless :: string where "headerless = ''HTTP/1.1 101 Ok'' @ crlf @ crlf"

lemma headerless_reads_the_frames:
  "fst (parse_handshake_response headerless ''k'' handshake_response0) = HsNotUpgraded \<and>
   parse_handshake_response (headerless @ ''upgrade: websocket'' @ crlf @ ''connection: upgrade'' @ crlf @
      ''sec-websocket-accept: k'') ''k'' handshake_response0 = (HsOk, \<lparr>header_bytes = length headerless, status_code = 101\<rparr>)"
  by code_simp

lemma long_status_overflows:
  "fst (parse_handshake_response (''HTTP/1.1 2147483648'' @ crlf @ crlf) ''k'' handshake_response0) = HsUndefined"
  by code_simp

end
