(* ===== verification/Url.thy ===== *)
theory Url
  imports Text_View
begin

text \<open>
  Websocket URLs, \<open>include/crossbook/net/url.hpp\<close>: \<open>Url\<close>, \<open>UrlError\<close>, \<open>parse_port\<close> and \<open>parse_url\<close>.  The code
  writes its result only when it succeeds, so a result is a sum: the error, or the parsed URL.  The 32-bit
  accumulator of \<open>parse_port\<close> sees at most five digits, so it is a natural number here.
\<close>

section \<open>Parsing\<close>

record url =
  url_host :: string
  url_path :: string
  url_port :: nat
  url_secure :: bool

datatype url_error = UrlBadScheme | UrlEmptyHost | UrlBadPort

definition url_error_string :: "url_error \<Rightarrow> string" where
  "url_error_string e =
     (case e of UrlBadScheme \<Rightarrow> ''bad_scheme'' | UrlEmptyHost \<Rightarrow> ''empty_host'' | UrlBadPort \<Rightarrow> ''bad_port'')"

fun port_loop :: "string \<Rightarrow> nat \<Rightarrow> nat option" where
  "port_loop [] value = Some value"
| "port_loop (c # cs) value = (if is_digit c then port_loop cs (value * 10 + digit_value c) else None)"

definition parse_port :: "string \<Rightarrow> nat option" where
  "parse_port cs =
     (if cs = [] \<or> length cs > 5 then None
      else case port_loop cs 0 of
        None \<Rightarrow> None
      | Some value \<Rightarrow> if value = 0 \<or> value > 65535 then None else Some value)"

text \<open>The scheme, with the default port it implies, and what follows it.\<close>

definition parse_scheme :: "string \<Rightarrow> (bool \<times> nat \<times> string) option" where
  "parse_scheme s =
     (if starts_with ''wss://'' s then Some (True, 443, drop 6 s)
      else if starts_with ''ws://'' s then Some (False, 80, drop 5 s)
      else None)"

definition split_path :: "string \<Rightarrow> string \<times> string" where
  "split_path s = (case find_char CHR ''/'' s of None \<Rightarrow> (s, ''/'') | Some slash \<Rightarrow> (take slash s, drop slash s))"

definition split_authority :: "string \<Rightarrow> nat \<Rightarrow> url_error + (string \<times> nat)" where
  "split_authority authority port =
     (if authority \<noteq> [] \<and> hd authority = CHR ''['' then
        (case find_char CHR '']'' authority of
           None \<Rightarrow> Inl UrlEmptyHost
         | Some close \<Rightarrow>
             let host = take (close + 1) authority; rest = drop (close + 1) authority in
             if rest = [] then Inr (host, port)
             else if hd rest \<noteq> CHR '':'' then Inl UrlBadPort
             else case parse_port (drop 1 rest) of None \<Rightarrow> Inl UrlBadPort | Some p \<Rightarrow> Inr (host, p))
      else
        (case rfind_char CHR '':'' authority of
           None \<Rightarrow> Inr (authority, port)
         | Some colon \<Rightarrow>
             (case parse_port (drop (colon + 1) authority) of
                None \<Rightarrow> Inl UrlBadPort | Some p \<Rightarrow> Inr (take colon authority, p))))"

definition parse_url :: "string \<Rightarrow> url_error + url" where
  "parse_url s =
     (case parse_scheme s of
        None \<Rightarrow> Inl UrlBadScheme
      | Some (secure, port, rest) \<Rightarrow>
          (case split_path rest of (authority, path) \<Rightarrow>
             (case split_authority authority port of
                Inl e \<Rightarrow> Inl e
              | Inr (host, p) \<Rightarrow>
                  if host = [] then Inl UrlEmptyHost
                  else Inr \<lparr>url_host = host, url_path = path, url_port = p, url_secure = secure\<rparr>)))"

section \<open>Ports\<close>

lemma port_loop_value:
  "port_loop cs v = (if all_digits cs then Some (v * 10 ^ length cs + digits_value cs) else None)"
  by (induction cs arbitrary: v) (auto simp: all_digits_def digits_value_Cons algebra_simps)

lemma parse_port_iff:
  "parse_port cs = Some p \<longleftrightarrow>
     cs \<noteq> [] \<and> length cs \<le> 5 \<and> all_digits cs \<and> digits_value cs = p \<and> 0 < p \<and> p \<le> 65535"
  by (auto simp: parse_port_def port_loop_value split: if_splits)

lemma parse_port_write: "0 < p \<Longrightarrow> p \<le> 65535 \<Longrightarrow> parse_port (write_decimal p []) = Some p"
  using write_decimal_props [of p] length_write_decimal [of p 5] by (simp add: parse_port_iff)

section \<open>Printing\<close>

definition default_port :: "bool \<Rightarrow> nat" where
  "default_port secure = (if secure then 443 else 80)"

definition url_text :: "url \<Rightarrow> string" where
  "url_text u =
     (if url_secure u then ''wss://'' else ''ws://'') @ url_host u @
     (if url_port u = default_port (url_secure u) then [] else CHR '':'' # write_decimal (url_port u) []) @ url_path u"

text \<open>A host is a name without colon, slash or leading bracket, or a bracketed literal without an inner bracket.\<close>

definition plain_host :: "string \<Rightarrow> bool" where
  "plain_host h \<longleftrightarrow> h \<noteq> [] \<and> CHR '':'' \<notin> set h \<and> hd h \<noteq> CHR ''[''"

definition bracket_host :: "string \<Rightarrow> bool" where
  "bracket_host h \<longleftrightarrow> (\<exists>a. h = CHR ''['' # a @ '']'' \<and> CHR '']'' \<notin> set a)"

definition url_wf :: "url \<Rightarrow> bool" where
  "url_wf u \<longleftrightarrow>
     (plain_host (url_host u) \<or> bracket_host (url_host u)) \<and> CHR ''/'' \<notin> set (url_host u) \<and>
     url_path u \<noteq> [] \<and> hd (url_path u) = CHR ''/'' \<and> 0 < url_port u \<and> url_port u \<le> 65535"

lemma digits_no_slash: "all_digits cs \<Longrightarrow> CHR ''/'' \<notin> set cs" "all_digits cs \<Longrightarrow> CHR '':'' \<notin> set cs"
  by (auto simp: all_digits_def list_all_iff is_digit_code)

lemma split_path_append:
  assumes "CHR ''/'' \<notin> set a" "p \<noteq> []" "hd p = CHR ''/''"
  shows "split_path (a @ p) = (a, p)"
proof -
  obtain q where "p = CHR ''/'' # q" using assms(2,3) by (cases p) auto
  then show ?thesis using find_char_append [OF assms(1), of q] by (simp add: split_path_def)
qed

lemma split_authority_plain:
  assumes "plain_host h"
  shows "split_authority h d = Inr (h, d)"
    and "CHR '':'' \<notin> set p \<Longrightarrow>
      split_authority (h @ CHR '':'' # p) d = (case parse_port p of None \<Rightarrow> Inl UrlBadPort | Some n \<Rightarrow> Inr (h, n))"
  using assms
  by (auto simp: plain_host_def split_authority_def rfind_char_None [THEN iffD2] rfind_char_append split: option.split)

lemma split_authority_bracket:
  assumes "bracket_host h"
  shows "split_authority h d = Inr (h, d)"
    and "split_authority (h @ CHR '':'' # p) d = (case parse_port p of None \<Rightarrow> Inl UrlBadPort | Some n \<Rightarrow> Inr (h, n))"
proof -
  obtain a where h: "h = CHR ''['' # a @ '']''" "CHR '']'' \<notin> set a" using assms by (auto simp: bracket_host_def)
  have f: "find_char CHR '']'' (CHR ''['' # a @ CHR '']'' # r) = Some (Suc (length a))" for r
    using find_char_append [of "CHR '']''" "CHR ''['' # a" r] h(2) by simp
  show "split_authority h d = Inr (h, d)" using f [of "[]"] by (simp add: split_authority_def h(1))
  show "split_authority (h @ CHR '':'' # p) d = (case parse_port p of None \<Rightarrow> Inl UrlBadPort | Some n \<Rightarrow> Inr (h, n))"
    using f [of "CHR '':'' # p"] by (auto simp: split_authority_def h(1) split: option.split)
qed

lemma parse_scheme_text: "parse_scheme ((if s then ''wss://'' else ''ws://'') @ r) = Some (s, default_port s, r)"
  by (simp add: parse_scheme_def starts_with_def default_port_def)

lemma split_path_parts:
  assumes "split_path s = (a, p)"
  shows "p \<noteq> [] \<and> hd p = CHR ''/'' \<and> CHR ''/'' \<notin> set a \<and> starts_with a s"
proof (cases "find_char CHR ''/'' s")
  case None
  have h: "a = s" "p = ''/''" using assms None by (auto simp: split_path_def)
  then show ?thesis using None starts_with_append [of s "[]"] by (simp add: find_char_None)
next
  case (Some k)
  have h: "a = take k s" "p = drop k s" using assms Some by (auto simp: split_path_def)
  then have "starts_with a s" using starts_with_append [of a p] by simp
  then show ?thesis using h find_char_Some [OF Some] by (simp add: hd_drop_conv_nth)
qed

lemma split_authority_Inr:
  assumes "split_authority a port = Inr (host, p)"
  shows "(p = port \<and> host = a) \<or> (\<exists>digits. parse_port digits = Some p \<and> a = host @ CHR '':'' # digits)"
proof (cases "a \<noteq> [] \<and> hd a = CHR ''[''")
  case True
  then obtain k where k: "find_char CHR '']'' a = Some k"
    using assms by (auto simp: split_authority_def split: option.splits)
  define rest where "rest = drop (k + 1) a"
  have a: "a = take (k + 1) a @ rest" by (simp add: rest_def)
  have eq: "(if rest = [] then Inr (take (k + 1) a, port)
      else if hd rest \<noteq> CHR '':'' then Inl UrlBadPort
      else case parse_port (drop 1 rest) of None \<Rightarrow> Inl UrlBadPort | Some p \<Rightarrow> Inr (take (k + 1) a, p)) = Inr (host, p)"
    using assms unfolding split_authority_def rest_def Let_def if_P [OF True] k option.case .
  show ?thesis
  proof (cases rest)
    case Nil
    then show ?thesis using eq a by auto
  next
    case (Cons c r)
    then have "c = CHR '':''" "parse_port r = Some p" "host = take (k + 1) a"
      using eq by (auto split: if_splits option.splits)
    then show ?thesis using a Cons by metis
  qed
next
  case False
  show ?thesis
  proof (cases "rfind_char CHR '':'' a")
    case None
    then show ?thesis using assms False by (auto simp: split_authority_def)
  next
    case (Some k)
    have h: "parse_port (drop (k + 1) a) = Some p" "host = take k a"
      using assms False Some by (auto simp: split_authority_def split: option.splits)
    have "a = take k a @ CHR '':'' # drop (k + 1) a"
      using rfind_char_Some(1,2) [OF Some] id_take_nth_drop by fastforce
    then show ?thesis using h by auto
  qed
qed

section \<open>Properties\<close>

text \<open>
  Printing a well-formed URL and parsing it gives it back: host names and bracketed IPv6 literals, with
  the default port of the scheme left out and any other port written out.
\<close>

theorem url_roundtrip:
  assumes "url_wf u"
  shows "parse_url (url_text u) = Inr u"
proof -
  define tail where "tail = (if url_port u = default_port (url_secure u) then [] else CHR '':'' # write_decimal (url_port u) [])"
  have wf: "plain_host (url_host u) \<or> bracket_host (url_host u)" "CHR ''/'' \<notin> set (url_host u)"
      "url_path u \<noteq> []" "hd (url_path u) = CHR ''/''" "0 < url_port u" "url_port u \<le> 65535"
    using assms by (auto simp: url_wf_def)
  have d: "all_digits (write_decimal (url_port u) [])" using write_decimal_props by blast
  have "CHR ''/'' \<notin> set (url_host u @ tail)" using wf(2) digits_no_slash [OF d] by (simp add: tail_def)
  then have sp: "split_path (url_host u @ tail @ url_path u) = (url_host u @ tail, url_path u)"
    using split_path_append [of "url_host u @ tail" "url_path u"] wf by simp
  have "split_authority (url_host u @ tail) (default_port (url_secure u)) = Inr (url_host u, url_port u)"
    using wf(1) parse_port_write [OF wf(5,6)] split_authority_plain [of "url_host u"]
      split_authority_bracket [of "url_host u"] digits_no_slash [OF d]
    by (auto simp: tail_def)
  moreover have "url_host u \<noteq> []" using wf(1) by (auto simp: plain_host_def bracket_host_def)
  ultimately show ?thesis using sp by (simp add: url_text_def parse_url_def parse_scheme_text tail_def)
qed

lemma port_digits: "write_decimal 9443 [] = ''9443''"
  by code_simp

lemma url_roundtrip_witness:
  "parse_url ''wss://[::1]:9443/v2'' =
     Inr \<lparr>url_host = ''[::1]'', url_path = ''/v2'', url_port = 9443, url_secure = True\<rparr>"
proof -
  define u where "u = \<lparr>url_host = ''[::1]'', url_path = ''/v2'', url_port = 9443, url_secure = True\<rparr>"
  have "bracket_host ''[::1]''" unfolding bracket_host_def by (rule exI [of _ "''::1''"]) simp
  then have "url_wf u" by (simp add: u_def url_wf_def)
  from url_roundtrip [OF this] show ?thesis
    by (simp add: u_def url_text_def default_port_def port_digits)
qed

text \<open>
  What the parser accepts is sound: a nonempty host, a path that starts with a slash, a port in
  [1, 65535], and the scheme the text starts with; a scheme other than \<open>ws://\<close> and \<open>wss://\<close> is refused, and
  a port that is present is the decimal value of the digits after the last colon.
\<close>

theorem parse_url_sound:
  assumes "parse_url s = Inr u"
  shows "url_host u \<noteq> [] \<and> url_path u \<noteq> [] \<and> hd (url_path u) = CHR ''/'' \<and>
    0 < url_port u \<and> url_port u \<le> 65535 \<and> CHR ''/'' \<notin> set (url_host u) \<and>
    starts_with (if url_secure u then ''wss://'' else ''ws://'') s \<and>
    (url_port u \<noteq> default_port (url_secure u) \<longrightarrow>
       (\<exists>digits. parse_port digits = Some (url_port u) \<and> starts_with (url_host u @ CHR '':'' # digits)
          (drop (if url_secure u then 6 else 5) s)))"
proof -
  obtain secure port rest where sc: "parse_scheme s = Some (secure, port, rest)"
    using assms by (auto simp: parse_url_def split: option.splits)
  obtain authority path where sp: "split_path rest = (authority, path)" by (cases "split_path rest")
  obtain p where sa: "split_authority authority port = Inr (url_host u, p)" "url_host u \<noteq> []" "url_path u = path"
      "url_port u = p" "url_secure u = secure"
    using assms sc sp by (auto simp: parse_url_def split: sum.splits if_splits)
  have scheme: "port = default_port secure" "starts_with (if secure then ''wss://'' else ''ws://'') s"
      "rest = drop (if secure then 6 else 5) s"
    using sc by (auto simp: parse_scheme_def default_port_def split: if_splits)
  have path: "path \<noteq> [] \<and> hd path = CHR ''/''" "CHR ''/'' \<notin> set authority" "starts_with authority rest"
    using split_path_parts [OF sp] by auto
  have auth: "(p = port \<and> url_host u = authority) \<or>
      (\<exists>digits. parse_port digits = Some p \<and> authority = url_host u @ CHR '':'' # digits)"
    by (rule split_authority_Inr [OF sa(1)])
  have "0 < port" "port \<le> 65535" using scheme(1) by (auto simp: default_port_def)
  then have port: "0 < p" "p \<le> 65535" using auth by (auto simp: parse_port_iff)
  have host: "CHR ''/'' \<notin> set (url_host u)" using auth path(2) by auto
  have "\<exists>digits. parse_port digits = Some p \<and> starts_with (url_host u @ CHR '':'' # digits) rest" if "p \<noteq> port"
    using auth path(3) that by auto
  then show ?thesis using sa path(1) port host scheme by auto
qed

lemma parse_url_sound_witness:
  "\<exists>u. parse_url ''ws://h:8080'' = Inr u \<and> url_port u = 8080 \<and> url_path u = ''/'' \<and> hd (url_path u) = CHR ''/''"
proof -
  have p: "parse_url ''ws://h:8080'' = Inr \<lparr>url_host = ''h'', url_path = ''/'', url_port = 8080, url_secure = False\<rparr>"
    by code_simp
  from parse_url_sound [OF p] p show ?thesis by simp
qed

end
