(* ===== verification/Ws_Client.thy ===== *)
theory Ws_Client
  imports Ws_Reader Handshake Url
begin

text \<open>
  The websocket client, \<open>src/net/websocket.cpp\<close> with \<open>include/crossbook/net/websocket.hpp\<close>: connecting, the
  handshake loop, \<open>poll\<close>, the senders and \<open>close\<close>.

  The transport (a socket, with or without TLS) and the random generator are not part of the model: they
  are the parameter \<open>env\<close>, a record of the operations of \<open>Transport\<close> and of the generator.
  The two loops that go on for as long as the peer keeps sending are partial functions whose value
  \<open>None\<close> is "does not return".  Text is a string, what travels is bytes; \<open>bytes_of\<close> and \<open>text_of\<close> convert.
\<close>

section \<open>The state\<close>

datatype io_status = IoOk | IoTimeout | IoClosed | IoError

definition io_status_string :: "io_status \<Rightarrow> string" where
  "io_status_string s =
     (case s of IoOk \<Rightarrow> ''ok'' | IoTimeout \<Rightarrow> ''timeout'' | IoClosed \<Rightarrow> ''closed'' | IoError \<Rightarrow> ''error'')"

record ('t, 'g) ws_env =
  make_transport :: "bool \<Rightarrow> 't option"
  tr_connect :: "string \<Rightarrow> nat \<Rightarrow> int \<Rightarrow> 't \<Rightarrow> bool \<times> 't"
  tr_connected :: "'t \<Rightarrow> bool"
  tr_read :: "nat \<Rightarrow> 't \<Rightarrow> io_status \<times> u8 list \<times> 't"
  tr_write :: "u8 list \<Rightarrow> 't \<Rightarrow> io_status \<times> 't"
  tr_close :: "'t \<Rightarrow> 't"
  tr_set_read_timeout :: "int \<Rightarrow> 't \<Rightarrow> 't"
  tr_last_error :: "'t \<Rightarrow> string"
  tr_last_rx_time :: "'t \<Rightarrow> int"
  rng_next :: "'g \<Rightarrow> u32 \<times> 'g"

record ws_stats =
  st_messages :: u64
  st_bytes_received :: u64
  st_pings_received :: u64
  st_pongs_sent :: u64
  st_pongs_received :: u64
  st_frames_sent :: u64

definition ws_stats0 :: ws_stats where
  "ws_stats0 = \<lparr>st_messages = 0, st_bytes_received = 0, st_pings_received = 0, st_pongs_sent = 0,
     st_pongs_received = 0, st_frames_sent = 0\<rparr>"

record ('t, 'g) ws_client =
  cl_transport :: "'t option"
  cl_reader :: frame_reader
  cl_url :: url
  cl_error :: string
  cl_rng :: 'g
  cl_stats :: ws_stats
  cl_open :: bool

definition kReadChunk :: nat where "kReadChunk = 32 * 1024"
definition kMaxHandshakeBytes :: nat where "kMaxHandshakeBytes = 64 * 1024"

definition new_client :: "nat \<Rightarrow> 'g \<Rightarrow> ('t, 'g) ws_client" where
  "new_client max_bytes g =
     \<lparr>cl_transport = None, cl_reader = new_reader max_bytes,
      cl_url = \<lparr>url_host = [], url_path = ''/'', url_port = 0, url_secure = False\<rparr>, cl_error = [],
      cl_rng = g, cl_stats = ws_stats0, cl_open = False\<rparr>"

definition client_connected :: "('t, 'g) ws_env \<Rightarrow> ('t, 'g) ws_client \<Rightarrow> bool" where
  "client_connected env c \<longleftrightarrow>
     cl_open c \<and> (case cl_transport c of None \<Rightarrow> False | Some t \<Rightarrow> tr_connected env t)"

definition client_set_read_timeout :: "('t, 'g) ws_env \<Rightarrow> int \<Rightarrow> ('t, 'g) ws_client \<Rightarrow> ('t, 'g) ws_client" where
  "client_set_read_timeout env ms c =
     (case cl_transport c of None \<Rightarrow> c | Some t \<Rightarrow> c\<lparr>cl_transport := Some (tr_set_read_timeout env ms t)\<rparr>)"

definition client_last_rx_time :: "('t, 'g) ws_env \<Rightarrow> ('t, 'g) ws_client \<Rightarrow> int" where
  "client_last_rx_time env c = (case cl_transport c of None \<Rightarrow> 0 | Some t \<Rightarrow> tr_last_rx_time env t)"

definition error_or :: "('t, 'g) ws_env \<Rightarrow> 't \<Rightarrow> string \<Rightarrow> string" where
  "error_or env t fallback = (if tr_last_error env t = [] then fallback else tr_last_error env t)"

definition text_of :: "u8 list \<Rightarrow> string" where
  "text_of bs = map (\<lambda>b. char_of (unat b)) bs"

section \<open>Sending\<close>

definition send_frame :: "('t, 'g) ws_env \<Rightarrow> opcode \<Rightarrow> u8 list \<Rightarrow> ('t, 'g) ws_client \<Rightarrow> bool \<times> ('t, 'g) ws_client" where
  "send_frame env op payload c =
     (case cl_transport c of
        None \<Rightarrow> (False, c\<lparr>cl_error := ''send: not connected''\<rparr>)
      | Some t \<Rightarrow>
          if \<not> tr_connected env t then (False, c\<lparr>cl_error := ''send: not connected''\<rparr>)
          else
            (case rng_next env (cl_rng c) of (mask_key, g) \<Rightarrow>
             (case tr_write env (write_frame_header op (of_nat (length payload)) mask_key True @ apply_mask payload mask_key 0) t of
                (io, t') \<Rightarrow>
                  let c1 = c\<lparr>cl_rng := g, cl_transport := Some t'\<rparr> in
                  if io \<noteq> IoOk then (False, c1\<lparr>cl_error := error_or env t' ''frame write failed''\<rparr>)
                  else (True, c1\<lparr>cl_stats := (cl_stats c1)\<lparr>st_frames_sent := st_frames_sent (cl_stats c1) + 1\<rparr>\<rparr>))))"

definition send_text :: "('t, 'g) ws_env \<Rightarrow> u8 list \<Rightarrow> ('t, 'g) ws_client \<Rightarrow> bool \<times> ('t, 'g) ws_client" where
  "send_text env payload c = send_frame env OpText payload c"

definition send_binary :: "('t, 'g) ws_env \<Rightarrow> u8 list \<Rightarrow> ('t, 'g) ws_client \<Rightarrow> bool \<times> ('t, 'g) ws_client" where
  "send_binary env payload c = send_frame env OpBinary payload c"

definition send_ping :: "('t, 'g) ws_env \<Rightarrow> u8 list \<Rightarrow> ('t, 'g) ws_client \<Rightarrow> bool \<times> ('t, 'g) ws_client" where
  "send_ping env payload c =
     (if length payload > kMaxControlPayload then (False, c\<lparr>cl_error := ''ping payload exceeds 125 bytes''\<rparr>)
      else send_frame env OpPing payload c)"

definition close_payload :: "close_code \<Rightarrow> string \<Rightarrow> u8 list" where
  "close_payload code reason =
     [ucast (drop_bit 8 (close_value code)), ucast (close_value code)] @ bytes_of (take (kMaxControlPayload - 2) reason)"

definition client_close :: "('t, 'g) ws_env \<Rightarrow> close_code \<Rightarrow> string \<Rightarrow> ('t, 'g) ws_client \<Rightarrow> ('t, 'g) ws_client" where
  "client_close env code reason c =
     (let c1 = (if (case cl_transport c of None \<Rightarrow> False | Some t \<Rightarrow> tr_connected env t) \<and> cl_open c
                then snd (send_frame env OpClose (close_payload code reason) c) else c);
          c2 = (case cl_transport c1 of None \<Rightarrow> c1 | Some t \<Rightarrow> c1\<lparr>cl_transport := Some (tr_close env t)\<rparr>)
      in c2\<lparr>cl_open := False\<rparr>)"

text \<open>The destructor.\<close>

definition client_destroy :: "('t, 'g) ws_env \<Rightarrow> ('t, 'g) ws_client \<Rightarrow> ('t, 'g) ws_client" where
  "client_destroy env c = (if cl_open c then client_close env CcGoingAway [] c else c)"

section \<open>The handshake\<close>

partial_function (option) complete_handshake ::
    "('t, 'g) ws_env \<Rightarrow> string \<Rightarrow> string \<Rightarrow> 't \<Rightarrow> ('t, 'g) ws_client \<Rightarrow> (bool \<times> ('t, 'g) ws_client) option" where
  "complete_handshake env expected_accept response t c =
     (case parse_handshake_response response expected_accept handshake_response0 of (status, parsed) \<Rightarrow>
      let fail = (\<lambda>t msg. Some (False, c\<lparr>cl_transport := Some t, cl_error := msg\<rparr>)) in
      if status = HsOk then
        Some (True, c\<lparr>cl_transport := Some t,
          cl_reader := (if header_bytes parsed < length response
                        then reader_append (cl_reader c) (bytes_of (drop (header_bytes parsed) response)) else cl_reader c)\<rparr>)
      else if status = HsNotSwitchingProtocols then
        fail t (''handshake rejected: HTTP '' @ write_decimal (nat (status_code parsed)) [])
      else if status \<noteq> HsIncomplete then fail t (''handshake failed: '' @ handshake_status_string status)
      else if length response > kMaxHandshakeBytes then fail t ''handshake response exceeded ceiling''
      else
        (case tr_read env kReadChunk t of (io, bytes, t') \<Rightarrow>
           if io = IoOk then complete_handshake env expected_accept (response @ text_of bytes) t' c
           else if io = IoTimeout then fail t' ''handshake timed out''
           else if io = IoClosed then fail t' ''peer closed during handshake''
           else fail t' (error_or env t' ''handshake read failed'')))"

fun nonce_bytes :: "nat \<Rightarrow> ('t, 'g) ws_env \<Rightarrow> 'g \<Rightarrow> u8 list \<times> 'g" where
  "nonce_bytes 0 env g = ([], g)"
| "nonce_bytes (Suc n) env g =
     (case rng_next env g of (key, g1) \<Rightarrow>
      (case nonce_bytes n env g1 of (rest, g2) \<Rightarrow> (map (key_byte key) [0..<4] @ rest, g2)))"

definition drop_transport :: "('t, 'g) ws_env \<Rightarrow> ('t, 'g) ws_client \<Rightarrow> ('t, 'g) ws_client" where
  "drop_transport env c =
     (case cl_transport c of None \<Rightarrow> c | Some t \<Rightarrow> c\<lparr>cl_transport := Some (tr_close env t)\<rparr>)"

definition client_connect ::
    "('t, 'g) ws_env \<Rightarrow> string \<Rightarrow> int \<Rightarrow> int \<Rightarrow> ('t, 'g) ws_client \<Rightarrow> (bool \<times> ('t, 'g) ws_client) option" where
  "client_connect env url_chars handshake_timeout read_timeout c0 =
     (let c = c0\<lparr>cl_error := [], cl_reader := reader_reset (cl_reader c0), cl_stats := ws_stats0, cl_open := False\<rparr>
      in case parse_url url_chars of
           Inl e \<Rightarrow> Some (False, c\<lparr>cl_error := ''bad url: '' @ url_error_string e\<rparr>)
         | Inr u \<Rightarrow>
             let c = c\<lparr>cl_url := u\<rparr> in
             (case make_transport env (url_secure u) of
                None \<Rightarrow> Some (False, c\<lparr>cl_transport := None, cl_error := ''no TLS backend in this build''\<rparr>)
              | Some t0 \<Rightarrow>
                  (case tr_connect env (url_host u) (url_port u) handshake_timeout t0 of (ok, t) \<Rightarrow>
                   let c = c\<lparr>cl_transport := Some t\<rparr> in
                   if \<not> ok then Some (False, c\<lparr>cl_error := tr_last_error env t\<rparr>)
                   else
                     (case nonce_bytes 4 env (cl_rng c) of (nonce, g) \<Rightarrow>
                      let c = c\<lparr>cl_rng := g\<rparr>;
                          key = base64_encode nonce;
                          request = make_handshake_request (url_host u) (url_port u) (url_path u) key (url_secure u)
                      in case tr_write env (bytes_of request) t of (io, t) \<Rightarrow>
                           let c = c\<lparr>cl_transport := Some t\<rparr> in
                           if io \<noteq> IoOk then
                             Some (False, drop_transport env (c\<lparr>cl_error := error_or env t ''handshake write failed''\<rparr>))
                           else
                             (case complete_handshake env (websocket_accept_for key) [] t c of
                                None \<Rightarrow> None
                              | Some (ok, c) \<Rightarrow>
                                  if \<not> ok then Some (False, drop_transport env c)
                                  else Some (True, (client_set_read_timeout env read_timeout c)\<lparr>cl_open := True\<rparr>))))))"

section \<open>Polling\<close>

text \<open>One turn of the loop of \<open>poll\<close>: it returns, or it goes round.\<close>

datatype ('t, 'g) poll_result =
  PollDone read_status event "('t, 'g) ws_client"
| PollAgain event "('t, 'g) ws_client"

definition poll_read :: "('t, 'g) ws_env \<Rightarrow> event \<Rightarrow> ('t, 'g) ws_client \<Rightarrow> ('t, 'g) poll_result" where
  "poll_read env out c =
     (case tr_read env kReadChunk (the (cl_transport c)) of (io, bytes, t') \<Rightarrow>
        let room = take kReadChunk (bytes @ replicate kReadChunk 0);
            got = length bytes;
            c1 = c\<lparr>cl_transport := Some t',
                   cl_reader := reader_commit (writable_tail (cl_reader c) room) (if io = IoOk then got else 0) kReadChunk\<rparr>
        in if io = IoOk then
             PollAgain out (c1\<lparr>cl_stats := (cl_stats c1)\<lparr>st_bytes_received := st_bytes_received (cl_stats c1) + of_nat got\<rparr>\<rparr>)
           else if io = IoTimeout then PollDone NeedMore out c1
           else if io = IoClosed then
             PollDone GotClose (out\<lparr>ev_close_code := close_value CcAbnormal, ev_payload := []\<rparr>) (c1\<lparr>cl_open := False\<rparr>)
           else PollDone ReadError out (c1\<lparr>cl_error := error_or env t' ''transport read failed'', cl_open := False\<rparr>))"

definition poll_turn :: "('t, 'g) ws_env \<Rightarrow> event \<Rightarrow> ('t, 'g) ws_client \<Rightarrow> ('t, 'g) poll_result" where
  "poll_turn env out0 c0 =
     (case reader_next out0 (cl_reader c0) of (status, out, r) \<Rightarrow>
      let c = c0\<lparr>cl_reader := r\<rparr>; stats = cl_stats c in
      case status of
        GotMessage \<Rightarrow> PollDone GotMessage out (c\<lparr>cl_stats := stats\<lparr>st_messages := st_messages stats + 1\<rparr>\<rparr>)
      | GotPing \<Rightarrow>
          (case send_frame env OpPong (ev_payload out) (c\<lparr>cl_stats := stats\<lparr>st_pings_received := st_pings_received stats + 1\<rparr>\<rparr>) of
             (sent, c1) \<Rightarrow>
               if \<not> sent then PollDone ReadError out c1
               else PollAgain out (c1\<lparr>cl_stats := (cl_stats c1)\<lparr>st_pongs_sent := st_pongs_sent (cl_stats c1) + 1\<rparr>\<rparr>))
      | GotPong \<Rightarrow> PollAgain out (c\<lparr>cl_stats := stats\<lparr>st_pongs_received := st_pongs_received stats + 1\<rparr>\<rparr>)
      | GotClose \<Rightarrow>
          (let c1 = snd (send_frame env OpClose (ev_payload out) c)
           in PollDone GotClose out (drop_transport env (c1\<lparr>cl_open := False\<rparr>)))
      | ReadError \<Rightarrow>
          PollDone ReadError out (client_close env CcProtocolError ''protocol error'' (c\<lparr>cl_error := ''peer violated RFC 6455''\<rparr>))
      | MessageTooLarge \<Rightarrow>
          PollDone MessageTooLarge out
            (client_close env CcMessageTooBig ''message too big'' (c\<lparr>cl_error := ''message exceeded the configured ceiling''\<rparr>))
      | NeedMore \<Rightarrow> poll_read env out c)"

partial_function (option) poll_loop ::
    "('t, 'g) ws_env \<Rightarrow> event \<Rightarrow> ('t, 'g) ws_client \<Rightarrow> (read_status \<times> event \<times> ('t, 'g) ws_client) option" where
  "poll_loop env out c =
     (case poll_turn env out c of
        PollDone st ev c' \<Rightarrow> Some (st, ev, c')
      | PollAgain ev c' \<Rightarrow> poll_loop env ev c')"

definition client_poll ::
    "('t, 'g) ws_env \<Rightarrow> event \<Rightarrow> ('t, 'g) ws_client \<Rightarrow> (read_status \<times> event \<times> ('t, 'g) ws_client) option" where
  "client_poll env out c =
     (if \<not> client_connected env c then Some (ReadError, out, c\<lparr>cl_error := ''poll: not connected''\<rparr>)
      else poll_loop env out c)"

section \<open>Text and bytes\<close>

lemma unat_char: "unat (of_char c :: u8) = of_char c"
proof -
  have "(of_char c :: nat) < 2 ^ 8" by (simp add: of_char_def horner_sum_bound [THEN less_le_trans])
  then have "unat (of_nat (of_char c) :: u8) = of_char c" by (simp add: unat_of_nat take_bit_nat_eq_self)
  then show ?thesis by (simp only: of_nat_of_char)
qed

lemma text_bytes [simp]: "text_of (bytes_of s) = s" "bytes_of (text_of bs) = bs"
proof -
  show "text_of (bytes_of s) = s" by (simp add: text_of_def bytes_of_def unat_char comp_def)
  have "(of_char (char_of (unat b)) :: u8) = b" for b :: u8
    by (rule word_unat_eq_iff [THEN iffD2]) (use unsigned_less [of b, where 'a=nat] in \<open>simp add: unat_char\<close>)
  then show "bytes_of (text_of bs) = bs" by (simp add: text_of_def bytes_of_def comp_def)
qed

lemma text_of_append [simp]: "text_of (a @ b) = text_of a @ text_of b" "text_of [] = []" "length (text_of bs) = length bs"
  by (simp_all add: text_of_def)

lemma bytes_of_append [simp]: "bytes_of (a @ b) = bytes_of a @ bytes_of b" "bytes_of [] = []" "length (bytes_of s) = length s"
  by (simp_all add: bytes_of_def)

section \<open>What a sent frame is\<close>

lemma send_frame_sends:
  assumes "cl_transport c = Some t" "tr_connected env t" "rng_next env (cl_rng c) = (key, g)"
    and "tr_write env (write_frame_header op (of_nat (length payload)) key True @ apply_mask payload key 0) t = (io, t')"
  shows "fst (send_frame env op payload c) \<longleftrightarrow> io = IoOk"
    and "cl_transport (snd (send_frame env op payload c)) = Some t'"
    and "st_frames_sent (cl_stats (snd (send_frame env op payload c))) =
      st_frames_sent (cl_stats c) + (if io = IoOk then 1 else 0)"
  using assms by (simp_all add: send_frame_def Let_def)

lemma send_frame_keeps:
  "cl_reader (snd (send_frame env op payload c)) = cl_reader c"
  "cl_open (snd (send_frame env op payload c)) = cl_open c"
  "st_messages (cl_stats (snd (send_frame env op payload c))) = st_messages (cl_stats c)"
  by (simp_all add: send_frame_def Let_def split: option.splits prod.splits)

lemma close_not_open: "\<not> cl_open (client_close env code reason c)"
  by (simp add: client_close_def Let_def)

section \<open>The frames that come with the response\<close>

text \<open>The transport's reads, one after the other, return the chunks \<open>cs\<close>.\<close>

fun delivers :: "('t, 'g) ws_env \<Rightarrow> 't \<Rightarrow> u8 list list \<Rightarrow> 't \<Rightarrow> bool" where
  "delivers env t [] t' \<longleftrightarrow> t = t'"
| "delivers env t (c # cs) t' \<longleftrightarrow> (\<exists>t1. tr_read env kReadChunk t = (IoOk, c, t1) \<and> delivers env t1 cs t')"

lemma response_blank: "find_text (crlf @ crlf) (server_response (websocket_accept_for key) @ frames) =
    Some (length (server_response (websocket_accept_for key)) - 4)"
proof -
  define r where "r = server_response (websocket_accept_for key) @ frames"
  have p: "parse_handshake_response r (websocket_accept_for key) handshake_response0 =
    (HsOk, handshake_response0\<lparr>header_bytes := length (server_response (websocket_accept_for key)), status_code := 101\<rparr>)"
    unfolding r_def using server_response_parsed [OF accept_clean] by simp
  then obtain e where e: "find_text (crlf @ crlf) r = Some e"
    by (cases "find_text (crlf @ crlf) r") (simp_all add: parse_handshake_response_def)
  have "header_bytes (snd (parse_handshake_response r (websocket_accept_for key) handshake_response0)) = e + 4"
    by (simp add: parse_handshake_response_def e Let_def split: option.split code_result.split)
  then show ?thesis using e p by (simp add: r_def [symmetric])
qed

lemma short_response: "length (server_response (websocket_accept_for key)) = 129"
  by (simp add: server_response_def crlf_def websocket_accept_for_def base64_length sha1_def Let_def be32_bytes_def)

lemma handshake_reads_on:
  assumes "delivers env t cs t'" "cs \<noteq> []" "reader_ok (cl_reader c)"
    and "response @ text_of (concat cs) = server_response (websocket_accept_for key) @ text_of frames"
    and "length response + length (concat (butlast cs)) < length (server_response (websocket_accept_for key))"
  shows "\<exists>r. complete_handshake env (websocket_accept_for key) response t c =
      Some (True, c\<lparr>cl_transport := Some t', cl_reader := r\<rparr>) \<and>
      reader_ok r \<and> unread r = unread (cl_reader c) @ frames \<and> partial_msg r = partial_msg (cl_reader c)"
  using assms(1,2,4,5)
proof (induction cs arbitrary: response t)
  case Nil
  then show ?case by simp
next
  case (Cons b cs)
  define R where "R = server_response (websocket_accept_for key)"
  obtain t1 where t1: "tr_read env kReadChunk t = (IoOk, b, t1)" "delivers env t1 cs t'" using Cons.prems(1) by auto
  have short: "length response < length R" using Cons.prems(4) by (simp add: R_def)
  have "response = take (length response) (R @ text_of frames)"
    using Cons.prems(3) by (metis R_def append_eq_conv_conj)
  then have inc: "parse_handshake_response response (websocket_accept_for key) handshake_response0 = (HsIncomplete, handshake_response0)"
    using blank_truncated [OF response_blank [of key "text_of frames"], of "length response"] short short_response [of key]
    by (simp add: parse_handshake_response_def R_def)
  have step: "complete_handshake env (websocket_accept_for key) response t c =
      complete_handshake env (websocket_accept_for key) (response @ text_of b) t1 c"
    using inc t1 short short_response [of key]
    by (subst complete_handshake.simps) (simp add: kMaxHandshakeBytes_def R_def)
  show ?case
  proof (cases cs)
    case Nil
    then have full: "response @ text_of b = R @ text_of frames" "t1 = t'" using Cons.prems(3) t1 by (simp_all add: R_def)
    have p: "parse_handshake_response (R @ text_of frames) (websocket_accept_for key) handshake_response0 =
       (HsOk, handshake_response0\<lparr>header_bytes := length R, status_code := 101\<rparr>)"
      unfolding R_def using server_response_parsed [OF accept_clean] by simp
    have "complete_handshake env (websocket_accept_for key) (R @ text_of frames) t' c =
        Some (True, c\<lparr>cl_transport := Some t', cl_reader :=
          (if 0 < length frames then reader_append (cl_reader c) frames else cl_reader c)\<rparr>)"
      by (subst complete_handshake.simps) (simp add: p)
    then show ?thesis using step full append_props [OF assms(3), of frames] assms(3)
      by (intro exI [of _ "if 0 < length frames then reader_append (cl_reader c) frames else cl_reader c"]) auto
  next
    case (Cons b2 cs2)
    then show ?thesis
      using Cons.IH [of t1 "response @ text_of b"] Cons.prems t1(2) step by simp
  qed
qed

section \<open>What polling keeps\<close>

definition client_ok :: "('t, 'g) ws_client \<Rightarrow> bool" where
  "client_ok c \<longleftrightarrow> reader_ok (cl_reader c) \<or> reader_failed (cl_reader c)"

lemma commit_ok:
  assumes "reader_ok r" "length bytes \<le> kReadChunk"
  shows "reader_commit (writable_tail r (take kReadChunk (bytes @ replicate kReadChunk 0))) (length bytes) kReadChunk =
      reader_append r bytes"
    and "reader_commit (writable_tail r (take kReadChunk (x @ replicate kReadChunk 0))) 0 kReadChunk = reader_append r []"
proof -
  have "take kReadChunk (bytes @ replicate kReadChunk 0) = bytes @ replicate (kReadChunk - length bytes) 0"
    using assms(2) by simp
  then show "reader_commit (writable_tail r (take kReadChunk (bytes @ replicate kReadChunk 0))) (length bytes) kReadChunk =
      reader_append r bytes"
    using commit_is_append [of "replicate (kReadChunk - length bytes) 0" kReadChunk bytes r] assms(2) by simp
  show "reader_commit (writable_tail r (take kReadChunk (x @ replicate kReadChunk 0))) 0 kReadChunk = reader_append r []"
    using commit_is_append [of "take kReadChunk (x @ replicate kReadChunk 0)" kReadChunk "[]" r] by simp
qed

text \<open>The transport hands over at most what it was asked for.\<close>

definition reads_fit :: "('t, 'g) ws_env \<Rightarrow> bool" where
  "reads_fit env \<longleftrightarrow> (\<forall>n t io bytes t'. tr_read env n t = (io, bytes, t') \<longrightarrow> length bytes \<le> n)"

definition poll_outcome :: "('t, 'g) ws_client \<Rightarrow> read_status \<Rightarrow> event \<Rightarrow> ('t, 'g) ws_client \<Rightarrow> bool" where
  "poll_outcome c st ev c' \<longleftrightarrow>
     st \<in> {NeedMore, GotMessage, GotClose, ReadError, MessageTooLarge} \<and>
     (st \<in> {GotClose, MessageTooLarge} \<longrightarrow> \<not> cl_open c') \<and>
     (st = GotMessage \<longrightarrow> length (ev_payload ev) \<le> max_message_bytes (cl_reader c)) \<and>
     st_messages (cl_stats c') = st_messages (cl_stats c) + (if st = GotMessage then 1 else 0) \<and>
     (st \<in> {GotMessage, NeedMore} \<longrightarrow> reader_ok (cl_reader c') \<and> cl_open c' = cl_open c)"

lemma drop_transport_keeps: "cl_open (drop_transport env c) = cl_open c" "cl_stats (drop_transport env c) = cl_stats c"
  by (simp_all add: drop_transport_def split: option.splits)

lemma close_keeps: "st_messages (cl_stats (client_close env code reason c)) = st_messages (cl_stats c)"
  by (simp add: client_close_def Let_def send_frame_keeps split: option.splits)

lemma poll_read_props:
  assumes "reader_ok (cl_reader c)" "reads_fit env"
  shows "poll_read env out c = PollDone st ev c' \<Longrightarrow> poll_outcome c st ev c'"
    and "poll_read env out c = PollAgain ev c' \<Longrightarrow> reader_ok (cl_reader c') \<and> cl_open c' = cl_open c \<and>
      max_message_bytes (cl_reader c') = max_message_bytes (cl_reader c) \<and> st_messages (cl_stats c') = st_messages (cl_stats c)"
proof -
  obtain io bytes t' where rd: "tr_read env kReadChunk (the (cl_transport c)) = (io, bytes, t')"
    by (cases "tr_read env kReadChunk (the (cl_transport c))") auto
  have fit: "length bytes \<le> kReadChunk" using assms(2) rd unfolding reads_fit_def by blast
  note cm = commit_ok(1) [OF assms(1) fit] commit_ok(2) [OF assms(1) fit]
  show "poll_read env out c = PollDone st ev c' \<Longrightarrow> poll_outcome c st ev c'"
    by (cases io) (auto simp: poll_read_def rd Let_def cm poll_outcome_def append_props(1) [OF assms(1)] simp del: take_append)
  show "poll_read env out c = PollAgain ev c' \<Longrightarrow> reader_ok (cl_reader c') \<and> cl_open c' = cl_open c \<and>
      max_message_bytes (cl_reader c') = max_message_bytes (cl_reader c) \<and> st_messages (cl_stats c') = st_messages (cl_stats c)"
    by (cases io) (auto simp: poll_read_def rd Let_def cm append_props [OF assms(1)] simp del: take_append)
qed

lemma poll_turn_props:
  assumes "reader_ok (cl_reader c)" "reads_fit env"
  shows "poll_turn env out c = PollDone st ev c' \<Longrightarrow> poll_outcome c st ev c'"
    and "poll_turn env out c = PollAgain ev c' \<Longrightarrow> reader_ok (cl_reader c') \<and> cl_open c' = cl_open c \<and>
      max_message_bytes (cl_reader c') = max_message_bytes (cl_reader c) \<and> st_messages (cl_stats c') = st_messages (cl_stats c)"
proof -
  obtain status out1 r where nx: "reader_next out (cl_reader c) = (status, out1, r)"
    by (cases "reader_next out (cl_reader c)") auto
  note sim = reader_next_sim [OF assms(1) nx]
  have ok: "status \<notin> {ReadError, MessageTooLarge} \<Longrightarrow> reader_ok r" using sim(2) by (auto simp: stops_def)
  show "poll_turn env out c = PollDone st ev c' \<Longrightarrow> poll_outcome c st ev c'"
  proof (cases status)
    case NeedMore
    assume "poll_turn env out c = PollDone st ev c'"
    then have "poll_read env out1 (c\<lparr>cl_reader := r\<rparr>) = PollDone st ev c'" using nx NeedMore by (simp add: poll_turn_def)
    from poll_read_props(1) [OF _ assms(2) this] show ?thesis
      using ok NeedMore sim(3) by (simp add: poll_outcome_def)
  qed (use sim ok in \<open>auto simp: poll_turn_def nx Let_def poll_outcome_def stops_def send_frame_keeps close_not_open
      drop_transport_keeps close_keeps case_prod_unfold split: if_splits\<close>)
  show "poll_turn env out c = PollAgain ev c' \<Longrightarrow> reader_ok (cl_reader c') \<and> cl_open c' = cl_open c \<and>
      max_message_bytes (cl_reader c') = max_message_bytes (cl_reader c) \<and> st_messages (cl_stats c') = st_messages (cl_stats c)"
  proof (cases status)
    case NeedMore
    assume "poll_turn env out c = PollAgain ev c'"
    then have "poll_read env out1 (c\<lparr>cl_reader := r\<rparr>) = PollAgain ev c'" using nx NeedMore by (simp add: poll_turn_def)
    from poll_read_props(2) [OF _ assms(2) this] show ?thesis using ok NeedMore sim(3) by simp
  qed (use sim ok in \<open>auto simp: poll_turn_def nx Let_def send_frame_keeps case_prod_unfold split: if_splits\<close>)
qed

lemma poll_loop_outcome_aux:
  assumes "poll_loop env out c = Some res"
  shows "reader_ok (cl_reader c) \<longrightarrow> reads_fit env \<longrightarrow> (case res of (st, ev, c') \<Rightarrow> poll_outcome c st ev c')"
  using assms
proof (rule poll_loop.raw_induct [where P = "\<lambda>env out c res. reader_ok (cl_reader c) \<longrightarrow> reads_fit env \<longrightarrow>
    (case res of (st, ev, c') \<Rightarrow> poll_outcome c st ev c')", rotated])
  fix poll :: "('t, 'g) ws_env \<Rightarrow> event \<Rightarrow> ('t, 'g) ws_client \<Rightarrow> (read_status \<times> event \<times> ('t, 'g) ws_client) option"
  fix env out c res
  assume IH: "\<And>env out c res. poll env out c = Some res \<Longrightarrow> reader_ok (cl_reader c) \<longrightarrow> reads_fit env \<longrightarrow>
      (case res of (st, ev, c') \<Rightarrow> poll_outcome c st ev c')"
    and body: "(case poll_turn env out c of PollDone st ev c' \<Rightarrow> Some (st, ev, c') | PollAgain ev c' \<Rightarrow> poll env ev c') = Some res"
  show "reader_ok (cl_reader c) \<longrightarrow> reads_fit env \<longrightarrow> (case res of (st, ev, c') \<Rightarrow> poll_outcome c st ev c')"
  proof (intro impI)
    assume ok: "reader_ok (cl_reader c)" "reads_fit env"
    show "case res of (st, ev, c') \<Rightarrow> poll_outcome c st ev c'"
    proof (cases "poll_turn env out c")
      case (PollDone st' ev' c1)
      then show ?thesis using body poll_turn_props(1) [OF ok PollDone] by auto
    next
      case (PollAgain ev' c1)
      note k = poll_turn_props(2) [OF ok PollAgain]
      have "poll env ev' c1 = Some res" using body PollAgain by simp
      from IH [OF this] have "case res of (st, ev, c') \<Rightarrow> poll_outcome c1 st ev c'" using k ok(2) by blast
      then show ?thesis using k by (auto simp: poll_outcome_def)
    qed
  qed
qed

lemma poll_loop_outcome:
  "poll_loop env out c = Some (st, ev, c') \<Longrightarrow> reader_ok (cl_reader c) \<Longrightarrow> reads_fit env \<Longrightarrow> poll_outcome c st ev c'"
  using poll_loop_outcome_aux by fastforce

section \<open>Polling returns\<close>

text \<open>
  A transport whose reads get closer to an end: every read that delivers something, and no write, makes the
  measure smaller, and writing does not make it larger.  Then \<open>poll\<close> returns.
\<close>

definition runs_dry :: "('t, 'g) ws_env \<Rightarrow> ('t \<Rightarrow> nat) \<Rightarrow> bool" where
  "runs_dry env \<mu> \<longleftrightarrow>
     (\<forall>n t bytes t'. tr_read env n t = (IoOk, bytes, t') \<longrightarrow> \<mu> t' < \<mu> t) \<and>
     (\<forall>bytes t io t'. tr_write env bytes t = (io, t') \<longrightarrow> \<mu> t' \<le> \<mu> t)"

definition poll_measure :: "('t \<Rightarrow> nat) \<Rightarrow> ('t, 'g) ws_client \<Rightarrow> nat \<times> nat" where
  "poll_measure \<mu> c = (\<mu> (the (cl_transport c)), length (unread (cl_reader c)))"

lemma send_frame_transport:
  assumes "runs_dry env \<mu>" "cl_transport c = Some t"
  shows "\<exists>t'. cl_transport (snd (send_frame env op payload c)) = Some t' \<and> \<mu> t' \<le> \<mu> t"
proof (cases "tr_connected env t")
  case True
  obtain key g where g: "rng_next env (cl_rng c) = (key, g)" by (cases "rng_next env (cl_rng c)")
  obtain io t' where w: "tr_write env (write_frame_header op (of_nat (length payload)) key True @ apply_mask payload key 0) t = (io, t')"
    by (cases "tr_write env (write_frame_header op (of_nat (length payload)) key True @ apply_mask payload key 0) t")
  have "\<mu> t' \<le> \<mu> t" using assms(1) w unfolding runs_dry_def by blast
  then show ?thesis using send_frame_sends(2) [OF assms(2) True g w] by simp
next
  case False
  then show ?thesis using assms(2) by (simp add: send_frame_def)
qed

lemma poll_turn_progress:
  assumes "reader_ok (cl_reader c)" "reads_fit env" "runs_dry env \<mu>" "cl_transport c = Some t"
    and "poll_turn env out c = PollAgain ev c'"
  shows "(poll_measure \<mu> c', poll_measure \<mu> c) \<in> less_than <*lex*> less_than \<and> cl_transport c' \<noteq> None"
proof -
  obtain status out1 r where nx: "reader_next out (cl_reader c) = (status, out1, r)"
    by (cases "reader_next out (cl_reader c)") auto
  note sim = reader_next_sim [OF assms(1) nx]
  have shrink: "\<not> stops status \<Longrightarrow> length (unread r) < length (unread (cl_reader c))"
    using reader_next_progress [OF nx] sim(2) ok_not_failed by auto
  show ?thesis
  proof (cases status)
    case NeedMore
    then have p: "poll_read env out1 (c\<lparr>cl_reader := r\<rparr>) = PollAgain ev c'" using nx assms(5) by (simp add: poll_turn_def)
    obtain io bytes t' where rd: "tr_read env kReadChunk t = (io, bytes, t')" by (cases "tr_read env kReadChunk t") auto
    then have "io = IoOk" "cl_transport c' = Some t'"
      using p assms(4) by (auto simp: poll_read_def Let_def split: if_splits)
    moreover have "\<mu> t' < \<mu> t" using assms(3) rd \<open>io = IoOk\<close> unfolding runs_dry_def by blast
    ultimately show ?thesis using assms(4) by (simp add: poll_measure_def)
  next
    case GotPing
    define c1 where "c1 = c\<lparr>cl_reader := r, cl_stats := (cl_stats c)\<lparr>st_pings_received := st_pings_received (cl_stats c) + 1\<rparr>\<rparr>"
    have "cl_transport c1 = Some t" using assms(4) by (simp add: c1_def)
    then obtain t' where t': "cl_transport (snd (send_frame env OpPong (ev_payload out1) c1)) = Some t'" "\<mu> t' \<le> \<mu> t"
      using send_frame_transport [OF assms(3)] by blast
    have "cl_transport c' = Some t'" "cl_reader c' = r"
      using assms(5) t'(1) GotPing
      by (auto simp: poll_turn_def nx Let_def c1_def case_prod_unfold send_frame_keeps split: if_splits)
    then show ?thesis using t'(2) shrink GotPing assms(4) by (auto simp: poll_measure_def stops_def)
  next
    case GotPong
    then have "cl_transport c' = Some t" "cl_reader c' = r"
      using assms(4,5) by (auto simp: poll_turn_def nx Let_def)
    then show ?thesis using shrink GotPong assms(4) by (auto simp: poll_measure_def stops_def)
  qed (use assms(5) in \<open>auto simp: poll_turn_def nx Let_def\<close>)
qed

lemma poll_loop_returns:
  assumes "reader_ok (cl_reader c)" "reads_fit env" "runs_dry env \<mu>" "cl_transport c \<noteq> None"
  shows "\<exists>res. poll_loop env out c = Some res"
  using assms(1,4)
proof (induction c arbitrary: out rule: wf_induct_rule [OF wf_inv_image [OF wf_lex_prod [OF wf_less_than wf_less_than], of "poll_measure \<mu>"]])
  case (1 c)
  obtain t where t: "cl_transport c = Some t" using 1(3) by auto
  show ?case
  proof (cases "poll_turn env out c")
    case (PollDone st ev c')
    then show ?thesis by (simp add: poll_loop.simps [of env out c])
  next
    case (PollAgain ev c')
    note p = poll_turn_progress [OF 1(2) assms(2,3) t PollAgain]
    have "\<exists>res. poll_loop env ev c' = Some res"
      using 1(1) [of c' ev] p poll_turn_props(2) [OF 1(2) assms(2) PollAgain] by (auto simp: in_inv_image)
    then show ?thesis using PollAgain by (simp add: poll_loop.simps [of env out c])
  qed
qed

section \<open>The handshake returns\<close>

lemma handshake_returns:
  assumes "\<And>t bytes t'. tr_read env kReadChunk t = (IoOk, bytes, t') \<Longrightarrow> bytes \<noteq> []"
  shows "\<exists>res. complete_handshake env accept response t c = Some res"
proof (induction "kMaxHandshakeBytes + 1 - length response" arbitrary: response t rule: less_induct)
  case less
  obtain status parsed where p: "parse_handshake_response response accept handshake_response0 = (status, parsed)"
    by (cases "parse_handshake_response response accept handshake_response0")
  obtain io bytes t' where rd: "tr_read env kReadChunk t = (io, bytes, t')" by (cases "tr_read env kReadChunk t") auto
  show ?case
  proof (cases "status = HsIncomplete \<and> \<not> length response > kMaxHandshakeBytes \<and> io = IoOk")
    case True
    then have "bytes \<noteq> []" using assms rd by blast
    then have "kMaxHandshakeBytes + 1 - length (response @ text_of bytes) < kMaxHandshakeBytes + 1 - length response"
      using True by (cases bytes) auto
    from less [OF this, of t'] show ?thesis
      using True p rd by (subst complete_handshake.simps) simp
  next
    case False
    then show ?thesis using p rd by (subst complete_handshake.simps) (auto simp: Let_def)
  qed
qed

section \<open>A scripted transport\<close>

text \<open>
  The instance the witnesses run on: what is still to be delivered, and what was written, newest first.  When
  nothing is left, a read times out.  The generator counts.
\<close>

type_synonym script = "u8 list list \<times> u8 list list"

definition script_read :: "nat \<Rightarrow> script \<Rightarrow> io_status \<times> u8 list \<times> script" where
  "script_read n t = (case fst t of [] \<Rightarrow> (IoTimeout, [], t) | b # bs \<Rightarrow> (IoOk, take n b, (bs, snd t)))"

definition script_env :: "(script, nat) ws_env" where
  "script_env =
     \<lparr>make_transport = (\<lambda>_. Some ([], [])), tr_connect = (\<lambda>_ _ _ t. (True, t)), tr_connected = (\<lambda>_. True),
      tr_read = script_read, tr_write = (\<lambda>bytes t. (IoOk, (fst t, bytes # snd t))), tr_close = (\<lambda>t. t),
      tr_set_read_timeout = (\<lambda>_ t. t), tr_last_error = (\<lambda>_. []), tr_last_rx_time = (\<lambda>_. 0),
      rng_next = (\<lambda>g. (of_nat g, Suc g))\<rparr>"

definition script_client :: "u8 list list \<Rightarrow> (script, nat) ws_client" where
  "script_client chunks = (new_client 100 7)\<lparr>cl_transport := Some (chunks, []), cl_open := True\<rparr>"

lemma script_reads_fit: "reads_fit script_env"
  by (auto simp: reads_fit_def script_env_def script_read_def split: list.splits)

lemma script_runs_dry: "runs_dry script_env (\<lambda>t. length (fst t))"
  by (auto simp: runs_dry_def script_env_def script_read_def split: list.splits)

lemma script_client_ok: "reader_ok (cl_reader (script_client chunks))" "cl_transport (script_client chunks) = Some (chunks, [])"
    "max_message_bytes (cl_reader (script_client chunks)) = 100" "cl_open (script_client chunks)" "client_connected script_env (script_client chunks)"
  by (simp_all add: script_client_def new_client_def client_connected_def script_env_def)

section \<open>Properties\<close>

text \<open>
  A frame that is sent can be read.  On a connected transport, \<open>send_frame\<close> writes exactly one buffer: a
  header that parses to the frame's opcode, length and fresh mask key, final and masked, followed by a payload that
  unmasks to what was given; it succeeds and counts exactly when the transport took the buffer.
\<close>

theorem sent_frame_is_readable:
  assumes "cl_transport c = Some t" "tr_connected env t" "rng_next env (cl_rng c) = (key, g)"
    and "length payload < 2 ^ 63" "is_control op \<longrightarrow> length payload \<le> kMaxControlPayload"
  shows "\<exists>wire h. parse_frame_header wire = FrameOk h \<and> fh_opcode h = op \<and> unat (fh_payload_len h) = length payload \<and>
      fh_mask_key h = key \<and> fh_fin h \<and> fh_masked h \<and> length wire = fh_header_size h + length payload \<and>
      apply_mask (drop (fh_header_size h) wire) key 0 = payload \<and>
      cl_transport (snd (send_frame env op payload c)) = Some (snd (tr_write env wire t)) \<and>
      fst (send_frame env op payload c) = (fst (tr_write env wire t) = IoOk) \<and>
      st_frames_sent (cl_stats (snd (send_frame env op payload c))) =
        st_frames_sent (cl_stats c) + (if fst (tr_write env wire t) = IoOk then 1 else 0)"
proof -
  define hd where "hd = write_frame_header op (of_nat (length payload)) key True"
  define wire where "wire = hd @ apply_mask payload key 0"
  have u: "unat (of_nat (length payload) :: u64) = length payload"
    using assms(4) by (simp add: unat_of_nat take_bit_nat_eq_self)
  have l: "(of_nat (length payload) :: u64) < 0x8000000000000000" using assms(4) by (simp add: word_less_nat_alt u)
  have p: "parse_frame_header wire = FrameOk \<lparr>fh_opcode = op, fh_payload_len = of_nat (length payload), fh_mask_key = key,
      fh_header_size = length hd, fh_fin = True, fh_masked = True\<rparr>"
    using written_header_parses [OF l, of op True key "apply_mask payload key 0"] assms(5) u by (simp add: wire_def hd_def)
  obtain io t' where w: "tr_write env wire t = (io, t')" by (cases "tr_write env wire t")
  note s = send_frame_sends [OF assms(1-3) w [unfolded wire_def hd_def]]
  show ?thesis
    by (rule exI [of _ wire], rule exI, intro conjI, rule p)
      (use s w u in \<open>simp_all add: wire_def mask_involution mask_length\<close>)
qed

lemma sent_frame_is_readable_witness:
  "\<exists>wire h. parse_frame_header wire = FrameOk h \<and> fh_opcode h = OpText \<and> fh_mask_key h = 7 \<and>
     apply_mask (drop (fh_header_size h) wire) 7 0 = [0x41, 0x42] \<and>
     cl_transport (snd (send_frame script_env OpText [0x41, 0x42] (script_client []))) = Some ([], [wire])"
proof -
  have r: "rng_next script_env (cl_rng (script_client [])) = (7, 8)" by (simp add: script_env_def script_client_def new_client_def)
  have "tr_connected script_env ([], [])" by (simp add: script_env_def)
  from sent_frame_is_readable [OF script_client_ok(2) this r, of "[0x41, 0x42]" OpText] show ?thesis
    by (auto simp: is_control_iff script_env_def)
qed

lemma poll_hands_out_messages_facts:
  assumes "client_poll env out c = Some (st, ev, c')" "reader_ok (cl_reader c)" "reads_fit env"
  shows "st \<notin> {GotPing, GotPong}"
    and "st \<in> {GotClose, MessageTooLarge} \<Longrightarrow> \<not> cl_open c'"
    and "st = GotMessage \<Longrightarrow> length (ev_payload ev) \<le> max_message_bytes (cl_reader c)"
    and "st_messages (cl_stats c') = st_messages (cl_stats c) + (if st = GotMessage then 1 else 0)"
    and "st \<in> {GotMessage, NeedMore} \<Longrightarrow> reader_ok (cl_reader c') \<and> cl_open c' = cl_open c"
proof -
  have "poll_outcome c st ev c'"
  proof (cases "client_connected env c")
    case True
    then show ?thesis using assms poll_loop_outcome [of env out c st ev c'] by (simp add: client_poll_def)
  next
    case False
    then show ?thesis using assms(1) by (auto simp: client_poll_def poll_outcome_def)
  qed
  then show "st \<notin> {GotPing, GotPong}" "st \<in> {GotClose, MessageTooLarge} \<Longrightarrow> \<not> cl_open c'"
    "st = GotMessage \<Longrightarrow> length (ev_payload ev) \<le> max_message_bytes (cl_reader c)"
    "st_messages (cl_stats c') = st_messages (cl_stats c) + (if st = GotMessage then 1 else 0)"
    "st \<in> {GotMessage, NeedMore} \<Longrightarrow> reader_ok (cl_reader c') \<and> cl_open c' = cl_open c"
    by (auto simp: poll_outcome_def)
qed

text \<open>
  C37: \<open>poll\<close> hands out messages and nothing else.  Pings and pongs never surface; a message is within the
  ceiling and is the one event that counts as a message; a close or an oversized message leaves the client
  closed; after a message or a timeout the client is as open as before and its reader sound.
\<close>

theorem poll_hands_out_messages:
  assumes "client_poll env out c = Some (st, ev, c')" "reader_ok (cl_reader c)" "reads_fit env"
  shows "st \<notin> {GotPing, GotPong} \<and> (st \<in> {GotClose, MessageTooLarge} \<longrightarrow> \<not> cl_open c') \<and>
    (st = GotMessage \<longrightarrow> length (ev_payload ev) \<le> max_message_bytes (cl_reader c)) \<and>
    st_messages (cl_stats c') = st_messages (cl_stats c) + (if st = GotMessage then 1 else 0) \<and>
    (st \<in> {GotMessage, NeedMore} \<longrightarrow> reader_ok (cl_reader c') \<and> cl_open c' = cl_open c)"
  using poll_hands_out_messages_facts [OF assms] by blast

lemma poll_hands_out_messages_witness:
  "\<exists>st ev c'. client_poll script_env event0 (script_client [[0x89, 0x00, 0x81], [0x01, 0x41]]) = Some (st, ev, c') \<and>
     st \<notin> {GotPing, GotPong}"
proof -
  define c where "c = script_client [[0x89, 0x00, 0x81], [0x01, 0x41]]"
  have ok: "reader_ok (cl_reader c)" "cl_transport c \<noteq> None" "client_connected script_env c"
    by (simp_all add: c_def script_client_ok)
  obtain st ev c' where p: "client_poll script_env event0 c = Some (st, ev, c')"
    using poll_loop_returns [OF ok(1) script_reads_fit script_runs_dry ok(2), of event0] ok(3) by (auto simp: client_poll_def)
  from poll_hands_out_messages [OF p ok(1) script_reads_fit] p show ?thesis by (auto simp: c_def)
qed

lemma poll_returns_facts:
  assumes "reader_ok (cl_reader c)" "reads_fit env" "runs_dry env \<mu>"
  shows "\<exists>st ev c'. client_poll env out c = Some (st, ev, c')"
    and "(\<forall>t bytes t'. tr_read env kReadChunk t = (IoOk, bytes, t') \<longrightarrow> bytes \<noteq> []) \<longrightarrow>
      (\<exists>ok c'. complete_handshake env accept response t c = Some (ok, c'))"
proof -
  show "\<exists>st ev c'. client_poll env out c = Some (st, ev, c')"
  proof (cases "client_connected env c")
    case True
    then have "cl_transport c \<noteq> None" by (auto simp: client_connected_def split: option.splits)
    from poll_loop_returns [OF assms this, of out] show ?thesis using True by (auto simp: client_poll_def)
  qed (simp add: client_poll_def)
  show "(\<forall>t bytes t'. tr_read env kReadChunk t = (IoOk, bytes, t') \<longrightarrow> bytes \<noteq> []) \<longrightarrow>
      (\<exists>ok c'. complete_handshake env accept response t c = Some (ok, c'))"
  proof
    assume "\<forall>t bytes t'. tr_read env kReadChunk t = (IoOk, bytes, t') \<longrightarrow> bytes \<noteq> []"
    then have "\<exists>res. complete_handshake env accept response t c = Some res" by (intro handshake_returns) blast
    then show "\<exists>ok c'. complete_handshake env accept response t c = Some (ok, c')" by auto
  qed
qed



text \<open>
  C36: The first message of the session is not lost.  When a conforming server's response arrives, in reads of any
  sizes, and the read that completes it carries frames behind it, the handshake succeeds and exactly those frames
  are waiting in the reader.
\<close>

theorem frames_behind_the_response_are_kept:
  assumes "delivers env t cs t'" "reader_ok (cl_reader c)"
    and "concat cs = bytes_of (server_response (websocket_accept_for key)) @ frames"
    and "length (concat (butlast cs)) < length (server_response (websocket_accept_for key))"
  shows "\<exists>r. complete_handshake env (websocket_accept_for key) [] t c =
      Some (True, c\<lparr>cl_transport := Some t', cl_reader := r\<rparr>) \<and>
      reader_ok r \<and> unread r = unread (cl_reader c) @ frames \<and> partial_msg r = partial_msg (cl_reader c)"
proof -
  have "cs \<noteq> []"
  proof
    assume "cs = []"
    then have "length (bytes_of (server_response (websocket_accept_for key)) @ frames) = 0" using assms(3) by simp
    then show False using short_response [of key] by simp
  qed
  then show ?thesis
    using handshake_reads_on [OF assms(1) _ assms(2), of "[]" key frames] assms(3,4) by simp
qed

lemma frames_behind_the_response_are_kept_witness:
  "\<exists>r. complete_handshake script_env (websocket_accept_for ''k'') []
       ([take 50 (bytes_of (server_response (websocket_accept_for ''k''))),
         drop 50 (bytes_of (server_response (websocket_accept_for ''k''))) @ [0x81, 0x00]], []) (script_client []) =
     Some (True, (script_client [])\<lparr>cl_transport := Some ([], []), cl_reader := r\<rparr>) \<and> unread r = [0x81, 0x00]"
proof -
  define R where "R = bytes_of (server_response (websocket_accept_for ''k''))"
  define cs where "cs = [take 50 R, drop 50 R @ [0x81, 0x00]]"
  have l: "length R = 129" using short_response [of "''k''"] by (simp add: R_def)
  have d: "delivers script_env (cs, []) cs ([], [])"
    using l by (simp add: cs_def script_env_def script_read_def kReadChunk_def)
  have e: "concat cs = R @ [0x81, 0x00]" "length (concat (butlast cs)) < 129" using l by (simp_all add: cs_def)
  have u: "unread (cl_reader (script_client [])) = []"
    by (simp add: script_client_def new_client_def)
  from frames_behind_the_response_are_kept [OF d script_client_ok(1), of "''k''" "[0x81, 0x00]" "[]"] e short_response [of "''k''"]
  show ?thesis unfolding u by (auto simp: R_def cs_def)
qed

text \<open>
  An observation: the reply to a close frame is meant to echo the peer's code, but the event's payload
  no longer contains it.  A close with code 1000 and the reason "bye" is answered with a close whose
  payload is "bye".
\<close>

lemma close_echo_drops_code:
  "reader_next event0 (reader_append (new_reader 100) [0x88, 0x05, 0x03, 0xE8, 0x62, 0x79, 0x65]) = (GotClose, ev, r) \<Longrightarrow>
   ev_close_code ev = 1000 \<and> ev_payload ev = [0x62, 0x79, 0x65]"
  by (auto simp: reader_next_def reader_append_def reader_compact_def consume_pending_def new_reader_def Let_def
      next_loop.simps parse_frame_header_def parse_length_def is_known_opcode_def opcode_of_def is_control_iff
      emit_control_def kMaxControlPayload_def)

lemma close_reply_is_the_payload:
  "reader_next out (cl_reader c) = (GotClose, ev, r) \<Longrightarrow>
   poll_turn env out c = PollDone GotClose ev
     (drop_transport env ((snd (send_frame env OpClose (ev_payload ev) (c\<lparr>cl_reader := r\<rparr>)))\<lparr>cl_open := False\<rparr>))"
  by (simp add: poll_turn_def Let_def)

text \<open>A pong that cannot be written is reported as a fatal error, but the client stays open.\<close>

lemma failed_pong_leaves_open:
  assumes "reader_next out (cl_reader c) = (GotPing, ev, r)"
    and "\<not> fst (send_frame env OpPong (ev_payload ev) (c\<lparr>cl_reader := r,
           cl_stats := (cl_stats c)\<lparr>st_pings_received := st_pings_received (cl_stats c) + 1\<rparr>\<rparr>))"
  shows "\<exists>c'. poll_loop env out c = Some (ReadError, ev, c') \<and> cl_open c' = cl_open c"
  using assms by (simp add: poll_loop.simps [of env out c] poll_turn_def Let_def case_prod_unfold send_frame_keeps)

end
