(* ===== verification/Json.thy ===== *)
theory Json
  imports Text_View
begin

text \<open>
  The structural JSON reader, \<open>include/crossbook/json.hpp\<close>.  A \<open>string_view\<close> with a position is the text from
  that position on, and a function that returns a new position returns the text from there: \<open>npos\<close> is
  \<open>None\<close>.  The span between two positions is \<open>span s rest\<close>.  The templates that take a callback thread its
  captured state; their result is the returned flag and the final state.
\<close>

section \<open>Characters and scalars\<close>

datatype json_type = JsonInvalid | JsonObject | JsonArray | JsonString | JsonNumber | JsonBool | JsonNull

record json_value =
  jv_raw :: string
  jv_type :: json_type

definition json_value0 :: json_value where "json_value0 = \<lparr>jv_raw = [], jv_type = JsonInvalid\<rparr>"
definition jv_ok :: "json_value \<Rightarrow> bool" where "jv_ok v \<longleftrightarrow> jv_type v \<noteq> JsonInvalid"

definition kMaxDepth :: nat where "kMaxDepth = 32"

definition quote :: char where "quote = CHR 0x22"
definition backslash :: char where "backslash = CHR 0x5C"

definition json_space :: "char \<Rightarrow> bool" where
  "json_space c \<longleftrightarrow> c = CHR '' '' \<or> c = CHR 0x09 \<or> c = CHR 0x0A \<or> c = CHR 0x0D"

definition skip_space :: "string \<Rightarrow> string" where
  "skip_space s = dropWhile json_space s"

definition span :: "string \<Rightarrow> string \<Rightarrow> string" where
  "span s rest = take (length s - length rest) s"

definition starts_char :: "char \<Rightarrow> string \<Rightarrow> bool" where
  "starts_char c s \<longleftrightarrow> s \<noteq> [] \<and> hd s = c"

definition number_int :: "string \<Rightarrow> string option" where
  "number_int t =
     (if t = [] then None
      else if hd t = CHR ''0'' then Some (tl t)
      else if is_digit (hd t) then Some (dropWhile is_digit t)
      else None)"

definition number_frac :: "string \<Rightarrow> string option" where
  "number_frac t =
     (if starts_char CHR ''.'' t then
        (let r = dropWhile is_digit (tl t) in if r = tl t then None else Some r)
      else Some t)"

definition number_exp :: "string \<Rightarrow> string option" where
  "number_exp t =
     (if starts_char CHR ''e'' t \<or> starts_char CHR ''E'' t then
        (let u = (if starts_char CHR ''+'' (tl t) \<or> starts_char CHR ''-'' (tl t) then tl (tl t) else tl t);
             r = dropWhile is_digit u
         in if r = u then None else Some r)
      else Some t)"

definition is_json_number :: "string \<Rightarrow> bool" where
  "is_json_number t =
     (case number_int (if starts_char CHR ''-'' t then tl t else t) of
        None \<Rightarrow> False
      | Some t1 \<Rightarrow>
          (case number_frac t1 of
             None \<Rightarrow> False
           | Some t2 \<Rightarrow> (case number_exp t2 of None \<Rightarrow> False | Some t3 \<Rightarrow> t3 = [])))"

definition is_json_scalar :: "string \<Rightarrow> bool" where
  "is_json_scalar t \<longleftrightarrow> t = ''true'' \<or> t = ''false'' \<or> t = ''null'' \<or> is_json_number t"

section \<open>Skipping\<close>

fun skip_body :: "string \<Rightarrow> string option" where
  "skip_body [] = None"
| "skip_body [c] = (if c = quote then Some [] else None)"
| "skip_body (c # d # s) =
     (if c = backslash then skip_body s else if c = quote then Some (d # s) else skip_body (d # s))"

definition skip_string :: "string \<Rightarrow> string option" where
  "skip_string s = (if starts_char quote s then skip_body (tl s) else None)"

definition json_stop :: "char \<Rightarrow> bool" where
  "json_stop c \<longleftrightarrow> c = CHR '','' \<or> c = CHR ''}'' \<or> c = CHR '']'' \<or> json_space c"

definition closing :: "char \<Rightarrow> char" where
  "closing c = (if c = CHR ''{'' then CHR ''}'' else CHR '']'')"

text \<open>The member's key and its colon.\<close>

definition skip_key :: "string \<Rightarrow> string option" where
  "skip_key s =
     (case skip_string (skip_space s) of
        None \<Rightarrow> None
      | Some r \<Rightarrow> let r1 = skip_space r in if starts_char CHR '':'' r1 then Some (tl r1) else None)"

definition skip_scalar :: "string \<Rightarrow> string option" where
  "skip_scalar s =
     (let run = takeWhile (\<lambda>d. \<not> json_stop d) s
      in if run = [] \<or> \<not> is_json_scalar run then None else Some (dropWhile (\<lambda>d. \<not> json_stop d) s))"

function skip_value :: "nat \<Rightarrow> string \<Rightarrow> string option"
  and skip_items :: "nat \<Rightarrow> char \<Rightarrow> string \<Rightarrow> string option"
where
  "skip_value depth s0 =
     (if depth > kMaxDepth then None
      else
        (let s = skip_space s0 in
         if s = [] then None
         else if hd s = quote then skip_string s
         else if hd s = CHR ''{'' \<or> hd s = CHR ''['' then
           (let s1 = skip_space (tl s) in
            if starts_char (closing (hd s)) s1 then Some (tl s1) else skip_items depth (hd s) s1)
         else skip_scalar s))"
| "skip_items depth c s =
     (if s = [] then None
      else
        (case (if c = CHR ''{'' then skip_key s else Some s) of
           None \<Rightarrow> None
         | Some s1 \<Rightarrow>
             (case skip_value (depth + 1) s1 of
                None \<Rightarrow> None
              | Some s2 \<Rightarrow>
                  (let s3 = skip_space s2 in
                   if starts_char (closing c) s3 then Some (tl s3)
                   else if starts_char CHR '','' s3 then skip_items depth c (tl s3)
                   else None))))"
  by pat_completeness auto

lemma skip_space_length: "length (skip_space s) \<le> length s"
  by (simp add: skip_space_def length_dropWhile_le)

lemma skip_body_length: "skip_body s = Some r \<Longrightarrow> length r < length s"
  by (induction s arbitrary: r rule: skip_body.induct) (auto split: if_splits)

lemma skip_string_length: "skip_string s = Some r \<Longrightarrow> length r < length s"
  by (cases s) (auto simp: skip_string_def starts_char_def split: if_splits dest!: skip_body_length)

lemma skip_key_length: "skip_key s = Some r \<Longrightarrow> length r < length s"
proof -
  assume "skip_key s = Some r"
  then obtain u where u: "skip_string (skip_space s) = Some u" "starts_char CHR '':'' (skip_space u)" "r = tl (skip_space u)"
    by (auto simp: skip_key_def Let_def split: option.splits if_splits)
  then show ?thesis
    using skip_string_length [OF u(1)] skip_space_length [of s] skip_space_length [of u] by simp
qed

lemma skip_scalar_length: "skip_scalar s = Some r \<Longrightarrow> length r < length s"
proof -
  assume h: "skip_scalar s = Some r"
  then have "takeWhile (\<lambda>d. \<not> json_stop d) s \<noteq> []" "r = dropWhile (\<lambda>d. \<not> json_stop d) s"
    by (auto simp: skip_scalar_def Let_def split: if_splits)
  then show ?thesis using takeWhile_dropWhile_id [of "\<lambda>d. \<not> json_stop d" s]
    by (metis length_append length_greater_0_conv less_add_same_cancel2)
qed

lemma skip_dom_length:
  "skip_value_skip_items_dom (Inl (d, s)) \<Longrightarrow> (\<forall>r. skip_value d s = Some r \<longrightarrow> length r < length s)"
  "skip_value_skip_items_dom (Inr (d, c, s)) \<Longrightarrow> (\<forall>r. skip_items d c s = Some r \<longrightarrow> length r < length s)"
proof (induction rule: skip_value_skip_items.pinduct)
  case (1 depth s0)
  show ?case
  proof (intro allI impI)
    fix r
    assume h: "skip_value depth s0 = Some r"
    define s where "s = skip_space s0"
    have l: "length s \<le> length s0" by (simp add: s_def skip_space_length)
    have p: "\<not> depth > kMaxDepth" "s \<noteq> []"
      using h 1(1) by (auto simp: skip_value.psimps s_def Let_def split: if_splits)
    consider "hd s = quote" | "hd s \<noteq> quote" "hd s = CHR ''{'' \<or> hd s = CHR ''[''"
      | "hd s \<noteq> quote" "\<not> (hd s = CHR ''{'' \<or> hd s = CHR ''['')" by blast
    then show "length r < length s0"
    proof cases
      case 1
      then have "skip_string s = Some r" using h p \<open>skip_value_skip_items_dom (Inl (depth, s0))\<close>
        by (simp add: skip_value.psimps s_def)
      then show ?thesis using skip_string_length l by fastforce
    next
      case 2
      define s1 where "s1 = skip_space (tl s)"
      have l1: "length s1 < length s" using skip_space_length [of "tl s"] p(2) by (cases s) (auto simp: s1_def)
      have "(if starts_char (closing (hd s)) s1 then Some (tl s1) else skip_items depth (hd s) s1) = Some r"
        using h p 2 \<open>skip_value_skip_items_dom (Inl (depth, s0))\<close>
        by (auto simp: skip_value.psimps s_def s1_def Let_def)
      moreover have "\<not> starts_char (closing (hd s)) s1 \<Longrightarrow> \<forall>r. skip_items depth (hd s) s1 = Some r \<longrightarrow> length r < length s1"
        using 1(2) p 2 by (simp add: s_def s1_def)
      ultimately have "length r < length s" using l1 by (auto split: if_splits)
      then show ?thesis using l by simp
    next
      case 3
      then have "skip_scalar s = Some r" using h p \<open>skip_value_skip_items_dom (Inl (depth, s0))\<close>
        by (simp add: skip_value.psimps s_def Let_def)
      then show ?thesis using skip_scalar_length l by fastforce
    qed
  qed
next
  case (2 depth c s)
  show ?case
  proof (intro allI impI)
    fix r
    assume h: "skip_items depth c s = Some r"
    obtain s1 where s1: "(if c = CHR ''{'' then skip_key s else Some s) = Some s1"
      using h 2(1) by (auto simp: skip_items.psimps split: option.splits if_splits)
    have l1: "length s1 \<le> length s" using s1 by (auto split: if_splits dest: skip_key_length)
    have ne: "s \<noteq> []" using h 2(1) by (auto simp: skip_items.psimps split: if_splits)
    obtain s2 where s2: "skip_value (depth + 1) s1 = Some s2"
      using h 2(1) s1 ne by (auto simp: skip_items.psimps simp del: One_nat_def split: option.splits)
    have l2: "length s2 < length s1" using 2(2) [OF ne s1] s2 by blast
    define s3 where "s3 = skip_space s2"
    have l3: "length s3 \<le> length s2" by (simp add: s3_def skip_space_length)
    have "skip_items depth c s = (if starts_char (closing c) s3 then Some (tl s3)
           else if starts_char CHR '','' s3 then skip_items depth c (tl s3) else None)"
      by (simp only: skip_items.psimps [OF 2(1)] s1 s2 ne if_False option.case s3_def [symmetric] Let_def)
    then have "(if starts_char (closing c) s3 then Some (tl s3)
           else if starts_char CHR '','' s3 then skip_items depth c (tl s3) else None) = Some r"
      using h by (rule subst)
    moreover have "\<not> starts_char (closing c) s3 \<Longrightarrow> starts_char CHR '','' s3 \<Longrightarrow>
        (\<forall>r. skip_items depth c (tl s3) = Some r \<longrightarrow> length r < length (tl s3))"
      using 2(3) [OF ne s1 s2] s3_def by blast
    ultimately show "length r < length s" using l1 l2 l3 by (auto split: if_splits)
  qed
qed

lemma tl_skip_space_length: "s \<noteq> [] \<Longrightarrow> length (skip_space (tl s)) < length s"
  using skip_space_length [of "tl s"] by (cases s) auto

lemma skip_all_dom: "All skip_value_skip_items_dom"
proof (rule "skip_value_skip_items.termination" [where R = "measure (\<lambda>x. case x of Inl (d, s) \<Rightarrow> 2 * length s | Inr (d, c, s) \<Rightarrow> 2 * length s + 1)"], goal_cases)
  case 1
  then show ?case by simp
next
  case (2 depth s0 s s1)
  have "length s1 < length s" using tl_skip_space_length [OF 2(3)] 2(6) by simp
  moreover have "length s \<le> length s0" using skip_space_length [of s0] 2(2) by simp
  ultimately show ?case by simp
next
  case (3 depth c s s1)
  then show ?case by (auto split: if_splits dest: skip_key_length)
next
  case (4 depth c s s1 s2 s3)
  have "length s1 \<le> length s" using 4(2) by (auto split: if_splits dest: skip_key_length)
  moreover have "length s2 < length s1" using skip_dom_length(1) [OF 4(7)] 4(3) by simp
  moreover have "length (tl s3) \<le> length s2" using 4(4) skip_space_length [of s2] by simp
  ultimately show ?case by simp
qed

termination skip_value by (rule skip_all_dom)

declare skip_value.simps [simp del] skip_items.simps [simp del]

lemma skip_value_length: "skip_value d s = Some r \<Longrightarrow> length r < length s"
  using skip_dom_length(1) [OF skip_all_dom [THEN spec]] by blast

lemma skip_items_length: "skip_items d c s = Some r \<Longrightarrow> length r < length s"
  using skip_dom_length(2) [OF skip_all_dom [THEN spec]] by blast

section \<open>Reading\<close>

definition classify :: "string \<Rightarrow> json_type" where
  "classify s0 =
     (let s = skip_space s0 in
      if s = [] then JsonInvalid
      else if hd s = CHR ''{'' then JsonObject
      else if hd s = CHR ''['' then JsonArray
      else if hd s = quote then JsonString
      else if hd s = CHR ''t'' \<or> hd s = CHR ''f'' then JsonBool
      else if hd s = CHR ''n'' then JsonNull
      else if hd s = CHR ''-'' \<or> is_digit (hd s) then JsonNumber
      else JsonInvalid)"

definition well_formed :: "string \<Rightarrow> bool" where
  "well_formed s = (case skip_value 0 s of None \<Rightarrow> False | Some r \<Rightarrow> skip_space r = [])"

definition key_of :: "string \<Rightarrow> string \<Rightarrow> string" where
  "key_of s r = take (length s - length r - 2) (tl s)"

definition value_of :: "string \<Rightarrow> string \<Rightarrow> json_value" where
  "value_of s r = \<lparr>jv_raw = span s r, jv_type = classify s\<rparr>"

definition json_member :: "string \<Rightarrow> (string \<times> json_value \<times> string) option" where
  "json_member s =
     (case skip_string s of
        None \<Rightarrow> None
      | Some r \<Rightarrow>
          (let r1 = skip_space r in
           if \<not> starts_char CHR '':'' r1 then None
           else
             (let v = skip_space (tl r1) in
              case skip_value 0 v of
                None \<Rightarrow> None
              | Some r2 \<Rightarrow> Some (key_of s r, value_of v r2, r2))))"

lemma json_member_length: "json_member s = Some (k, v, r) \<Longrightarrow> length r < length s"
proof -
  assume "json_member s = Some (k, v, r)"
  then obtain u where u: "skip_string s = Some u" "skip_value 0 (skip_space (tl (skip_space u))) = Some r"
    by (auto simp: json_member_def Let_def split: option.splits if_splits)
  then show ?thesis
    using skip_string_length [OF u(1)] skip_value_length [OF u(2)] skip_space_length [of u]
      skip_space_length [of "tl (skip_space u)"] by simp
qed

function find_loop :: "string \<Rightarrow> string \<Rightarrow> json_value" where
  "find_loop key s0 =
     (let s = skip_space s0 in
      if s = [] \<or> hd s = CHR ''}'' then json_value0
      else
        (case json_member s of
           None \<Rightarrow> json_value0
         | Some (k, v, r) \<Rightarrow>
             if k = key then v
             else
               (let r1 = skip_space r in
                if starts_char CHR '','' r1 then find_loop key (tl r1) else json_value0)))"
  by pat_completeness auto
termination
proof (relation "measure (length \<circ> snd)", goal_cases)
  case 1
  show ?case by simp
next
  case (2 key s0 s m k x v r r1)
  then have "length r < length s" by (auto dest: json_member_length)
  then show ?case using 2 skip_space_length [of s0] skip_space_length [of r] by simp
qed

declare find_loop.simps [simp del]

definition json_find :: "string \<Rightarrow> string \<Rightarrow> json_value" where
  "json_find s0 key =
     (let s = skip_space s0 in if starts_char CHR ''{'' s then find_loop key (tl s) else json_value0)"

text \<open>
  \<open>for_each_member\<close> and \<open>for_each\<close>: the callback returns whether to go on and its new state.
\<close>

type_synonym 'a member_fn = "string \<Rightarrow> json_value \<Rightarrow> 'a \<Rightarrow> bool \<times> 'a"

function member_loop :: "'a member_fn \<Rightarrow> string \<Rightarrow> 'a \<Rightarrow> bool \<times> 'a" where
  "member_loop f s a =
     (case json_member (skip_space s) of
        None \<Rightarrow> (False, a)
      | Some (k, v, r) \<Rightarrow>
          (case f k v a of
             (go, a1) \<Rightarrow>
               if \<not> go then (True, a1)
               else
                 (let r1 = skip_space r in
                  if starts_char CHR ''}'' r1 then (skip_space (tl r1) = [], a1)
                  else if starts_char CHR '','' r1 then member_loop f (tl r1) a1
                  else (False, a1))))"
  by pat_completeness auto
termination
proof (relation "measure (\<lambda>(f, s, a). length s)", goal_cases)
  case 1
  show ?case by simp
next
  case (2 f s a m k x v r go a1 r1)
  then have "length r < length (skip_space s)" by (auto dest: json_member_length)
  then show ?case using 2 skip_space_length [of s] skip_space_length [of r] by simp
qed

declare member_loop.simps [simp del]

definition for_each_member :: "'a member_fn \<Rightarrow> string \<Rightarrow> 'a \<Rightarrow> bool \<times> 'a" where
  "for_each_member f s0 a =
     (let s = skip_space s0 in
      if \<not> starts_char CHR ''{'' s then (False, a)
      else
        (let s1 = skip_space (tl s) in
         if starts_char CHR ''}'' s1 then (skip_space (tl s1) = [], a) else member_loop f s1 a))"

function element_loop :: "(json_value \<Rightarrow> 'a \<Rightarrow> bool \<times> 'a) \<Rightarrow> string \<Rightarrow> 'a \<Rightarrow> bool \<times> 'a" where
  "element_loop f s0 a =
     (let s = skip_space s0 in
      case skip_value 0 s of
        None \<Rightarrow> (False, a)
      | Some r \<Rightarrow>
          (case f (value_of s r) a of
             (go, a1) \<Rightarrow>
               if \<not> go then (True, a1)
               else
                 (let r1 = skip_space r in
                  if starts_char CHR '']'' r1 then (True, a1)
                  else if starts_char CHR '','' r1 then element_loop f (tl r1) a1
                  else (False, a1))))"
  by pat_completeness auto
termination
proof (relation "measure (\<lambda>(f, s, a). length s)", goal_cases)
  case 1
  show ?case by simp
next
  case (2 f s0 a s r go a1 r1)
  then have "length r < length s" by (auto dest: skip_value_length)
  then show ?case using 2 skip_space_length [of s0] skip_space_length [of r] by simp
qed

declare element_loop.simps [simp del]

definition for_each :: "(json_value \<Rightarrow> 'a \<Rightarrow> bool \<times> 'a) \<Rightarrow> string \<Rightarrow> 'a \<Rightarrow> bool \<times> 'a" where
  "for_each f s0 a =
     (let s = skip_space s0 in
      if \<not> starts_char CHR ''['' s then (False, a)
      else
        (let s1 = skip_space (tl s) in
         if starts_char CHR '']'' s1 then (True, a) else element_loop f s1 a))"

datatype string_read = NotAString | PlainString | EscapedString

definition read_string :: "json_value \<Rightarrow> string_read \<times> string" where
  "read_string v =
     (if jv_type v \<noteq> JsonString \<or> length (jv_raw v) < 2 then (NotAString, [])
      else
        (let body = take (length (jv_raw v) - 2) (tl (jv_raw v)) in
         (if backslash \<in> set body then EscapedString else PlainString, body)))"

definition decode_escape :: "char \<Rightarrow> char option" where
  "decode_escape c =
     (if c = quote then Some quote
      else if c = backslash then Some backslash
      else if c = CHR ''/'' then Some CHR ''/''
      else if c = CHR ''b'' then Some CHR 0x08
      else if c = CHR ''f'' then Some CHR 0x0C
      else if c = CHR ''n'' then Some CHR 0x0A
      else if c = CHR ''r'' then Some CHR 0x0D
      else if c = CHR ''t'' then Some CHR 0x09
      else None)"

fun equals_decoded :: "string \<Rightarrow> string \<Rightarrow> bool" where
  "equals_decoded [] expected = (expected = [])"
| "equals_decoded (c # body) expected =
     (if c \<noteq> backslash then
        (if expected = [] \<or> hd expected \<noteq> c then False else equals_decoded body (tl expected))
      else
        (case body of
           [] \<Rightarrow> False
         | e # body' \<Rightarrow>
             (case decode_escape e of
                None \<Rightarrow> False
              | Some d \<Rightarrow>
                  if expected = [] \<or> hd expected \<noteq> d then False else equals_decoded body' (tl expected))))"

definition string_equals :: "json_value \<Rightarrow> string \<Rightarrow> bool" where
  "string_equals v expected =
     (case read_string v of
        (NotAString, _) \<Rightarrow> False
      | (PlainString, body) \<Rightarrow> body = expected
      | (EscapedString, body) \<Rightarrow> equals_decoded body expected)"

definition string_body :: "json_value \<Rightarrow> string" where
  "string_body v = (case read_string v of (PlainString, body) \<Rightarrow> body | _ \<Rightarrow> [])"

definition number_token :: "json_value \<Rightarrow> string" where
  "number_token v =
     (if jv_type v = JsonNumber then jv_raw v
      else if jv_type v = JsonString then string_body v
      else [])"

fun u64_loop :: "string \<Rightarrow> nat \<Rightarrow> nat option" where
  "u64_loop [] n = Some n"
| "u64_loop (c # cs) n =
     (if \<not> is_digit c then None
      else if n > (18446744073709551615 - digit_value c) div 10 then None
      else u64_loop cs (n * 10 + digit_value c))"

definition parse_u64 :: "string \<Rightarrow> u64 option" where
  "parse_u64 token = (if token = [] then None else map_option of_nat (u64_loop token 0))"

end
