(* ===== verification/Json_Grammar.thy ===== *)
theory Json_Grammar
  imports Json
begin

text \<open>
  The reference grammar of JSON texts and what \<open>json.hpp\<close> does with it: \<open>is_json_number\<close> is the number of
  RFC 8259, \<open>skip_value\<close> and \<open>well_formed\<close> accept exactly the grammar up to the depth limit, and the member
  and element walks report exactly the members and elements of the text, in order.
\<close>

section \<open>Numbers\<close>

definition rfc_int :: "string \<Rightarrow> bool" where
  "rfc_int i \<longleftrightarrow> i = ''0'' \<or> (all_digits i \<and> i \<noteq> [] \<and> hd i \<noteq> CHR ''0'')"

definition rfc_frac :: "string \<Rightarrow> bool" where
  "rfc_frac f \<longleftrightarrow> f = [] \<or> (\<exists>ds. f = CHR ''.'' # ds \<and> ds \<noteq> [] \<and> all_digits ds)"

definition rfc_exp :: "string \<Rightarrow> bool" where
  "rfc_exp e \<longleftrightarrow> e = [] \<or>
     (\<exists>x sg ds. e = x # sg @ ds \<and> (x = CHR ''e'' \<or> x = CHR ''E'') \<and> is_sign sg \<and> ds \<noteq> [] \<and> all_digits ds)"

definition rfc_number :: "string \<Rightarrow> bool" where
  "rfc_number t \<longleftrightarrow>
     (\<exists>sg i f e. t = sg @ i @ f @ e \<and> (sg = [] \<or> sg = ''-'') \<and> rfc_int i \<and> rfc_frac f \<and> rfc_exp e)"

lemma digit_split: "s = takeWhile is_digit s @ dropWhile is_digit s"
  by simp

lemma starts_char_Cons: "starts_char c s \<longleftrightarrow> (\<exists>t. s = c # t)"
  by (cases s) (auto simp: starts_char_def)

lemma starts_char_simps [simp]:
  "\<not> starts_char c []" "starts_char c (d # s) \<longleftrightarrow> d = c"
  by (auto simp: starts_char_def)

lemma number_int_sound: "number_int t = Some r \<Longrightarrow> \<exists>i. t = i @ r \<and> rfc_int i"
proof (cases "t = [] \<or> hd t = CHR ''0''")
  case True
  assume "number_int t = Some r"
  then show ?thesis using True by (cases t) (auto simp: number_int_def rfc_int_def split: if_splits)
next
  case False
  assume "number_int t = Some r"
  then have "is_digit (hd t)" "r = dropWhile is_digit t" using False by (auto simp: number_int_def split: if_splits)
  then show ?thesis using False digit_split [of t]
    by (intro exI [of _ "takeWhile is_digit t"]) (cases t; auto simp: rfc_int_def all_digits_def dest: set_takeWhileD)
qed

lemma dropWhile_neq: "dropWhile P s \<noteq> s \<Longrightarrow> takeWhile P s \<noteq> []"
  by (cases s) (auto split: if_splits)

lemma number_frac_sound: "number_frac t = Some r \<Longrightarrow> \<exists>f. t = f @ r \<and> rfc_frac f"
proof (cases "starts_char CHR ''.'' t")
  case True
  assume h: "number_frac t = Some r"
  obtain u where u: "t = CHR ''.'' # u" using True by (auto simp: starts_char_Cons)
  have r: "r = dropWhile is_digit u" "r \<noteq> u" using h u by (auto simp: number_frac_def Let_def split: if_splits)
  have "t = (CHR ''.'' # takeWhile is_digit u) @ r" using u r by simp
  moreover have "rfc_frac (CHR ''.'' # takeWhile is_digit u)"
    using dropWhile_neq [of is_digit u] r by (auto simp: rfc_frac_def)
  ultimately show ?thesis by blast
next
  case False
  assume "number_frac t = Some r"
  then show ?thesis using False by (intro exI [of _ "[]"]) (auto simp: number_frac_def rfc_frac_def)
qed

lemma number_exp_sound: "number_exp t = Some r \<Longrightarrow> \<exists>e. t = e @ r \<and> rfc_exp e"
proof (cases "starts_char CHR ''e'' t \<or> starts_char CHR ''E'' t")
  case True
  assume h: "number_exp t = Some r"
  obtain x v where v: "t = x # v" "x = CHR ''e'' \<or> x = CHR ''E''" using True by (auto simp: starts_char_Cons)
  define u where "u = (if starts_char CHR ''+'' v \<or> starts_char CHR ''-'' v then tl v else v)"
  obtain sg where sg: "is_sign sg" "v = sg @ u"
  proof (cases "starts_char CHR ''+'' v \<or> starts_char CHR ''-'' v")
    case True
    then show ?thesis using that [of "[hd v]"] by (cases v) (auto simp: u_def is_sign_def)
  next
    case False
    then show ?thesis using that [of "[]"] by (auto simp: u_def is_sign_def)
  qed
  have r: "r = dropWhile is_digit u" "r \<noteq> u"
    using h v by (auto simp: number_exp_def Let_def u_def split: if_splits)
  have "t = (x # sg @ takeWhile is_digit u) @ r" using v sg r by simp
  moreover have "rfc_exp (x # sg @ takeWhile is_digit u)"
    unfolding rfc_exp_def using v(2) sg(1) dropWhile_neq [of is_digit u] r
    by (intro disjI2 exI [of _ x] exI [of _ sg] exI [of _ "takeWhile is_digit u"]) auto
  ultimately show ?thesis by blast
next
  case False
  assume "number_exp t = Some r"
  then show ?thesis using False by (intro exI [of _ "[]"]) (auto simp: number_exp_def rfc_exp_def)
qed

lemma number_int_complete:
  assumes "rfc_int i" "no_digit_first r"
  shows "number_int (i @ r) = Some r"
proof (cases "i = ''0''")
  case True
  then show ?thesis by (simp add: number_int_def)
next
  case False
  then have i: "all_digits i" "i \<noteq> []" "hd i \<noteq> CHR ''0''" using assms by (auto simp: rfc_int_def)
  then have "is_digit (hd i)" by (auto intro: hd_digits)
  then show ?thesis using i span_digits [OF i(1) assms(2)] by (simp add: number_int_def)
qed

lemma number_frac_complete:
  assumes "rfc_frac f" "no_digit_first r" "\<not> starts_char CHR ''.'' r"
  shows "number_frac (f @ r) = Some r"
proof (cases "f = []")
  case True
  then show ?thesis using assms by (simp add: number_frac_def)
next
  case False
  then obtain ds where ds: "f = CHR ''.'' # ds" "ds \<noteq> []" "all_digits ds" using assms by (auto simp: rfc_frac_def)
  then show ?thesis using span_digits [OF ds(3) assms(2)] by (simp add: number_frac_def Let_def)
qed

lemma number_exp_complete:
  assumes "rfc_exp e"
  shows "number_exp e = Some []"
proof (cases "e = []")
  case True
  then show ?thesis by (simp add: number_exp_def)
next
  case False
  then obtain x sg ds where e: "e = x # sg @ ds" "x = CHR ''e'' \<or> x = CHR ''E''" "is_sign sg" "ds \<noteq> []" "all_digits ds"
    using assms by (auto simp: rfc_exp_def)
  have d: "is_digit (hd ds)" "hd ds \<noteq> CHR ''+''" "hd ds \<noteq> CHR ''-''"
    using e(4,5) hd_digits [of ds] by (auto simp: is_digit_def)
  have w: "dropWhile is_digit ds = []" using span_digits [OF e(5), of "[]"] by (simp add: no_digit_first_def)
  then have n: "dropWhile is_digit ds \<noteq> ds" using e(4) by metis
  consider "sg = []" | "sg = ''+''" | "sg = ''-''" using e(3) by (auto simp: is_sign_def)
  then show ?thesis
    by cases (use e(1,2,4) d w n in \<open>auto simp: number_exp_def Let_def starts_char_def\<close>)
qed

lemma no_digit_first_cases: "no_digit_first [] \<and> (no_digit_first (c # s) \<longleftrightarrow> \<not> is_digit c)"
  by (simp add: no_digit_first_def)

lemma is_json_number_rfc: "is_json_number t \<longleftrightarrow> rfc_number t"
proof
  assume h: "is_json_number t"
  define u where "u = (if starts_char CHR ''-'' t then tl t else t)"
  obtain sg where sg: "sg = [] \<or> sg = ''-''" "t = sg @ u"
  proof (cases "starts_char CHR ''-'' t")
    case True
    then show ?thesis using that [of "''-''"] by (auto simp: u_def starts_char_Cons)
  next
    case False
    then show ?thesis using that [of "[]"] by (auto simp: u_def)
  qed
  obtain t1 t2 where n: "number_int u = Some t1" "number_frac t1 = Some t2" "number_exp t2 = Some []"
    using h by (auto simp: is_json_number_def u_def [symmetric] split: option.splits)
  obtain i where i: "u = i @ t1" "rfc_int i" using number_int_sound [OF n(1)] by blast
  obtain f where f: "t1 = f @ t2" "rfc_frac f" using number_frac_sound [OF n(2)] by blast
  obtain e where e: "t2 = e @ []" "rfc_exp e" using number_exp_sound [OF n(3)] by blast
  show "rfc_number t" unfolding rfc_number_def
    by (rule exI [of _ sg], rule exI [of _ i], rule exI [of _ f], rule exI [of _ e]) (use sg i f e in simp)
next
  assume "rfc_number t"
  then obtain sg i f e where p: "t = sg @ i @ f @ e" "sg = [] \<or> sg = ''-''" "rfc_int i" "rfc_frac f" "rfc_exp e"
    unfolding rfc_number_def by blast
  have ne: "i \<noteq> []" "hd i \<noteq> CHR ''-''"
    using p(3) by (auto simp: rfc_int_def is_digit_def dest!: hd_digits)
  have u: "(if starts_char CHR ''-'' t then tl t else t) = i @ f @ e"
    using p(1,2) ne by (cases i) auto
  have e: "no_digit_first e" "\<not> starts_char CHR ''.'' e" using p(5) by (auto simp: rfc_exp_def no_digit_first_def is_digit_def)
  have fe: "no_digit_first (f @ e)" using p(4) e by (auto simp: rfc_frac_def no_digit_first_def is_digit_def)
  show "is_json_number t"
    using number_int_complete [OF p(3) fe] number_frac_complete [OF p(4) e] number_exp_complete [OF p(5)]
    unfolding is_json_number_def u by simp
qed

definition number_char :: "char \<Rightarrow> bool" where
  "number_char c \<longleftrightarrow> is_digit c \<or> c \<in> set ''+-.eE''"

lemma digits_number_chars: "all_digits ds \<Longrightarrow> c \<in> set ds \<Longrightarrow> number_char c"
  by (simp add: all_digits_def number_char_def)

lemma sign_number_chars: "is_sign sg \<Longrightarrow> c \<in> set sg \<Longrightarrow> number_char c"
  by (auto simp: is_sign_def number_char_def)

lemma rfc_number_chars:
  assumes "rfc_number t"
  shows "t \<noteq> [] \<and> (\<forall>c \<in> set t. number_char c)"
proof -
  obtain sg i f e where p: "t = sg @ i @ f @ e" "sg = [] \<or> sg = ''-''" "rfc_int i" "rfc_frac f" "rfc_exp e"
    using assms unfolding rfc_number_def by blast
  have i: "i \<noteq> [] \<and> (\<forall>c \<in> set i. number_char c)"
    using p(3) digits_number_chars [of i] by (auto simp: rfc_int_def number_char_def is_digit_def)
  have "\<forall>c \<in> set sg. number_char c" using p(2) sign_number_chars [of sg] by (auto simp: is_sign_def)
  moreover have dot: "number_char CHR ''.''" by (simp add: number_char_def)
  then have "\<forall>c \<in> set f. number_char c"
    using p(4) dot by (auto simp: rfc_frac_def dest: digits_number_chars)
  moreover have "\<forall>c \<in> set e. number_char c"
  proof (cases "e = []")
    case False
    then obtain x u ds where e: "e = x # u @ ds" "x = CHR ''e'' \<or> x = CHR ''E''" "is_sign u" "all_digits ds"
      using p(5) by (auto simp: rfc_exp_def)
    show ?thesis using e digits_number_chars [of ds] sign_number_chars [of u] by (auto simp: number_char_def)
  qed simp
  ultimately show ?thesis using i unfolding p(1) by auto
qed

definition plain_char :: "char \<Rightarrow> bool" where
  "plain_char c \<longleftrightarrow> \<not> json_stop c \<and> c \<noteq> quote \<and> c \<noteq> CHR ''{'' \<and> c \<noteq> CHR ''[''"

lemma number_char_plain: "number_char c \<Longrightarrow> plain_char c"
proof -
  assume "number_char c"
  then consider "is_digit c" | "c \<in> set ''+-.eE''" unfolding number_char_def by blast
  then show ?thesis
  proof cases
    case 1
    then show ?thesis by (auto simp: plain_char_def json_stop_def json_space_def quote_def is_digit_def)
  next
    case 2
    then show ?thesis by (simp, elim disjE) (simp_all add: plain_char_def json_stop_def json_space_def quote_def)
  qed
qed

lemma scalar_plain:
  assumes "is_json_scalar t"
  shows "t \<noteq> []" "\<And>c. c \<in> set t \<Longrightarrow> plain_char c"
proof -
  have l: "t \<noteq> [] \<and> (\<forall>c \<in> set t. plain_char c)" if "t \<in> set [''true'', ''false'', ''null'']"
    using that by (simp, elim disjE) (simp_all add: plain_char_def json_stop_def json_space_def quote_def)
  have "t \<noteq> [] \<and> (\<forall>c \<in> set t. plain_char c)"
    using assms l rfc_number_chars [of t] number_char_plain by (auto simp: is_json_scalar_def is_json_number_rfc)
  then show "t \<noteq> []" "\<And>c. c \<in> set t \<Longrightarrow> plain_char c" by blast+
qed

section \<open>The grammar\<close>

definition blank :: "string \<Rightarrow> bool" where
  "blank s \<longleftrightarrow> (\<forall>c \<in> set s. json_space c)"

text \<open>Between the quotes: a backslash takes the next character with it.\<close>

fun string_chars :: "string \<Rightarrow> bool" where
  "string_chars [] = True"
| "string_chars [c] = (c \<noteq> quote \<and> c \<noteq> backslash)"
| "string_chars (c # d # s) = (if c = backslash then string_chars s else c \<noteq> quote \<and> string_chars (d # s))"

definition json_string :: "string \<Rightarrow> string \<Rightarrow> bool" where
  "json_string k t \<longleftrightarrow> t = quote # k @ [quote] \<and> string_chars k"

text \<open>
  What stands before a value in a container: the blanks, and for a member of an object its key, a colon and
  the blanks around them.
\<close>

definition json_label :: "char \<Rightarrow> string \<Rightarrow> string \<Rightarrow> bool" where
  "json_label c k l \<longleftrightarrow>
     (if c = CHR ''{'' then
        (\<exists>w1 t w2 w3. l = w1 @ t @ w2 @ CHR '':'' # w3 \<and> json_string k t \<and> blank w1 \<and> blank w2 \<and> blank w3)
      else k = [] \<and> blank l)"

text \<open>
  \<open>json_text n t\<close>: \<open>t\<close> is a JSON value, without surrounding blanks, nested at most \<open>n\<close> deep.
  \<open>json_list n c u ms\<close>: \<open>u\<close> is the non-empty content of a container opened by \<open>c\<close>, and \<open>ms\<close> are its members
  in order, each with its key (empty in an array) and the text of its value.
\<close>

inductive json_text :: "nat \<Rightarrow> string \<Rightarrow> bool"
  and json_list :: "nat \<Rightarrow> char \<Rightarrow> string \<Rightarrow> (string \<times> string) list \<Rightarrow> bool"
where
  text_string: "json_string k t \<Longrightarrow> json_text (Suc n) t"
| text_scalar: "is_json_scalar t \<Longrightarrow> json_text (Suc n) t"
| text_empty: "c = CHR ''{'' \<or> c = CHR ''['' \<Longrightarrow> blank w \<Longrightarrow> json_text (Suc n) (c # w @ [closing c])"
| text_list: "c = CHR ''{'' \<or> c = CHR ''['' \<Longrightarrow> json_list n c u ms \<Longrightarrow> json_text (Suc n) (c # u @ [closing c])"
| list_one: "json_label c k l \<Longrightarrow> json_text n v \<Longrightarrow> blank w \<Longrightarrow> json_list n c (l @ v @ w) [(k, v)]"
| list_more: "json_label c k l \<Longrightarrow> json_text n v \<Longrightarrow> blank w \<Longrightarrow> json_list n c u ms \<Longrightarrow>
    json_list n c (l @ v @ w @ CHR '','' # u) ((k, v) # ms)"

inductive_cases json_text_zero [elim!]: "json_text 0 t"

lemma json_text_mono: "json_text n t \<Longrightarrow> n \<le> m \<Longrightarrow> json_text m t"
  and json_list_mono: "json_list n c u ms \<Longrightarrow> n \<le> m \<Longrightarrow> json_list m c u ms"
proof (induction arbitrary: m and m rule: json_text_json_list.inducts)
  case (text_string k t n)
  then show ?case by (cases m) (auto intro: json_text_json_list.intros)
next
  case (text_scalar t n)
  then show ?case by (cases m) (auto intro: json_text_json_list.intros)
next
  case (text_empty c w n)
  then show ?case by (cases m) (auto intro: json_text_json_list.intros)
next
  case (text_list c n u ms)
  then show ?case by (cases m) (auto intro: json_text_json_list.intros)
qed (auto intro: json_text_json_list.intros)

lemma blank_simps [simp]:
  "blank []" "blank (c # s) \<longleftrightarrow> json_space c \<and> blank s" "blank (s @ t) \<longleftrightarrow> blank s \<and> blank t"
  by (auto simp: blank_def)

lemma skip_space_split: "\<exists>w. s = w @ skip_space s \<and> blank w"
  by (intro exI [of _ "takeWhile json_space s"]) (auto simp: skip_space_def blank_def dest: set_takeWhileD)

lemma skip_space_blank: "blank w \<Longrightarrow> skip_space (w @ s) = skip_space s"
  by (simp add: skip_space_def blank_def)

lemma skip_space_Cons: "\<not> json_space c \<Longrightarrow> skip_space (c # s) = c # s"
  by (simp add: skip_space_def)

lemma skip_space_Nil: "skip_space s = [] \<longleftrightarrow> blank s"
  by (simp add: skip_space_def blank_def)

lemma skip_space_idem [simp]: "skip_space (skip_space s) = skip_space s"
  by (simp add: skip_space_def)

lemma not_space:
  "\<not> json_space CHR ''{''" "\<not> json_space CHR ''}''" "\<not> json_space CHR ''[''" "\<not> json_space CHR '']''"
  "\<not> json_space CHR '',''" "\<not> json_space CHR '':''" "\<not> json_space quote" "\<not> json_space (closing c)"
  by (simp_all add: json_space_def quote_def closing_def)

lemma skip_body_quote: "skip_body (quote # r) = Some r"
  by (cases r) (simp_all add: quote_def backslash_def)

lemma skip_body_complete: "string_chars b \<Longrightarrow> skip_body (b @ quote # r) = Some r"
proof (induction b rule: string_chars.induct)
  case 1
  show ?case by (simp add: skip_body_quote)
next
  case (2 c)
  then show ?case by (simp add: skip_body_quote)
next
  case (3 c d s)
  then show ?case by (auto split: if_splits)
qed

lemma skip_body_sound: "skip_body s = Some r \<Longrightarrow> \<exists>b. s = b @ quote # r \<and> string_chars b"
proof (induction s rule: skip_body.induct)
  case 1
  then show ?case by simp
next
  case (2 c)
  then show ?case by (intro exI [of _ "[]"]) (auto split: if_splits)
next
  case (3 c d s)
  consider "c = backslash" | "c \<noteq> backslash" "c = quote" | "c \<noteq> backslash" "c \<noteq> quote" by blast
  then show ?case
  proof cases
    case 1
    then obtain b where "s = b @ quote # r" "string_chars b" using 3(1) [OF 1] 3(3) by auto
    then show ?thesis using 1 by (intro exI [of _ "c # d # b"]) simp
  next
    case 2
    then show ?thesis using 3(3) by (intro exI [of _ "[]"]) simp
  next
    case c: 3
    then obtain b where b: "d # s = b @ quote # r" "string_chars b" using 3(2) [OF c] 3(3) by auto
    have "string_chars (c # b)" using b(2) c by (cases b) auto
    then show ?thesis using b(1) by (intro exI [of _ "c # b"]) simp
  qed
qed

lemma skip_string_sound: "skip_string s = Some r \<Longrightarrow> \<exists>k t. s = t @ r \<and> json_string k t"
proof -
  assume h: "skip_string s = Some r"
  then obtain u where u: "s = quote # u" "skip_body u = Some r"
    by (cases s) (auto simp: skip_string_def split: if_splits)
  obtain k where k: "u = k @ quote # r" "string_chars k" using skip_body_sound [OF u(2)] by blast
  show ?thesis using u k by (intro exI [of _ k] exI [of _ "quote # k @ [quote]"]) (simp add: json_string_def)
qed

lemma skip_string_complete: "json_string k t \<Longrightarrow> skip_string (t @ r) = Some r"
  using skip_body_complete [of k r] by (auto simp: json_string_def skip_string_def)

lemma json_string_hd: "json_string k t \<Longrightarrow> t = quote # tl t"
  by (auto simp: json_string_def)

lemma skip_key_sound: "skip_key s = Some r \<Longrightarrow> \<exists>k l. s = l @ r \<and> (\<forall>w. blank w \<longrightarrow> json_label CHR ''{'' k (l @ w))"
proof -
  assume "skip_key s = Some r"
  then obtain u where u: "skip_string (skip_space s) = Some u" "skip_space u = CHR '':'' # r"
    by (auto simp: skip_key_def Let_def starts_char_Cons split: option.splits if_splits)
  obtain w1 where w1: "s = w1 @ skip_space s" "blank w1" using skip_space_split by blast
  obtain k t where t: "skip_space s = t @ u" "json_string k t" using skip_string_sound [OF u(1)] by blast
  obtain w2 where w2: "u = w2 @ skip_space u" "blank w2" using skip_space_split by blast
  have "s = (w1 @ t @ w2 @ [CHR '':'']) @ r" using w1 t w2 u(2) by simp
  moreover have "json_label CHR ''{'' k ((w1 @ t @ w2 @ [CHR '':'']) @ w)" if "blank w" for w
    using that w1(2) w2(2) t(2) by (auto simp: json_label_def)
  ultimately show ?thesis by blast
qed

lemma json_label_objectI:
  "json_string k t \<Longrightarrow> blank w1 \<Longrightarrow> blank w2 \<Longrightarrow> blank w3 \<Longrightarrow> json_label CHR ''{'' k (w1 @ t @ w2 @ CHR '':'' # w3)"
  unfolding json_label_def by (simp, intro exI conjI) (rule refl)

lemma json_label_object:
  assumes "json_label CHR ''{'' k l"
  obtains w1 t w2 w3 where "l = w1 @ t @ w2 @ CHR '':'' # w3" "json_string k t" "blank w1" "blank w2" "blank w3"
  using assms by (auto simp: json_label_def)

lemma skip_key_complete:
  assumes "json_label CHR ''{'' k l"
  shows "\<exists>w. blank w \<and> (\<forall>r. skip_key (l @ r) = Some (w @ r))"
proof -
  obtain w1 t w2 w3 where l: "l = w1 @ t @ w2 @ CHR '':'' # w3" "json_string k t" "blank w1" "blank w2" "blank w3"
    using json_label_object [OF assms] .
  have "skip_key (l @ r) = Some (w3 @ r)" for r
  proof -
    have "skip_space (l @ r) = t @ w2 @ CHR '':'' # w3 @ r"
      using json_string_hd [OF l(2)] l(1,3) by (metis append_Cons append_assoc not_space(7) skip_space_Cons skip_space_blank)
    then show ?thesis
      using skip_string_complete [OF l(2), of "w2 @ CHR '':'' # w3 @ r"] l(4)
      by (simp add: skip_key_def skip_space_blank skip_space_Cons not_space)
  qed
  then show ?thesis using l(5) by blast
qed

section \<open>Skipping a value\<close>

definition ends_value :: "string \<Rightarrow> bool" where
  "ends_value r \<longleftrightarrow> r = [] \<or> json_stop (hd r)"

lemma ends_value_blank: "blank w \<Longrightarrow> ends_value r \<Longrightarrow> ends_value (w @ r)"
  by (cases w) (auto simp: ends_value_def json_stop_def)

lemma ends_value_simps [simp]:
  "ends_value []" "ends_value (closing c # r)" "ends_value (CHR '','' # r)" "ends_value (CHR ''}'' # r)"
  "ends_value (CHR '']'' # r)"
  by (auto simp: ends_value_def json_stop_def closing_def)

lemma skip_scalar_sound:
  "skip_scalar s = Some r \<Longrightarrow> \<exists>v. s = v @ r \<and> is_json_scalar v"
  by (intro exI [of _ "takeWhile (\<lambda>d. \<not> json_stop d) s"]) (auto simp: skip_scalar_def Let_def split: if_splits)

lemma skip_scalar_complete:
  assumes "is_json_scalar v" "ends_value r"
  shows "skip_scalar (v @ r) = Some r"
proof -
  have p: "\<forall>c \<in> set v. \<not> json_stop c" using scalar_plain(2) [OF assms(1)] by (auto simp: plain_char_def)
  have "takeWhile (\<lambda>d. \<not> json_stop d) (v @ r) = v \<and> dropWhile (\<lambda>d. \<not> json_stop d) (v @ r) = r"
    using p assms(2) by (cases r) (auto simp: ends_value_def takeWhile_append dropWhile_append)
  then show ?thesis using assms(1) scalar_plain(1) [OF assms(1)] by (simp add: skip_scalar_def)
qed

lemma skip_value_step:
  "skip_value d s0 =
     (if d > kMaxDepth then None
      else
        (case skip_space s0 of
           [] \<Rightarrow> None
         | c # u \<Rightarrow>
             if c = quote then skip_string (c # u)
             else if c = CHR ''{'' \<or> c = CHR ''['' then
               (if starts_char (closing c) (skip_space u) then Some (tl (skip_space u))
                else skip_items d c (skip_space u))
             else skip_scalar (c # u)))"
  by (cases "skip_space s0") (simp_all add: skip_value.simps [of d s0] Let_def)

lemma skip_items_step:
  assumes "s \<noteq> []" "(if c = CHR ''{'' then skip_key s else Some s) = Some s1" "skip_value (d + 1) s1 = Some s2"
  shows "skip_items d c s =
     (if starts_char (closing c) (skip_space s2) then Some (tl (skip_space s2))
      else if starts_char CHR '','' (skip_space s2) then skip_items d c (tl (skip_space s2))
      else None)"
  by (simp only: skip_items.simps [of d c s] assms if_False option.case Let_def)

lemma skip_items_parts:
  assumes "skip_items d c s = Some r"
  obtains s1 s2 where "s \<noteq> []" "(if c = CHR ''{'' then skip_key s else Some s) = Some s1" "skip_value (d + 1) s1 = Some s2"
proof -
  have ne: "s \<noteq> []" using assms by (auto simp: skip_items.simps [of d c s])
  have "skip_items d c s = None" if "(if c = CHR ''{'' then skip_key s else Some s) = None"
    by (simp only: skip_items.simps [of d c s] that option.case if_cancel)
  then obtain s1 where s1: "(if c = CHR ''{'' then skip_key s else Some s) = Some s1"
    using assms by (metis not_Some_eq)
  have "skip_items d c s = None" if "skip_value (d + 1) s1 = None"
    by (simp only: skip_items.simps [of d c s] s1 that option.case if_cancel)
  then obtain s2 where "skip_value (d + 1) s1 = Some s2" using assms by (metis not_Some_eq)
  then show ?thesis using that ne s1 by blast
qed

definition is_open :: "char \<Rightarrow> bool" where
  "is_open c \<longleftrightarrow> c = CHR ''{'' \<or> c = CHR ''[''"

lemma label_sound:
  assumes "is_open c" "(if c = CHR ''{'' then skip_key s else Some s) = Some r"
  shows "\<exists>k l. s = l @ r \<and> (\<forall>w. blank w \<longrightarrow> json_label c k (l @ w))"
  using assms skip_key_sound [of s r] by (auto simp: is_open_def json_label_def)

lemma label_complete:
  assumes "json_label c k l"
  shows "\<exists>w. blank w \<and> (\<forall>r. (if c = CHR ''{'' then skip_key (l @ r) else Some (l @ r)) = Some (w @ r))"
  using assms skip_key_complete [of k l] by (cases "c = CHR ''{''") (auto simp: json_label_def)

lemma skip_value_depth: "skip_value d s = Some r \<Longrightarrow> d \<le> 32"
  by (rule ccontr) (simp add: skip_value_step [of d s] kMaxDepth_def)

lemma json_label_blank:
  assumes "json_label c k l" "blank w"
  shows "json_label c k (w @ l)"
proof (cases "c = CHR ''{''")
  case True
  then obtain w1 t w2 w3 where l: "l = w1 @ t @ w2 @ CHR '':'' # w3" "json_string k t" "blank w1" "blank w2" "blank w3"
    using assms(1) json_label_object by blast
  have "w @ l = (w @ w1) @ t @ w2 @ CHR '':'' # w3" "blank (w @ w1)" using l(1,3) assms(2) by simp_all
  then show ?thesis using json_label_objectI [OF l(2) _ l(4,5), of "w @ w1"] True by simp
next
  case False
  then show ?thesis using assms by (simp add: json_label_def)
qed

lemma json_list_blank:
  assumes "json_list n c u ms" "blank w"
  shows "json_list n c (w @ u) ms"
  using assms(1)
proof (cases rule: json_list.cases)
  case (list_one k l v w')
  then show ?thesis
    using json_text_json_list.list_one [OF json_label_blank [OF _ assms(2)], of c k l n v w'] by simp
next
  case (list_more k l v w' u' ms')
  then show ?thesis
    using json_text_json_list.list_more [OF json_label_blank [OF _ assms(2)], of c k l n v w' u' ms'] by simp
qed

lemma skip_sound:
  "\<And>r. skip_value d s = Some r \<Longrightarrow> \<exists>w v. s = w @ v @ r \<and> blank w \<and> json_text (33 - d) v"
  "\<And>r. skip_items d c s = Some r \<Longrightarrow> is_open c \<Longrightarrow> d \<le> 32 \<Longrightarrow> \<exists>u ms. s = u @ closing c # r \<and> json_list (32 - d) c u ms"
proof (induction d s and d c s rule: skip_value_skip_items.induct)
  case (1 d s0 r)
  note h = 1(2)
  have d: "d \<le> 32" by (rule skip_value_depth [OF h])
  then have n: "33 - d = Suc (32 - d)" by simp
  obtain w where w: "s0 = w @ skip_space s0" "blank w" using skip_space_split by blast
  obtain c u where cu: "skip_space s0 = c # u"
    using h by (cases "skip_space s0") (auto simp: skip_value_step [of d s0] split: if_splits)
  have "\<exists>v. c # u = v @ r \<and> json_text (Suc (32 - d)) v"
  proof (cases "is_open c")
    case False
    then have "skip_string (c # u) = Some r \<or> skip_scalar (c # u) = Some r"
      using h cu by (auto simp: skip_value_step [of d s0] is_open_def split: if_splits)
    then show ?thesis using skip_string_sound skip_scalar_sound text_string text_scalar by metis
  next
    case o: True
    then have o': "c = CHR ''{'' \<or> c = CHR ''[''" and q: "c \<noteq> quote" by (auto simp: is_open_def quote_def)
    have nd: "\<not> kMaxDepth < d" using d by (simp add: kMaxDepth_def)
    obtain w1 where w1: "u = w1 @ skip_space u" "blank w1" using skip_space_split by blast
    have cl: "(if starts_char (closing c) (skip_space u) then Some (tl (skip_space u))
        else skip_items d c (skip_space u)) = Some r"
      using h cu o by (auto simp: skip_value_step [of d s0] is_open_def quote_def split: if_splits)
    show ?thesis
    proof (cases "starts_char (closing c) (skip_space u)")
      case True
      then have t: "skip_space u = closing c # r" using cl by (auto simp: starts_char_Cons)
      have "u = w1 @ closing c # r" using w1(1) unfolding t .
      then have "c # u = (c # w1 @ [closing c]) @ r" by simp
      then show ?thesis using text_empty [OF o' w1(2), of "32 - d"] by blast
    next
      case False
      then have cl': "skip_items d c (skip_space u) = Some r" using cl by simp
      have "\<exists>v ms. skip_space u = v @ closing c # r \<and> json_list (32 - d) c v ms"
        by (rule 1(1) [OF nd cu [symmetric] list.distinct(2), unfolded list.sel, OF q o' refl False cl' o d])
      then obtain v ms where v: "skip_space u = v @ closing c # r" "json_list (32 - d) c v ms" by blast
      have "json_list (32 - d) c (w1 @ v) ms" by (rule json_list_blank [OF v(2) w1(2)])
      moreover have "c # u = (c # (w1 @ v) @ [closing c]) @ r" using w1(1) unfolding v(1) by simp
      ultimately show ?thesis using text_list [OF o'] by blast
    qed
  qed
  then obtain v where v: "c # u = v @ r" "json_text (Suc (32 - d)) v" by blast
  have "s0 = w @ v @ r" using w(1) unfolding cu v(1) .
  then show ?case using w(2) v(2) unfolding n by blast
next
  case (2 d c s r)
  note h = 2(3) and o = 2(4) and d = 2(5)
  obtain s1 s2 where p: "s \<noteq> []" "(if c = CHR ''{'' then skip_key s else Some s) = Some s1" "skip_value (d + 1) s1 = Some s2"
    using skip_items_parts [OF h] .
  obtain k l where l: "s = l @ s1" "\<And>w. blank w \<Longrightarrow> json_label c k (l @ w)" using label_sound [OF o p(2)] by blast
  obtain w v where v: "s1 = w @ v @ s2" "blank w" "json_text (32 - d) v"
    using 2(1) [OF p(1,2) p(3)] by auto
  obtain w2 where w2: "s2 = w2 @ skip_space s2" "blank w2" using skip_space_split by blast
  have e: "(if starts_char (closing c) (skip_space s2) then Some (tl (skip_space s2))
      else if starts_char CHR '','' (skip_space s2) then skip_items d c (tl (skip_space s2)) else None) = Some r"
    using h skip_items_step [OF p] by simp
  show ?case
  proof (cases "starts_char (closing c) (skip_space s2)")
    case True
    then have t: "skip_space s2 = closing c # r" using e by (auto simp: starts_char_Cons)
    have "s2 = w2 @ closing c # r" using w2(1) unfolding t .
    then have "s = ((l @ w) @ v @ w2) @ closing c # r" using l(1) v(1) by simp
    then show ?thesis using list_one [OF l(2) [OF v(2)] v(3) w2(2)] by blast
  next
    case False
    then obtain z where z: "skip_space s2 = CHR '','' # z" "skip_items d c z = Some r"
      using e by (auto simp: starts_char_Cons split: if_splits)
    obtain u ms where u: "z = u @ closing c # r" "json_list (32 - d) c u ms"
      using 2(2) [OF p refl False _ _ o d, of r] z by auto
    have "s2 = w2 @ CHR '','' # u @ closing c # r" using w2(1) unfolding z(1) u(1) .
    then have "s = ((l @ w) @ v @ w2 @ CHR '','' # u) @ closing c # r" using l(1) v(1) by simp
    then show ?thesis using list_more [OF l(2) [OF v(2)] v(3) w2(2) u(2)] by blast
  qed
qed

lemma json_text_hd:
  assumes "json_text n t"
  shows "t \<noteq> [] \<and> \<not> json_space (hd t)"
  using assms
proof (cases rule: json_text.cases)
  case (text_string k n)
  then show ?thesis using not_space(7) by (auto simp: json_string_def)
next
  case (text_scalar n)
  then show ?thesis using scalar_plain [of t] by (cases t) (auto simp: plain_char_def json_stop_def)
qed (auto simp: not_space)

lemma skip_space_text: "json_text n v \<Longrightarrow> blank w \<Longrightarrow> skip_space (w @ v @ r) = v @ r"
  using json_text_hd [of n v] by (cases v) (auto simp: skip_space_blank skip_space_Cons)

lemma skip_space_string: "json_string k t \<Longrightarrow> blank w \<Longrightarrow> skip_space (w @ t @ r) = t @ r"
  using skip_space_text [OF text_string] .

lemma skip_value_at:
  assumes "skip_space s = c # u" "d \<le> 32"
  shows "skip_value d s =
     (if c = quote then skip_string (c # u)
      else if is_open c then
        (if starts_char (closing c) (skip_space u) then Some (tl (skip_space u)) else skip_items d c (skip_space u))
      else skip_scalar (c # u))"
proof -
  have "\<not> kMaxDepth < d" using assms(2) by (simp add: kMaxDepth_def)
  then show ?thesis unfolding skip_value_step [of d s] assms(1) is_open_def by simp
qed

lemma skip_value_string:
  assumes "json_string k t" "blank w" "d \<le> 32"
  shows "skip_value d (w @ t @ r) = Some r"
proof -
  obtain u where u: "t = quote # u" using json_string_hd [OF assms(1)] by blast
  have "skip_space (w @ t @ r) = quote # u @ r" using skip_space_string [OF assms(1,2), of r] u by simp
  then show ?thesis
    using skip_value_at [OF _ assms(3)] skip_string_complete [OF assms(1), of r] u by simp
qed

lemma skip_value_scalar:
  assumes "is_json_scalar t" "blank w" "d \<le> 32" "ends_value r"
  shows "skip_value d (w @ t @ r) = Some r"
proof -
  obtain c u where u: "t = c # u" using scalar_plain(1) [OF assms(1)] by (cases t) auto
  have c: "c \<noteq> quote" "\<not> is_open c" using scalar_plain(2) [OF assms(1)] u by (auto simp: plain_char_def is_open_def)
  have "skip_space (w @ t @ r) = c # u @ r"
    using skip_space_text [OF text_scalar [OF assms(1)] assms(2)] u by simp
  then show ?thesis
    using skip_value_at [OF _ assms(3)] skip_scalar_complete [OF assms(1,4)] u c by simp
qed

lemma json_list_start: "json_list n c u ms \<Longrightarrow> is_open c \<Longrightarrow> \<not> starts_char (closing c) (skip_space (u @ r))"
proof -
  have key: "\<not> starts_char (closing c) (skip_space (l @ v @ s))" if "json_label c k l" "json_text n v" "is_open c" for k l v s n c
  proof (cases "c = CHR ''{''")
    case True
    have lab: "json_label CHR ''{'' k l" using that(1) True by simp
    obtain w1 t w2 w3 where l: "l = w1 @ t @ w2 @ CHR '':'' # w3" "json_string k t" "blank w1"
      using json_label_object [OF lab] .
    have "skip_space (l @ v @ s) = t @ w2 @ CHR '':'' # w3 @ v @ s"
      using skip_space_string [OF l(2,3)] l(1) by simp
    then show ?thesis using l(2) True by (auto simp: json_string_def quote_def closing_def)
  next
    case False
    then have c: "c = CHR ''[''" "blank l" using that by (auto simp: json_label_def is_open_def)
    have "skip_space (l @ v @ s) = v @ s" by (rule skip_space_text [OF that(2) c(2)])
    moreover have "\<not> starts_char CHR '']'' (v @ s)"
      using that(2)
    proof (cases rule: json_text.cases)
      case (text_scalar n)
      then show ?thesis using scalar_plain [of v] by (cases v) (auto simp: plain_char_def json_stop_def)
    qed (auto simp: json_string_def quote_def)
    ultimately show ?thesis using c(1) by (simp add: closing_def)
  qed
  show "json_list n c u ms \<Longrightarrow> is_open c \<Longrightarrow> \<not> starts_char (closing c) (skip_space (u @ r))"
    by (erule json_list.cases; simp; rule key; assumption)
qed

lemma skip_value_space: "skip_value d (skip_space s) = skip_value d s"
  by (simp only: skip_value_step [of d s] skip_value_step [of d "skip_space s"] skip_space_idem)

lemma skip_key_space: "skip_key (skip_space s) = skip_key s"
  by (simp add: skip_key_def)

lemma skip_nothing: "skip_space s = [] \<Longrightarrow> skip_value d s = None \<and> skip_key s = None"
  by (simp add: skip_value_step [of d s] skip_key_def skip_string_def)

lemma skip_items_space: "skip_items d c (skip_space s) = skip_items d c s"
proof (cases "skip_space s = []")
  case True
  note n = skip_nothing [OF True]
  have "(case if c = CHR ''{'' then skip_key s else Some s of None \<Rightarrow> None | Some s1 \<Rightarrow>
      (case skip_value (d + 1) s1 of None \<Rightarrow> None | Some s2 \<Rightarrow> f s2)) = None" for f :: "string \<Rightarrow> string option"
    using n skip_nothing [OF True, of "d + 1"] by (cases "c = CHR ''{''") simp_all
  then have "skip_items d c s = None" by (simp only: skip_items.simps [of d c s] if_cancel)
  moreover have "skip_items d c [] = None" by (simp add: skip_items.simps [of d c "[]"])
  ultimately show ?thesis unfolding True by simp
next
  case False
  then have "s \<noteq> []" by (auto simp: skip_space_def)
  then show ?thesis
    unfolding skip_items.simps [of d c s] skip_items.simps [of d c "skip_space s"]
    using False by (simp add: skip_key_space skip_value_space)
qed

lemma label_ne: "json_text n v \<Longrightarrow> l @ v @ r \<noteq> []"
  using json_text_hd by auto

lemma skip_complete:
  "json_text n v \<Longrightarrow> n + d \<le> 33 \<Longrightarrow> blank w \<Longrightarrow> ends_value r \<Longrightarrow> skip_value d (w @ v @ r) = Some r"
  "json_list n c u ms \<Longrightarrow> is_open c \<Longrightarrow> n + d \<le> 32 \<Longrightarrow> skip_items d c (u @ closing c # r) = Some r"
proof (induction arbitrary: d w r and d r rule: json_text_json_list.inducts)
  case (text_string k t n)
  then show ?case by (simp add: skip_value_string)
next
  case (text_scalar t n)
  then show ?case by (simp add: skip_value_scalar)
next
  case (text_empty c w' n)
  have "skip_space (w @ (c # w' @ [closing c]) @ r) = c # w' @ closing c # r"
    using text_empty by (auto simp: skip_space_blank skip_space_Cons not_space)
  moreover have "skip_space (w' @ closing c # r) = closing c # r"
    using text_empty by (simp add: skip_space_blank skip_space_Cons not_space)
  ultimately show ?case
    using text_empty by (auto simp: skip_value_step [of d] kMaxDepth_def quote_def)
next
  case (text_list c n u ms)
  have o: "is_open c" using text_list(1) by (simp add: is_open_def)
  have sp: "skip_space (w @ (c # u @ [closing c]) @ r) = c # u @ closing c # r"
    using text_list by (auto simp: skip_space_blank skip_space_Cons not_space)
  have "\<not> starts_char (closing c) (skip_space (u @ closing c # r))" by (rule json_list_start [OF text_list(2) o])
  moreover have "skip_items d c (skip_space (u @ closing c # r)) = Some r"
    using text_list(3) [OF o, of d r] text_list(4) by (simp add: skip_items_space)
  ultimately show ?case
    using sp o text_list(4) by (auto simp: skip_value_step [of d] kMaxDepth_def quote_def is_open_def)
next
  case (list_one c k l n v w)
  obtain w1 where w1: "blank w1" "\<And>r. (if c = CHR ''{'' then skip_key (l @ r) else Some (l @ r)) = Some (w1 @ r)"
    using label_complete [OF list_one(1)] by blast
  have "skip_value (d + 1) (w1 @ v @ w @ closing c # r) = Some (w @ closing c # r)"
    by (rule list_one.IH) (use list_one w1 in \<open>auto intro: ends_value_blank\<close>)
  then have "skip_items d c (l @ v @ w @ closing c # r) = Some r"
    using skip_items_step [OF label_ne [OF list_one.hyps(2)] w1(2)] list_one.hyps(3)
    by (simp add: skip_space_blank skip_space_Cons not_space)
  then show ?case by simp
next
  case (list_more c k l n v w u ms)
  obtain w1 where w1: "blank w1" "\<And>r. (if c = CHR ''{'' then skip_key (l @ r) else Some (l @ r)) = Some (w1 @ r)"
    using label_complete [OF list_more(1)] by blast
  have "skip_value (d + 1) (w1 @ v @ w @ CHR '','' # u @ closing c # r) = Some (w @ CHR '','' # u @ closing c # r)"
    by (rule list_more.IH(1)) (use list_more w1 in \<open>auto intro: ends_value_blank\<close>)
  then have "skip_items d c (l @ v @ w @ CHR '','' # u @ closing c # r) = skip_items d c (u @ closing c # r)"
    using skip_items_step [OF label_ne [OF list_more.hyps(2)] w1(2)] list_more.hyps(3)
    by (simp add: skip_space_blank skip_space_Cons not_space) (simp add: closing_def)
  then show ?case using list_more.IH(2) [OF list_more.prems, of r] by simp
qed

lemma well_formed_grammar:
  "well_formed s \<longleftrightarrow> (\<exists>w1 v w2. s = w1 @ v @ w2 \<and> blank w1 \<and> blank w2 \<and> json_text 33 v)"
proof
  assume "well_formed s"
  then obtain r where r: "skip_value 0 s = Some r" "blank r"
    by (auto simp: well_formed_def skip_space_Nil split: option.splits)
  then show "\<exists>w1 v w2. s = w1 @ v @ w2 \<and> blank w1 \<and> blank w2 \<and> json_text 33 v"
    using skip_sound(1) [OF r(1)] by auto
next
  assume "\<exists>w1 v w2. s = w1 @ v @ w2 \<and> blank w1 \<and> blank w2 \<and> json_text 33 v"
  then obtain w1 v w2 where s: "s = w1 @ v @ w2" "blank w1" "blank w2" "json_text 33 v" by blast
  have "ends_value w2" using ends_value_blank [OF s(3), of "[]"] by simp
  then have "skip_value 0 s = Some w2" using skip_complete(1) [OF s(4) _ s(2)] s(1) by simp
  then show "well_formed s" using s(3) by (simp add: well_formed_def skip_space_Nil)
qed

section \<open>Walking members and elements\<close>

definition value_text :: "string \<Rightarrow> json_value" where
  "value_text t = \<lparr>jv_raw = t, jv_type = classify t\<rparr>"

fun walk_members :: "'a member_fn \<Rightarrow> (string \<times> string) list \<Rightarrow> 'a \<Rightarrow> bool \<times> 'a" where
  "walk_members f [] a = (True, a)"
| "walk_members f ((k, t) # ms) a =
     (case f k (value_text t) a of (go, a1) \<Rightarrow> if go then walk_members f ms a1 else (False, a1))"

definition walk_end :: "bool \<Rightarrow> bool \<times> 'a \<Rightarrow> bool \<times> 'a" where
  "walk_end ok w = (if fst w then (ok, snd w) else (True, snd w))"

definition keeps_going :: "'a member_fn \<Rightarrow> bool" where
  "keeps_going f \<longleftrightarrow> (\<forall>k v a. fst (f k v a))"

definition json_object :: "string \<Rightarrow> (string \<times> string) list \<Rightarrow> bool" where
  "json_object s ms \<longleftrightarrow>
     (\<exists>w1 u w2. s = w1 @ CHR ''{'' # u @ CHR ''}'' # w2 \<and> blank w1 \<and> blank w2 \<and>
        (ms = [] \<and> blank u \<or> json_list 33 CHR ''{'' u ms))"

definition json_array :: "string \<Rightarrow> string list \<Rightarrow> bool" where
  "json_array s es \<longleftrightarrow>
     (\<exists>w1 u r. s = w1 @ CHR ''['' # u @ CHR '']'' # r \<and> blank w1 \<and>
        (es = [] \<and> blank u \<or> json_list 33 CHR ''['' u (map (Pair []) es)))"

lemma value_of_text:
  assumes "json_text n t"
  shows "value_of (t @ r) r = value_text t"
proof -
  have "skip_space (t @ r) = t @ r" "skip_space t = t"
    using skip_space_text [OF assms, of "[]" r] skip_space_text [OF assms, of "[]" "[]"] by simp_all
  then have "classify (t @ r) = classify t" using json_text_hd [OF assms] by (simp add: classify_def)
  then show ?thesis by (simp add: value_of_def value_text_def span_def)
qed

lemma key_of_text: "json_string k t \<Longrightarrow> key_of (t @ r) r = k"
  by (auto simp: key_of_def json_string_def)

lemma json_member_complete:
  assumes "json_label CHR ''{'' k l" "json_text n t" "n \<le> 33" "ends_value r"
  shows "json_member (skip_space (l @ t @ r)) = Some (k, value_text t, r)"
proof -
  obtain w1 q w2 w3 where l: "l = w1 @ q @ w2 @ CHR '':'' # w3" "json_string k q" "blank w1" "blank w2" "blank w3"
    using json_label_object [OF assms(1)] .
  have sp: "skip_space (l @ t @ r) = q @ w2 @ CHR '':'' # w3 @ t @ r"
    using skip_space_string [OF l(2,3)] l(1) by simp
  have sv: "skip_space (w3 @ t @ r) = t @ r" by (rule skip_space_text [OF assms(2) l(5)])
  have "skip_value 0 (t @ r) = Some r" using skip_complete(1) [OF assms(2), of 0 "[]" r] assms(3,4) by simp
  then show ?thesis
    unfolding sp json_member_def skip_string_complete [OF l(2)]
    by (simp add: skip_space_blank skip_space_Cons not_space l(4) sv value_of_text [OF assms(2)] key_of_text [OF l(2)])
qed

lemma json_member_sound:
  assumes "json_member s = Some (k, v, r)"
  shows "\<exists>l t. s = l @ t @ r \<and> json_label CHR ''{'' k l \<and> json_text 33 t \<and> v = value_text t"
proof -
  obtain u x where u: "skip_string s = Some u" "skip_space u = CHR '':'' # x" "skip_value 0 (skip_space x) = Some r"
      "k = key_of s u" "v = value_of (skip_space x) r"
    using assms by (auto simp: json_member_def Let_def starts_char_Cons split: option.splits if_splits)
  obtain k' q where q: "s = q @ u" "json_string k' q" using skip_string_sound [OF u(1)] by blast
  have k: "k' = k" using key_of_text [OF q(2), of u] q(1) u(4) by simp
  obtain w2 where w2: "u = w2 @ CHR '':'' # x" "blank w2" using skip_space_split [of u] u(2) by auto
  obtain w3 where w3: "x = w3 @ skip_space x" "blank w3" using skip_space_split by blast
  obtain w t where t: "skip_space x = w @ t @ r" "blank w" "json_text 33 t" using skip_sound(1) [OF u(3)] by auto
  have "skip_space (skip_space x) = t @ r" unfolding t(1) by (rule skip_space_text [OF t(3,2)])
  then have sx: "skip_space x = t @ r" by simp
  have "x = w3 @ t @ r" using w3(1) unfolding sx .
  then have "s = (q @ w2 @ CHR '':'' # w3) @ t @ r" using q(1) w2(1) by simp
  moreover have "json_label CHR ''{'' k (q @ w2 @ CHR '':'' # w3)"
    using json_label_objectI [OF q(2), of "[]"] w2(2) w3(2) k by simp
  moreover have "v = value_text t" using u(5) value_of_text [OF t(3), of r] unfolding sx by simp
  ultimately show ?thesis using t(3) by blast
qed

lemma json_list_induct [consumes 1, case_names list_one list_more]:
  assumes "json_list n c u ms"
    and "\<And>k l v w. json_label c k l \<Longrightarrow> json_text n v \<Longrightarrow> blank w \<Longrightarrow> P (l @ v @ w) [(k, v)]"
    and "\<And>k l v w u ms. json_label c k l \<Longrightarrow> json_text n v \<Longrightarrow> blank w \<Longrightarrow> json_list n c u ms \<Longrightarrow> P u ms \<Longrightarrow>
      P (l @ v @ w @ CHR '','' # u) ((k, v) # ms)"
  shows "P u ms"
proof -
  have "n' = n \<longrightarrow> c' = c \<longrightarrow> P u' ms'" if "json_list n' c' u' ms'" for n' c' u' ms'
    using that
    by (induction rule: json_text_json_list.inducts(2) [where ?P1.0 = "\<lambda>_ _. True"]) (auto intro: assms(2,3))
  then show ?thesis using assms(1) by blast
qed

lemma member_loop_step:
  assumes "json_member (skip_space s) = Some (k, v, r)"
  shows "member_loop f s a =
     (case f k v a of
        (go, a1) \<Rightarrow>
          if \<not> go then (True, a1)
          else if starts_char CHR ''}'' (skip_space r) then (skip_space (tl (skip_space r)) = [], a1)
          else if starts_char CHR '','' (skip_space r) then member_loop f (tl (skip_space r)) a1
          else (False, a1))"
  unfolding member_loop.simps [of f s] assms option.case prod.case Let_def ..

lemma member_loop_complete:
  assumes "json_list n CHR ''{'' u ms" "n \<le> 33"
  shows "member_loop f (u @ CHR ''}'' # r) a = walk_end (blank r) (walk_members f ms a)"
  using assms(1)
proof (induction arbitrary: a rule: json_list_induct)
  case (list_one k l v w)
  have m: "json_member (skip_space (l @ v @ w @ CHR ''}'' # r)) = Some (k, value_text v, w @ CHR ''}'' # r)"
    using list_one assms(2) by (intro json_member_complete) (auto intro: ends_value_blank)
  show ?case
    using list_one(3) member_loop_step [OF m, of f a]
    by (simp add: skip_space_blank skip_space_Cons not_space skip_space_Nil walk_end_def split: prod.splits)
next
  case (list_more k l v w u ms)
  have m: "json_member (skip_space (l @ v @ w @ CHR '','' # u @ CHR ''}'' # r)) =
      Some (k, value_text v, w @ CHR '','' # u @ CHR ''}'' # r)"
    using list_more assms(2) by (intro json_member_complete) (auto intro: ends_value_blank)
  show ?case
    using list_more(3,5) member_loop_step [OF m, of f a]
    by (simp add: skip_space_blank skip_space_Cons not_space walk_end_def split: prod.splits)
qed

lemma member_loop_sound:
  "member_loop f s a = (True, b) \<Longrightarrow> keeps_going f \<Longrightarrow>
     \<exists>u r ms. s = u @ CHR ''}'' # r \<and> blank r \<and> json_list 33 CHR ''{'' u ms"
proof (induction f s a rule: member_loop.induct)
  case (1 f s a)
  obtain k v r where m: "json_member (skip_space s) = Some (k, v, r)"
    using 1(2) by (auto simp: member_loop.simps [of f s] split: option.splits)
  obtain a1 where f: "f k v a = (True, a1)" using 1(3) by (metis keeps_going_def prod.collapse)
  obtain w where w: "s = w @ skip_space s" "blank w" using skip_space_split by blast
  obtain l t where t: "skip_space s = l @ t @ r" "json_label CHR ''{'' k l" "json_text 33 t"
    using json_member_sound [OF m] by blast
  have s: "s = (w @ l) @ t @ r" using w(1) unfolding t(1) by simp
  have l: "json_label CHR ''{'' k (w @ l)" by (rule json_label_blank [OF t(2) w(2)])
  obtain w2 where w2: "r = w2 @ skip_space r" "blank w2" using skip_space_split by blast
  have e: "(if starts_char CHR ''}'' (skip_space r) then (skip_space (tl (skip_space r)) = [], a1)
      else if starts_char CHR '','' (skip_space r) then member_loop f (tl (skip_space r)) a1 else (False, a1)) = (True, b)"
    using 1(2) m f by (simp add: member_loop.simps [of f s] Let_def)
  show ?case
  proof (cases "starts_char CHR ''}'' (skip_space r)")
    case True
    then obtain x where x: "skip_space r = CHR ''}'' # x" "blank x" using e by (auto simp: starts_char_Cons skip_space_Nil)
    have "r = w2 @ CHR ''}'' # x" using w2(1) unfolding x(1) .
    then have "s = ((w @ l) @ t @ w2) @ CHR ''}'' # x" using s by simp
    then show ?thesis using list_one [OF l t(3) w2(2)] x(2) by blast
  next
    case False
    then obtain x where x: "skip_space r = CHR '','' # x" "member_loop f x a1 = (True, b)"
      using e by (auto simp: starts_char_Cons split: if_splits)
    have "\<exists>u y ms. tl (skip_space r) = u @ CHR ''}'' # y \<and> blank y \<and> json_list 33 CHR ''{'' u ms"
      by (rule 1(1) [OF m refl refl f [symmetric] _ refl False _ _ 1(3)]) (use x in simp_all)
    then obtain u y ms where u: "x = u @ CHR ''}'' # y" "blank y" "json_list 33 CHR ''{'' u ms" using x(1) by auto
    have "r = w2 @ CHR '','' # x" using w2(1) unfolding x(1) .
    then have "s = ((w @ l) @ t @ w2 @ CHR '','' # u) @ CHR ''}'' # y" using s u(1) by simp
    then show ?thesis using list_more [OF l t(3) w2(2) u(3)] u(2) by blast
  qed
qed

lemma for_each_member_at:
  assumes "blank w" "\<not> starts_char CHR ''}'' (skip_space u)"
  shows "for_each_member f (w @ CHR ''{'' # u) a = member_loop f (skip_space u) a"
  using assms by (simp add: for_each_member_def skip_space_blank skip_space_Cons not_space)

lemma member_loop_space: "member_loop f (skip_space s) a = member_loop f s a"
  by (simp only: member_loop.simps [of f s] member_loop.simps [of f "skip_space s"] skip_space_idem)

lemma for_each_member_object:
  assumes "json_object s ms"
  shows "for_each_member f s a = (True, snd (walk_members f ms a))"
proof -
  obtain w1 u w2 where s: "s = w1 @ CHR ''{'' # u @ CHR ''}'' # w2" "blank w1" "blank w2"
      "ms = [] \<and> blank u \<or> json_list 33 CHR ''{'' u ms"
    using assms unfolding json_object_def by blast
  from s(4) show ?thesis
  proof
    assume e: "ms = [] \<and> blank u"
    then show ?thesis
      using s by (simp add: for_each_member_def skip_space_blank skip_space_Cons not_space skip_space_Nil)
  next
    assume l: "json_list 33 CHR ''{'' u ms"
    have n: "\<not> starts_char CHR ''}'' (skip_space (u @ CHR ''}'' # w2))"
      using json_list_start [OF l, of "CHR ''}'' # w2"] by (simp add: is_open_def closing_def)
    show ?thesis
      unfolding s(1) for_each_member_at [OF s(2) n] member_loop_space
      using member_loop_complete [OF l, of f w2 a] s(3) by (simp add: walk_end_def)
  qed
qed

lemma for_each_member_sound:
  assumes "fst (for_each_member f s a)" "keeps_going f"
  shows "\<exists>ms. json_object s ms"
proof -
  obtain w where w: "s = w @ skip_space s" "blank w" using skip_space_split by blast
  obtain u where u: "skip_space s = CHR ''{'' # u"
    using assms(1) by (auto simp: for_each_member_def Let_def starts_char_Cons split: if_splits)
  obtain w1 where w1: "u = w1 @ skip_space u" "blank w1" using skip_space_split by blast
  have s: "s = w @ CHR ''{'' # u" using w(1) unfolding u .
  show ?thesis
  proof (cases "starts_char CHR ''}'' (skip_space u)")
    case True
    then obtain r where r: "skip_space u = CHR ''}'' # r" "blank r"
      using assms(1) u by (auto simp: for_each_member_def Let_def starts_char_Cons skip_space_Nil)
    have "u = w1 @ CHR ''}'' # r" using w1(1) unfolding r(1) .
    then have "json_object s []" unfolding json_object_def s using w(2) w1(2) r(2) by blast
    then show ?thesis by blast
  next
    case False
    then have "fst (member_loop f u a)"
      using assms(1) for_each_member_at [OF w(2) False, of f a] s by (simp add: member_loop_space)
    then obtain b where b: "member_loop f u a = (True, b)" by (metis prod.collapse)
    obtain v r ms where v: "u = v @ CHR ''}'' # r" "blank r" "json_list 33 CHR ''{'' v ms"
      using member_loop_sound [OF b assms(2)] by blast
    then have "json_object s ms" unfolding json_object_def s using w(2) by blast
    then show ?thesis by blast
  qed
qed

text \<open>The members of an object are determined by its text: they are what the walk reports.\<close>

definition report :: "(string \<times> json_value) list member_fn" where
  "report k v acc = (True, acc @ [(k, v)])"

lemma walk_report: "walk_members report ms acc = (True, acc @ map (\<lambda>(k, t). (k, value_text t)) ms)"
  by (induction ms arbitrary: acc) (auto simp: report_def)

lemma json_object_unique: "json_object s ms \<Longrightarrow> json_object s ms' \<Longrightarrow> ms = ms'"
proof -
  assume o: "json_object s ms" "json_object s ms'"
  have "map (\<lambda>(k, t). (k, value_text t)) ms = map (\<lambda>(k, t). (k, value_text t)) ms'"
    using for_each_member_object [OF o(1), of report "[]"] for_each_member_object [OF o(2), of report "[]"]
    by (simp add: walk_report)
  then have "map (\<lambda>(k, v). (k, jv_raw v)) (map (\<lambda>(k, t). (k, value_text t)) ms) =
      map (\<lambda>(k, v). (k, jv_raw v)) (map (\<lambda>(k, t). (k, value_text t)) ms')" by simp
  then show "ms = ms'" by (simp add: value_text_def comp_def case_prod_unfold)
qed

subsection \<open>Lookup\<close>

lemma find_loop_step:
  assumes "json_member (skip_space s) = Some (k, v, r)"
  shows "find_loop key s =
     (if k = key then v
      else if starts_char CHR '','' (skip_space r) then find_loop key (tl (skip_space r)) else json_value0)"
proof -
  have "skip_string (skip_space s) \<noteq> None" using assms by (auto simp: json_member_def split: option.splits)
  then have "starts_char quote (skip_space s)" by (auto simp: skip_string_def split: if_splits)
  then have "\<not> (skip_space s = [] \<or> hd (skip_space s) = CHR ''}'')" by (auto simp: starts_char_def quote_def)
  then show ?thesis
    unfolding find_loop.simps [of key s] Let_def assms option.case prod.case by simp
qed

lemma find_loop_complete:
  assumes "json_list n CHR ''{'' u ms" "n \<le> 33"
  shows "find_loop key (u @ CHR ''}'' # r) =
     (case map_of ms key of None \<Rightarrow> json_value0 | Some t \<Rightarrow> value_text t)"
  using assms(1)
proof (induction rule: json_list_induct)
  case (list_one k l v w)
  have m: "json_member (skip_space (l @ v @ w @ CHR ''}'' # r)) = Some (k, value_text v, w @ CHR ''}'' # r)"
    using list_one assms(2) by (intro json_member_complete) (auto intro: ends_value_blank)
  show ?case
    using list_one(3) find_loop_step [OF m, of key] by (simp add: skip_space_blank skip_space_Cons not_space)
next
  case (list_more k l v w u ms)
  have m: "json_member (skip_space (l @ v @ w @ CHR '','' # u @ CHR ''}'' # r)) =
      Some (k, value_text v, w @ CHR '','' # u @ CHR ''}'' # r)"
    using list_more assms(2) by (intro json_member_complete) (auto intro: ends_value_blank)
  show ?case
    using list_more(3,5) find_loop_step [OF m, of key] by (simp add: skip_space_blank skip_space_Cons not_space)
qed

lemma json_find_object:
  assumes "json_object s ms"
  shows "json_find s key = (case map_of ms key of None \<Rightarrow> json_value0 | Some t \<Rightarrow> value_text t)"
proof -
  obtain w1 u w2 where s: "s = w1 @ CHR ''{'' # u @ CHR ''}'' # w2" "blank w1" "blank w2"
      "ms = [] \<and> blank u \<or> json_list 33 CHR ''{'' u ms"
    using assms unfolding json_object_def by blast
  have f: "json_find s key = find_loop key (u @ CHR ''}'' # w2)"
    using s by (simp add: json_find_def skip_space_blank skip_space_Cons not_space)
  from s(4) show ?thesis
  proof
    assume e: "ms = [] \<and> blank u"
    then show ?thesis
      unfolding f by (simp add: find_loop.simps [of key "u @ _"] skip_space_blank skip_space_Cons not_space)
  next
    assume l: "json_list 33 CHR ''{'' u ms"
    show ?thesis unfolding f by (rule find_loop_complete [OF l order_refl])
  qed
qed

subsection \<open>Elements\<close>

lemma element_loop_step:
  assumes "skip_value 0 (skip_space s) = Some r"
  shows "element_loop f s a =
     (case f (value_of (skip_space s) r) a of
        (go, a1) \<Rightarrow>
          if \<not> go then (True, a1)
          else if starts_char CHR '']'' (skip_space r) then (True, a1)
          else if starts_char CHR '','' (skip_space r) then element_loop f (tl (skip_space r)) a1
          else (False, a1))"
  unfolding element_loop.simps [of f s] Let_def assms option.case ..

lemma element_complete:
  assumes "blank l" "json_text n v" "n \<le> 33" "ends_value r"
  shows "skip_space (l @ v @ r) = v @ r" "skip_value 0 (skip_space (l @ v @ r)) = Some r" "value_of (v @ r) r = value_text v"
proof -
  show s: "skip_space (l @ v @ r) = v @ r" by (rule skip_space_text [OF assms(2,1)])
  show "skip_value 0 (skip_space (l @ v @ r)) = Some r"
    using skip_complete(1) [OF assms(2), of 0 "[]" r] assms(3,4) unfolding s by simp
  show "value_of (v @ r) r = value_text v" by (rule value_of_text [OF assms(2)])
qed

lemma element_loop_complete:
  assumes "json_list n CHR ''['' u ms" "n \<le> 33"
  shows "element_loop f (u @ CHR '']'' # r) a = (True, snd (walk_members (\<lambda>_. f) ms a))"
  using assms(1)
proof (induction arbitrary: a rule: json_list_induct)
  case (list_one k l v w)
  have l: "blank l" using list_one(1) by (simp add: json_label_def)
  have e: "ends_value (w @ CHR '']'' # r)" using list_one(3) by (auto intro: ends_value_blank)
  note m = element_complete [OF l list_one(2) assms(2) e]
  show ?case
    using list_one(3) element_loop_step [OF m(2), of f a]
    by (simp add: skip_space_blank skip_space_Cons not_space m(1,3) split: prod.splits)
next
  case (list_more k l v w u ms)
  have l: "blank l" using list_more(1) by (simp add: json_label_def)
  have e: "ends_value (w @ CHR '','' # u @ CHR '']'' # r)" using list_more(3) by (auto intro: ends_value_blank)
  note m = element_complete [OF l list_more(2) assms(2) e]
  show ?case
    using list_more(3,5) element_loop_step [OF m(2), of f a]
    by (simp add: skip_space_blank skip_space_Cons not_space m(1,3) split: prod.splits)
qed

lemma for_each_array:
  assumes "json_array s es"
  shows "for_each f s a = (True, snd (walk_members (\<lambda>_. f) (map (Pair []) es) a))"
proof -
  obtain w1 u r where s: "s = w1 @ CHR ''['' # u @ CHR '']'' # r" "blank w1"
      "es = [] \<and> blank u \<or> json_list 33 CHR ''['' u (map (Pair []) es)"
    using assms unfolding json_array_def by blast
  have sp: "skip_space s = CHR ''['' # u @ CHR '']'' # r" using s by (simp add: skip_space_blank skip_space_Cons not_space)
  from s(3) show ?thesis
  proof
    assume e: "es = [] \<and> blank u"
    then show ?thesis using sp by (simp add: for_each_def skip_space_blank skip_space_Cons not_space)
  next
    assume l: "json_list 33 CHR ''['' u (map (Pair []) es)"
    have n: "\<not> starts_char CHR '']'' (skip_space (u @ CHR '']'' # r))"
      using json_list_start [OF l, of "CHR '']'' # r"] by (simp add: is_open_def closing_def)
    have "element_loop f (skip_space (u @ CHR '']'' # r)) a = element_loop f (u @ CHR '']'' # r) a"
      by (simp only: element_loop.simps [of f "u @ _"] element_loop.simps [of f "skip_space _"] skip_space_idem)
    then show ?thesis
      using n sp element_loop_complete [OF l, of f r a] by (simp add: for_each_def)
  qed
qed

section \<open>Strings and numbers\<close>

text \<open>The text an escaped body stands for, when every escape is one of the simple ones.\<close>

fun unescape :: "string \<Rightarrow> string option" where
  "unescape [] = Some []"
| "unescape (c # s) =
     (if c \<noteq> backslash then map_option (Cons c) (unescape s)
      else
        (case s of
           [] \<Rightarrow> None
         | e # s' \<Rightarrow>
             (case decode_escape e of None \<Rightarrow> None | Some d \<Rightarrow> map_option (Cons d) (unescape s'))))"

lemma equals_decoded_iff: "equals_decoded body expected \<longleftrightarrow> unescape body = Some expected"
proof (induction body expected rule: equals_decoded.induct)
  case (1 expected)
  then show ?case by auto
next
  case (2 c body expected)
  then show ?case by (cases expected) (auto split: list.splits option.splits)
qed

lemma unescape_plain: "backslash \<notin> set s \<Longrightarrow> unescape s = Some s"
  by (induction s) auto

lemma value_text_string:
  assumes "json_string k t"
  shows "jv_type (value_text t) = JsonString" "jv_raw (value_text t) = quote # k @ [quote]"
proof -
  have t: "t = quote # k @ [quote]" using assms by (simp add: json_string_def)
  then show "jv_type (value_text t) = JsonString" "jv_raw (value_text t) = quote # k @ [quote]"
    by (simp_all add: value_text_def classify_def skip_space_Cons not_space) (simp_all add: quote_def)
qed

lemma string_equals_value:
  assumes "json_string k t"
  shows "string_equals (value_text t) expected \<longleftrightarrow> unescape k = Some expected"
  using unescape_plain [of k]
  by (auto simp: string_equals_def read_string_def value_text_string [OF assms] equals_decoded_iff Let_def)

lemma string_body_value:
  assumes "json_string k t"
  shows "string_body (value_text t) = (if backslash \<in> set k then [] else k)"
  by (simp add: string_body_def read_string_def value_text_string [OF assms] Let_def)

lemma u64_loop_spec:
  "n \<le> 18446744073709551615 \<Longrightarrow>
     u64_loop cs n = Some v \<longleftrightarrow>
       all_digits cs \<and> v = n * 10 ^ length cs + digits_value cs \<and> v \<le> 18446744073709551615"
proof (induction cs arbitrary: n)
  case Nil
  then show ?case by auto
next
  case (Cons c cs)
  have grow: "n * 10 + digit_value c \<le> (n * 10 + digit_value c) * 10 ^ length cs + digits_value cs"
    by (simp add: trans_le_add1)
  have v: "n * 10 ^ length (c # cs) + digits_value (c # cs) = (n * 10 + digit_value c) * 10 ^ length cs + digits_value cs"
    by (simp add: digits_value_Cons algebra_simps)
  show ?case
  proof (cases "is_digit c")
    case True
    then have d: "digit_value c < 10" using digit_value_le [of c] by simp
    have over: "n > (18446744073709551615 - digit_value c) div 10 \<longleftrightarrow> n * 10 + digit_value c > 18446744073709551615"
      using d by (simp add: div_less_iff_less_mult) linarith
    show ?thesis
    proof (cases "n * 10 + digit_value c > 18446744073709551615")
      case True
      then have "u64_loop (c # cs) n = None" using over by simp
      then show ?thesis using True grow unfolding v by auto
    next
      case False
      then have "u64_loop (c # cs) n = u64_loop cs (n * 10 + digit_value c)" using over \<open>is_digit c\<close> by simp
      then show ?thesis using Cons.IH [of "n * 10 + digit_value c"] False \<open>is_digit c\<close> unfolding v
        by (simp add: all_digits_def)
    qed
  next
    case False
    then show ?thesis by (simp add: all_digits_def)
  qed
qed

lemma parse_u64_iff:
  "parse_u64 t = Some v \<longleftrightarrow> t \<noteq> [] \<and> all_digits t \<and> digits_value t \<le> 18446744073709551615 \<and> v = of_nat (digits_value t)"
proof (cases "t = []")
  case False
  have l: "u64_loop t 0 = Some n \<longleftrightarrow> all_digits t \<and> n = digits_value t \<and> n \<le> 18446744073709551615" for n
    using u64_loop_spec [of 0 t n] by simp
  have "parse_u64 t = Some v \<longleftrightarrow> (\<exists>n. u64_loop t 0 = Some n \<and> v = of_nat n)"
    using False by (auto simp: parse_u64_def)
  then show ?thesis using False by (simp only: l) blast
qed (simp add: parse_u64_def)

section \<open>What the reader guarantees\<close>

text \<open>
  the numbers accepted are those of RFC 8259: an optional minus sign, an integer part without a superfluous
  zero, an optional fraction and an optional exponent, each with at least one digit, and nothing else.
\<close>

theorem json_number_exact: "is_json_number t \<longleftrightarrow> rfc_number t"
  by (rule is_json_number_rfc)



definition sample_object :: string where
  "sample_object = ''{ '' @ quote # ''a'' @ quote # '': -1.5e3, '' @ quote # ''b'' @ quote # '':[true,{}] } ''"

definition sample_members :: "(string \<times> string) list" where
  "sample_members = [(''a'', ''-1.5e3''), (''b'', ''[true,{}]'')]"

lemma sample_walk:
  "for_each_member report sample_object [] = (True, map (\<lambda>(k, t). (k, value_text t)) sample_members)"
  by code_simp

lemma sample_is_object: "json_object sample_object sample_members"
proof -
  have "keeps_going report" by (simp add: keeps_going_def report_def)
  then obtain ms where ms: "json_object sample_object ms"
    using for_each_member_sound [of report sample_object "[]"] sample_walk by auto
  have "map (\<lambda>(k, t). (k, value_text t)) ms = map (\<lambda>(k, t). (k, value_text t)) sample_members"
    using for_each_member_object [OF ms, of report "[]"] sample_walk by (simp add: walk_report)
  then have "map (\<lambda>(k, v). (k, jv_raw v)) (map (\<lambda>(k, t). (k, value_text t)) ms) =
      map (\<lambda>(k, v). (k, jv_raw v)) (map (\<lambda>(k, t). (k, value_text t)) sample_members)" by simp
  then show ?thesis using ms by (simp add: value_text_def comp_def case_prod_unfold)
qed


text \<open>
  lookup takes the first occurrence of a key, and a lookup that finds nothing in a JSON object means that the
  key is not there.
\<close>

theorem find_takes_first:
  assumes "json_object s ms"
  shows "json_find s key = (case map_of ms key of None \<Rightarrow> json_value0 | Some t \<Rightarrow> value_text t)"
  by (rule json_find_object [OF assms])

theorem find_takes_first_witness: "jv_raw (json_find sample_object ''b'') = ''[true,{}]''"
  using find_takes_first [OF sample_is_object, of "''b''"] by (simp add: sample_members_def value_text_def)

text \<open>
  sequence numbers and checksums are read exactly: a token is accepted when it is a non-empty string of
  decimal digits whose value fits 64 bits, and then its value is the result; nothing saturates or wraps.
\<close>

theorem parse_u64_exact:
  "parse_u64 t =
     (if t \<noteq> [] \<and> all_digits t \<and> digits_value t \<le> 18446744073709551615 then Some (of_nat (digits_value t)) else None)"
  using parse_u64_iff [of t] by (cases "parse_u64 t") auto

text \<open>
  The walk hands each member's value to \<open>skip_value\<close> at depth 0, so it accepts one more level of nesting than
  \<open>well_formed\<close>, which counts the object itself.
\<close>

definition deep_object :: string where
  "deep_object = ''{'' @ quote # ''a'' @ quote # '':'' @ replicate 33 CHR ''['' @ replicate 33 CHR '']'' @ ''}''"

theorem walk_accepts_deeper: "fst (for_each_member report deep_object []) \<and> \<not> well_formed deep_object"
  by code_simp

end
