(* ===== verification/Kraken_Time.thy ===== *)
theory Kraken_Time
  imports Json_Grammar "HOL-Library.Monad_Syntax"
begin

text \<open>
  The timestamps of the Kraken feed, \<open>namespace detail\<close> of \<open>include/crossbook/venues/kraken.hpp\<close>: days since the
  epoch of a calendar date, and an RFC 3339 instant in UTC as nanoseconds.  The unsigned arithmetic is on 32-bit
  words; a position in the text is the text from there.
\<close>

section \<open>The code\<close>

definition days_from_civil :: "int \<Rightarrow> u32 \<Rightarrow> u32 \<Rightarrow> int" where
  "days_from_civil y0 m d =
     (let y = y0 - (if m \<le> 2 then 1 else 0);
          era = (if y \<ge> 0 then y else y - 399) sdiv 400;
          yoe = word_of_int (y - era * 400) :: u32;
          doy = (153 * (if m > 2 then m - 3 else m + 9) + 2) div 5 + d - 1;
          doe = yoe * 365 + yoe div 4 - yoe div 100 + doy
      in era * 146097 + uint doe - 719468)"

fun digit_run :: "nat \<Rightarrow> string \<Rightarrow> u32 \<Rightarrow> (u32 \<times> string) option" where
  "digit_run n [] v = (if n = 0 then Some (v, []) else None)"
| "digit_run n (c # s) v =
     (if n = 0 then Some (v, c # s)
      else if \<not> is_digit c then None
      else digit_run (n - 1) s (v * 10 + of_nat (digit_value c)))"

definition take_digits :: "nat \<Rightarrow> string \<Rightarrow> (u32 \<times> string) option" where
  "take_digits n s = (if n > length s then None else digit_run n s 0)"

definition take_char :: "char set \<Rightarrow> string \<Rightarrow> string option" where
  "take_char C s = (if s = [] \<or> hd s \<notin> C then None else Some (tl s))"

text \<open>The loop over the fraction: the digits kept, their value, and the rest of the text.\<close>

fun fraction_loop :: "string \<Rightarrow> nat \<Rightarrow> int \<Rightarrow> nat \<times> int \<times> string" where
  "fraction_loop [] digits scaled = (digits, scaled, [])"
| "fraction_loop (c # s) digits scaled =
     (if \<not> is_digit c then (digits, scaled, c # s)
      else if digits < 9 then fraction_loop s (digits + 1) (scaled * 10 + int (digit_value c))
      else fraction_loop s digits scaled)"

definition parse_fraction :: "string \<Rightarrow> (int \<times> string) option" where
  "parse_fraction s =
     (if \<not> starts_char CHR ''.'' s then Some (0, s)
      else
        (let (digits, scaled, r) = fraction_loop (tl s) 0 0
         in if digits = 0 then None else Some (((\<lambda>x. x * 10) ^^ (9 - digits)) scaled, r)))"

definition parse_date_time :: "string \<Rightarrow> (u32 \<times> u32 \<times> u32 \<times> u32 \<times> u32 \<times> u32 \<times> string) option" where
  "parse_date_time s0 = do {
     (year, s) \<leftarrow> take_digits 4 s0; s \<leftarrow> take_char {CHR ''-''} s;
     (month, s) \<leftarrow> take_digits 2 s; s \<leftarrow> take_char {CHR ''-''} s;
     (day, s) \<leftarrow> take_digits 2 s; s \<leftarrow> take_char {CHR ''T'', CHR ''t''} s;
     (hour, s) \<leftarrow> take_digits 2 s; s \<leftarrow> take_char {CHR '':''} s;
     (minute, s) \<leftarrow> take_digits 2 s; s \<leftarrow> take_char {CHR '':''} s;
     (second, s) \<leftarrow> take_digits 2 s;
     Some (year, month, day, hour, minute, second, s) }"

definition kMaxSeconds :: int where "kMaxSeconds = i64_max sdiv 1000000000 - 1"

definition parse_rfc3339_nanos :: "string \<Rightarrow> int option" where
  "parse_rfc3339_nanos text' = do {
     (year, month, day, hour, minute, second, s) \<leftarrow> parse_date_time text';
     (if month < 1 \<or> month > 12 \<or> day < 1 \<or> day > 31 \<or> hour > 23 \<or> minute > 59 \<or> second > 60 then None
      else do {
        (nanos, s) \<leftarrow> parse_fraction s;
        (if length s \<noteq> 1 \<or> hd s \<notin> {CHR ''Z'', CHR ''z''} then None
         else
           (let days = days_from_civil (uint year) month day;
                seconds = days * 86400 + uint hour * 3600 + uint minute * 60 + uint second
            in if seconds < 0 \<or> seconds > kMaxSeconds then None
               else Some (seconds * 1000000000 + nanos))) }) }"

section \<open>The calendar\<close>

definition leap_year :: "int \<Rightarrow> bool" where
  "leap_year y \<longleftrightarrow> y mod 4 = 0 \<and> (y mod 100 \<noteq> 0 \<or> y mod 400 = 0)"

definition month_days :: "int \<Rightarrow> nat \<Rightarrow> nat" where
  "month_days y m = (if m = 2 then (if leap_year y then 29 else 28) else if m \<in> {4, 6, 9, 11} then 30 else 31)"

text \<open>The date after a date.\<close>

definition next_date :: "int \<Rightarrow> nat \<Rightarrow> nat \<Rightarrow> int \<times> nat \<times> nat" where
  "next_date y m d =
     (if d < month_days y m then (y, m, d + 1) else if m < 12 then (y, m + 1, 1) else (y + 1, 1, 1))"

definition valid_date :: "int \<Rightarrow> nat \<Rightarrow> nat \<Rightarrow> bool" where
  "valid_date y m d \<longleftrightarrow> 1 \<le> m \<and> m \<le> 12 \<and> 1 \<le> d \<and> d \<le> month_days y m"

text \<open>The code's formula on unbounded numbers.\<close>

definition day_of_year :: "nat \<Rightarrow> nat \<Rightarrow> int" where
  "day_of_year m d = (153 * (if m > 2 then int m - 3 else int m + 9) + 2) div 5 + int d - 1"

definition civil_days :: "int \<Rightarrow> nat \<Rightarrow> nat \<Rightarrow> int" where
  "civil_days y0 m d =
     (let y = y0 - (if m \<le> 2 then 1 else 0)
      in y * 365 + y div 4 - y div 100 + y div 400 + day_of_year m d - 719468)"

lemma sdiv_floor_400: "(if y \<ge> 0 then y else y - 399) sdiv 400 = (y :: int) div 400"
proof (cases "y \<ge> 0")
  case True
  then show ?thesis by (simp add: sdiv_nonneg)
next
  case False
  then have "(y - 399) sdiv 400 = - ((399 - y) div 400)" by (simp add: signed_divide_int_def sgn_if)
  also have "\<dots> = y div 400" by linarith
  finally show ?thesis using False by simp
qed

lemma small_months: "1 \<le> m \<Longrightarrow> m \<le> 12 \<Longrightarrow>
    m = 1 \<or> m = 2 \<or> m = 3 \<or> m = 4 \<or> m = 5 \<or> m = 6 \<or> m = 7 \<or> m = 8 \<or> m = 9 \<or> m = 10 \<or> m = 11 \<or> m = (12 :: nat)"
  by presburger

lemma uint_small: "n < 4294967296 \<Longrightarrow> uint (of_nat n :: u32) = int n"
  by (simp add: uint_nat unat_of_nat)

lemma doe_exact:
  fixes w t :: u32
  assumes "0 \<le> uint w" "uint w < 400" "0 \<le> uint t" "uint t \<le> 370"
  shows "uint (w * 365 + w div 4 - w div 100 + t) = uint w * 365 + uint w div 4 - uint w div 100 + uint t"
proof -
  have "uint (w * 365 + w div 4 - w div 100 + t) =
      (uint w * 365 + uint w div 4 - uint w div 100 + uint t) mod 4294967296"
    by (simp only: uint_word_ariths uint_div) (simp add: mod_simps)
  also have "\<dots> = uint w * 365 + uint w div 4 - uint w div 100 + uint t"
    by (intro mod_pos_pos_trivial) (use assms in linarith)+
  finally show ?thesis .
qed

lemma cycle_terms:
  "y = r + e * 400 \<Longrightarrow> y4 = e * 100 + r4 \<Longrightarrow> y100 = e * 4 + r100 \<Longrightarrow>
     e * 146097 + (r * 365 + r4 - r100 + k) - 719468 = y * 365 + y4 - y100 + e + k - 719468" for y :: int
  by simp

lemma days_from_civil_exact:
  assumes "1 \<le> m" "m \<le> 12" "1 \<le> d" "d \<le> 31"
  shows "days_from_civil y (of_nat m) (of_nat d) = civil_days y m d"
proof -
  define Y where "Y = y - (if m \<le> 2 then 1 else 0)"
  let ?e = "Y div 400" and ?r = "Y mod 400"
  let ?doy = "(153 * (if (of_nat m :: u32) > 2 then of_nat m - 3 else of_nat m + 9) + 2) div 5 + of_nat d - 1 :: u32"
  have d32: "uint (of_nat d :: u32) = int d" using assms by (intro uint_small) simp
  have le: "(of_nat m :: u32) \<le> 2 \<longleftrightarrow> m \<le> 2"
    using small_months [OF assms(1,2)] by (elim disjE) simp_all
  have doy: "uint ?doy = day_of_year m d"
    using small_months [OF assms(1,2)] assms(3,4) d32
    by (elim disjE) (simp_all add: day_of_year_def uint_word_ariths)
  have "0 \<le> day_of_year m d" "day_of_year m d \<le> 370"
    using small_months [OF assms(1,2)] assms(3,4) by (elim disjE; simp add: day_of_year_def)+
  have r: "0 \<le> ?r" "?r < 400" by simp_all
  have yoe: "uint (word_of_int (Y - ?e * 400) :: u32) = ?r"
  proof -
    have "Y - ?e * 400 = ?r" by (simp add: minus_div_mult_eq_mod)
    moreover have "?r mod 4294967296 = ?r" using r by (intro mod_pos_pos_trivial) auto
    ultimately show ?thesis by (simp add: uint_word_of_int)
  qed
  have doe: "uint ((word_of_int (Y - ?e * 400) :: u32) * 365 + word_of_int (Y - ?e * 400) div 4
       - word_of_int (Y - ?e * 400) div 100 + ?doy) = ?r * 365 + ?r div 4 - ?r div 100 + day_of_year m d"
    using doe_exact [of "word_of_int (Y - ?e * 400)" ?doy] r
      \<open>0 \<le> day_of_year m d\<close> \<open>day_of_year m d \<le> 370\<close> unfolding yoe doy by blast
  have "days_from_civil y (of_nat m) (of_nat d) = ?e * 146097 + (?r * 365 + ?r div 4 - ?r div 100 + day_of_year m d) - 719468"
    unfolding days_from_civil_def le Y_def [symmetric] Let_def sdiv_floor_400 doe ..
  also have "\<dots> = Y * 365 + Y div 4 - Y div 100 + Y div 400 + day_of_year m d - 719468"
  proof -
    have "Y div 4 = (?r + (?e * 100) * 4) div 4" "Y div 100 = (?r + (?e * 4) * 100) div 100" by simp_all
    then have q: "Y div 4 = ?e * 100 + ?r div 4" "Y div 100 = ?e * 4 + ?r div 100"
      unfolding div_mult_self1 [OF numeral_neq_zero] .
    have y: "Y = ?r + ?e * 400" by simp
    show ?thesis by (rule cycle_terms [OF y q])
  qed
  also have "\<dots> = civil_days y m d" unfolding civil_days_def Y_def [symmetric] Let_def ..
  finally show ?thesis .
qed

text \<open>The formula counts days: the epoch is day 0 and the day after a date has the next number.\<close>

lemma month_start:
  "day_of_year 3 1 = 0" "day_of_year 4 1 = 31" "day_of_year 5 1 = 61" "day_of_year 6 1 = 92"
  "day_of_year 7 1 = 122" "day_of_year 8 1 = 153" "day_of_year 9 1 = 184" "day_of_year 10 1 = 214"
  "day_of_year 11 1 = 245" "day_of_year 12 1 = 275" "day_of_year 1 1 = 306" "day_of_year 2 1 = 337"
  by (simp_all add: day_of_year_def)

lemma day_of_year_day: "day_of_year m d = day_of_year m 1 + int d - 1"
  by (simp add: day_of_year_def)

lemma div_step:
  assumes "0 < (k :: int)"
  shows "y div k - (y - 1) div k = (if y mod k = 0 then 1 else 0)"
proof (cases "y mod k = 0")
  case True
  then have "y = k * (y div k)" using mult_div_mod_eq [of k y] by simp
  then have "y - 1 = k * (y div k - 1) + (k - 1)" unfolding right_diff_distrib by linarith
  then have "(y - 1) div k = y div k - 1" by (rule int_div_pos_eq) (use assms in auto)
  then show ?thesis using True by simp
next
  case False
  then have "0 < y mod k" using pos_mod_sign [OF assms, of y] by (simp add: less_le)
  then have "0 \<le> y mod k - 1" "y mod k - 1 < k" using pos_mod_bound [OF assms, of y] by linarith+
  moreover have "y - 1 = k * (y div k) + (y mod k - 1)" by simp
  ultimately have "(y - 1) div k = y div k" by (intro int_div_pos_eq) auto
  then show ?thesis using False by simp
qed

definition year_days :: "int \<Rightarrow> int" where
  "year_days y = y * 365 + y div 4 - y div 100 + y div 400"

lemma leap_terms:
  "(c \<longrightarrow> b) \<Longrightarrow> (b \<longrightarrow> a) \<Longrightarrow>
     (if a then 1 else 0) - (if b then 1 else 0) + (if c then 1 else 0) = (if a \<and> (\<not> b \<or> c) then 1 else (0 :: int))"
  by (cases a; cases b; cases c; simp)

lemma year_terms:
  "(y * 365 + a - b + c) - ((y - 1) * 365 + a' - b' + c') = 365 + ((a - a') - (b - b') + (c - c'))" for y :: int
  by simp

lemma year_step: "year_days y = year_days (y - 1) + 365 + (if leap_year y then 1 else 0)"
proof -
  have i: "y mod 400 = 0 \<longrightarrow> y mod 100 = 0" "y mod 100 = 0 \<longrightarrow> y mod 4 = 0"
    using dvd_trans [of 100 400 y] dvd_trans [of 4 100 y] by (simp_all add: dvd_eq_mod_eq_0)
  have s: "y div 4 - (y - 1) div 4 = (if y mod 4 = 0 then 1 else 0)"
    "y div 100 - (y - 1) div 100 = (if y mod 100 = 0 then 1 else 0)"
    "y div 400 - (y - 1) div 400 = (if y mod 400 = 0 then 1 else 0)" by (rule div_step, simp)+
  have "year_days y - year_days (y - 1) = 365 + (if leap_year y then 1 else 0)"
    unfolding year_days_def year_terms s leap_terms [OF i] leap_year_def ..
  then show ?thesis by (simp only: diff_eq_eq ac_simps)
qed

lemma civil_days_alt:
  "civil_days y m d = year_days (y - (if m \<le> 2 then 1 else 0)) + day_of_year m 1 + int d - 719469"
  by (simp add: civil_days_def year_days_def Let_def day_of_year_def)

lemma civil_next:
  assumes "valid_date y m d"
  shows "(case next_date y m d of (y', m', d') \<Rightarrow> civil_days y' m' d') = civil_days y m d + 1"
proof (cases "d < month_days y m")
  case True
  then show ?thesis by (simp add: next_date_def civil_days_alt)
next
  case False
  then have d: "d = month_days y m" using assms by (simp add: valid_date_def)
  have m: "1 \<le> m" "m \<le> 12" using assms by (simp_all add: valid_date_def)
  have nd: "next_date y m d = (if m < 12 then (y, m + 1, 1) else (y + 1, 1, 1))" using False by (simp add: next_date_def)
  show ?thesis
    using small_months [OF m] unfolding nd unfolding civil_days_alt d
    by (elim disjE) (simp_all add: month_days_def month_start [simplified] year_step [of y] numeral_2_eq_2 [symmetric])
qed

section \<open>What the parser reads\<close>

definition digits_n :: "nat \<Rightarrow> string \<Rightarrow> bool" where
  "digits_n n s \<longleftrightarrow> length s = n \<and> all_digits s"

lemma digit_run_iff:
  "digit_run n s v = Some (x, r) \<longleftrightarrow>
     (\<exists>ds. s = ds @ r \<and> digits_n n ds \<and> x = v * 10 ^ n + of_nat (digits_value ds))"
proof (induction n s v rule: digit_run.induct)
  case (1 n v)
  then show ?case by (auto simp: digits_n_def)
next
  case (2 n c s v)
  show ?case
  proof (cases n)
    case 0
    then show ?thesis by (auto simp: digits_n_def)
  next
    case (Suc k)
    show ?thesis
    proof (cases "is_digit c")
      case True
      have "(\<exists>ds. c # s = ds @ r \<and> digits_n n ds \<and> x = v * 10 ^ n + of_nat (digits_value ds)) \<longleftrightarrow>
          (\<exists>ds. s = ds @ r \<and> digits_n k ds \<and> x = (v * 10 + of_nat (digit_value c)) * 10 ^ k + of_nat (digits_value ds))"
        (is "?l \<longleftrightarrow> ?r")
      proof
        assume ?l
        then obtain ds where ds: "c # s = ds @ r" "digits_n n ds" "x = v * 10 ^ n + of_nat (digits_value ds)" by blast
        then obtain es where es: "ds = c # es" using Suc by (cases ds) (auto simp: digits_n_def)
        show ?r using ds Suc by (intro exI [of _ es]) (auto simp: es digits_n_def all_digits_def digits_value_Cons algebra_simps)
      next
        assume ?r
        then obtain ds where "s = ds @ r" "digits_n k ds"
            "x = (v * 10 + of_nat (digit_value c)) * 10 ^ k + of_nat (digits_value ds)" by blast
        then show ?l
          using True Suc by (intro exI [of _ "c # ds"]) (auto simp: digits_n_def all_digits_def digits_value_Cons algebra_simps)
      qed
      then show ?thesis using 2 True Suc by simp
    next
      case False
      then show ?thesis using Suc by (auto simp: digits_n_def all_digits_def Cons_eq_append_conv)
    qed
  qed
qed

lemma take_digits_iff:
  "take_digits n s = Some (x, r) \<longleftrightarrow> (\<exists>ds. s = ds @ r \<and> digits_n n ds \<and> x = of_nat (digits_value ds))"
  using digit_run_iff [of n s 0 x r] by (auto simp: take_digits_def digits_n_def)

lemma take_char_iff: "take_char C s = Some r \<longleftrightarrow> (\<exists>c \<in> C. s = c # r)"
  by (cases s) (auto simp: take_char_def)

lemma digits_value_less: "all_digits ds \<Longrightarrow> digits_value ds < 10 ^ length ds"
proof (induction ds)
  case (Cons c ds)
  then have b: "digit_value c * 10 ^ length ds \<le> 9 * 10 ^ length ds" "digits_value ds < 10 ^ length ds"
    using digit_value_le [of c] by (auto simp: all_digits_def)
  show ?case unfolding digits_value_Cons list.size(4) add_Suc_right add_0_right power_Suc using b by linarith
qed simp

text \<open>The nanoseconds of a fraction: its first nine digits, padded with zeros.\<close>

definition fraction_nanos :: "string \<Rightarrow> int" where
  "fraction_nanos ds = int (digits_value (take 9 ds)) * 10 ^ (9 - length ds)"

definition fraction_text :: "string \<Rightarrow> int \<Rightarrow> bool" where
  "fraction_text f n \<longleftrightarrow>
     f = [] \<and> n = 0 \<or> (\<exists>ds. f = CHR ''.'' # ds \<and> ds \<noteq> [] \<and> all_digits ds \<and> n = fraction_nanos ds)"

lemma fraction_loop_spec:
  assumes "k \<le> 9" "all_digits ds" "no_digit_first r"
  shows "fraction_loop (ds @ r) k x =
     (min 9 (k + length ds), x * 10 ^ min (9 - k) (length ds) + int (digits_value (take (9 - k) ds)), r)"
  using assms(1,2)
proof (induction ds arbitrary: k x)
  case Nil
  then show ?case using assms(3) by (cases r) (auto simp: no_digit_first_def)
next
  case (Cons c ds)
  then have d: "is_digit c" "all_digits ds" by (auto simp: all_digits_def)
  show ?case
  proof (cases "k < 9")
    case True
    then have t: "9 - k = Suc (8 - k)" by simp
    have "fraction_loop ((c # ds) @ r) k x = fraction_loop (ds @ r) (k + 1) (x * 10 + int (digit_value c))"
      using d True by simp
    also have "\<dots> = (min 9 (k + 1 + length ds), (x * 10 + int (digit_value c)) * 10 ^ min (8 - k) (length ds) +
        int (digits_value (take (8 - k) ds)), r)"
      using Cons.IH [of "k + 1" "x * 10 + int (digit_value c)"] d(2) True by simp
    also have "\<dots> = (min 9 (k + length (c # ds)), x * 10 ^ min (9 - k) (length (c # ds)) +
        int (digits_value (take (9 - k) (c # ds))), r)"
      unfolding t by (simp add: digits_value_Cons algebra_simps min.commute)
    finally show ?thesis .
  next
    case False
    then have k: "k = 9" using Cons.prems by simp
    then show ?thesis using Cons.IH [of k x] d by simp
  qed
qed

lemma times_ten: "((\<lambda>x. x * 10) ^^ n) (x :: int) = x * 10 ^ n"
  by (induction n) (simp_all add: algebra_simps)

lemma parse_fraction_complete:
  assumes "fraction_text f n" "no_digit_first r" "\<not> starts_char CHR ''.'' r"
  shows "parse_fraction (f @ r) = Some (n, r)"
proof (cases "f = []")
  case True
  then show ?thesis using assms by (auto simp: parse_fraction_def fraction_text_def)
next
  case False
  then obtain ds where ds: "f = CHR ''.'' # ds" "ds \<noteq> []" "all_digits ds" "n = fraction_nanos ds"
    using assms(1) by (auto simp: fraction_text_def)
  have e: "9 - min 9 (length ds) = 9 - length ds" by simp
  show ?thesis
    using ds fraction_loop_spec [OF _ ds(3) assms(2), of 0 0] e
    by (simp add: parse_fraction_def times_ten fraction_nanos_def)
qed

lemma parse_fraction_sound:
  assumes "parse_fraction s = Some (n, r)"
  shows "\<exists>f. s = f @ r \<and> fraction_text f n"
proof (cases "starts_char CHR ''.'' s")
  case True
  then obtain u where u: "s = CHR ''.'' # u" by (auto simp: starts_char_Cons)
  let ?ds = "takeWhile is_digit u" and ?r = "dropWhile is_digit u"
  have nd: "no_digit_first ?r" by (metis hd_dropWhile list.case_eq_if no_digit_first_def)
  have l: "fraction_loop u 0 0 = (min 9 (length ?ds), int (digits_value (take 9 ?ds)), ?r)"
    using fraction_loop_spec [of 0 ?ds ?r 0] nd by simp
  have ne: "?ds \<noteq> []" and r: "r = ?r" and n: "n = fraction_nanos ?ds"
    using assms u l by (auto simp: parse_fraction_def times_ten fraction_nanos_def split: if_splits)
  show ?thesis
    using u r n ne by (intro exI [of _ "CHR ''.'' # ?ds"]) (auto simp: fraction_text_def)
next
  case False
  then show ?thesis using assms by (intro exI [of _ "[]"]) (auto simp: parse_fraction_def fraction_text_def)
qed

text \<open>The texts read as instants, with their fields.\<close>

definition rfc3339 :: "string \<Rightarrow> nat \<Rightarrow> nat \<Rightarrow> nat \<Rightarrow> nat \<Rightarrow> nat \<Rightarrow> nat \<Rightarrow> int \<Rightarrow> bool" where
  "rfc3339 x y mo d h mi s n \<longleftrightarrow>
     (\<exists>Y M D H I S f t z.
        x = Y @ CHR ''-'' # M @ CHR ''-'' # D @ t # H @ CHR '':'' # I @ CHR '':'' # S @ f @ [z] \<and>
        digits_n 4 Y \<and> digits_n 2 M \<and> digits_n 2 D \<and> digits_n 2 H \<and> digits_n 2 I \<and> digits_n 2 S \<and>
        y = digits_value Y \<and> mo = digits_value M \<and> d = digits_value D \<and> h = digits_value H \<and>
        mi = digits_value I \<and> s = digits_value S \<and>
        t \<in> {CHR ''T'', CHR ''t''} \<and> z \<in> {CHR ''Z'', CHR ''z''} \<and> fraction_text f n)"

lemma take_digits_append: "digits_n n ds \<Longrightarrow> take_digits n (ds @ r) = Some (of_nat (digits_value ds), r)"
  using take_digits_iff [of n "ds @ r" "of_nat (digits_value ds)" r] by blast

lemma take_char_Cons: "c \<in> C \<Longrightarrow> take_char C (c # r) = Some r"
  by (simp add: take_char_def)

lemma parse_date_time_complete:
  assumes "digits_n 4 Y" "digits_n 2 M" "digits_n 2 D" "digits_n 2 H" "digits_n 2 I" "digits_n 2 S"
    "t \<in> {CHR ''T'', CHR ''t''}"
  shows "parse_date_time (Y @ CHR ''-'' # M @ CHR ''-'' # D @ t # H @ CHR '':'' # I @ CHR '':'' # S @ r) =
     Some (of_nat (digits_value Y), of_nat (digits_value M), of_nat (digits_value D), of_nat (digits_value H),
       of_nat (digits_value I), of_nat (digits_value S), r)"
  unfolding parse_date_time_def
  by (simp add: take_digits_append [OF assms(1)] take_digits_append [OF assms(2)] take_digits_append [OF assms(3)]
      take_digits_append [OF assms(4)] take_digits_append [OF assms(5)] take_digits_append [OF assms(6)]
      take_char_Cons assms(7) [simplified])

lemma parse_date_time_sound:
  assumes "parse_date_time x = Some (y, mo, d, h, mi, s, r)"
  shows "\<exists>Y M D H I S t.
        x = Y @ CHR ''-'' # M @ CHR ''-'' # D @ t # H @ CHR '':'' # I @ CHR '':'' # S @ r \<and>
        digits_n 4 Y \<and> digits_n 2 M \<and> digits_n 2 D \<and> digits_n 2 H \<and> digits_n 2 I \<and> digits_n 2 S \<and>
        y = of_nat (digits_value Y) \<and> mo = of_nat (digits_value M) \<and> d = of_nat (digits_value D) \<and>
        h = of_nat (digits_value H) \<and> mi = of_nat (digits_value I) \<and> s = of_nat (digits_value S) \<and>
        t \<in> {CHR ''T'', CHR ''t''}"
proof -
  obtain s1 s2 s3 s4 s5 s6 s7 s8 s9 s10 where p:
      "take_digits 4 x = Some (y, s1)" "take_char {CHR ''-''} s1 = Some s2"
      "take_digits 2 s2 = Some (mo, s3)" "take_char {CHR ''-''} s3 = Some s4"
      "take_digits 2 s4 = Some (d, s5)" "take_char {CHR ''T'', CHR ''t''} s5 = Some s6"
      "take_digits 2 s6 = Some (h, s7)" "take_char {CHR '':''} s7 = Some s8"
      "take_digits 2 s8 = Some (mi, s9)" "take_char {CHR '':''} s9 = Some s10"
      "take_digits 2 s10 = Some (s, r)"
    using assms by (auto simp: parse_date_time_def bind_eq_Some_conv)
  obtain Y where Y: "x = Y @ s1" "digits_n 4 Y" "y = of_nat (digits_value Y)" using p(1) by (auto simp: take_digits_iff)
  obtain M where M: "s2 = M @ s3" "digits_n 2 M" "mo = of_nat (digits_value M)" using p(3) by (auto simp: take_digits_iff)
  obtain D where D: "s4 = D @ s5" "digits_n 2 D" "d = of_nat (digits_value D)" using p(5) by (auto simp: take_digits_iff)
  obtain H where H: "s6 = H @ s7" "digits_n 2 H" "h = of_nat (digits_value H)" using p(7) by (auto simp: take_digits_iff)
  obtain I where I: "s8 = I @ s9" "digits_n 2 I" "mi = of_nat (digits_value I)" using p(9) by (auto simp: take_digits_iff)
  obtain S where S: "s10 = S @ r" "digits_n 2 S" "s = of_nat (digits_value S)" using p(11) by (auto simp: take_digits_iff)
  obtain t where t: "s5 = t # s6" "t \<in> {CHR ''T'', CHR ''t''}" using p(6) by (auto simp: take_char_iff)
  have c: "s1 = CHR ''-'' # s2" "s3 = CHR ''-'' # s4" "s7 = CHR '':'' # s8" "s9 = CHR '':'' # s10"
    using p(2,4,8,10) by (auto simp: take_char_iff)
  have "x = Y @ CHR ''-'' # M @ CHR ''-'' # D @ t # H @ CHR '':'' # I @ CHR '':'' # S @ r"
    by (simp only: Y(1) M(1) D(1) H(1) I(1) S(1) t(1) c)
  then show ?thesis using Y(2,3) M(2,3) D(2,3) H(2,3) I(2,3) S(2,3) t(2) by blast
qed

lemma field_bound: "digits_n n ds \<Longrightarrow> n \<le> 4 \<Longrightarrow> digits_value ds < 10000"
proof -
  assume a: "digits_n n ds" "n \<le> 4"
  have "digits_value ds < 10 ^ length ds" using a(1) by (intro digits_value_less) (simp add: digits_n_def)
  also have "\<dots> \<le> 10 ^ 4" using a by (intro power_increasing) (auto simp: digits_n_def)
  finally show ?thesis by simp
qed

lemma field_word:
  assumes "k < 10000"
  shows "uint (of_nat k :: u32) = int k"
    "(of_nat k :: u32) < 1 \<longleftrightarrow> k < 1" "(of_nat k :: u32) > 12 \<longleftrightarrow> k > 12" "(of_nat k :: u32) > 31 \<longleftrightarrow> k > 31"
    "(of_nat k :: u32) > 23 \<longleftrightarrow> k > 23" "(of_nat k :: u32) > 59 \<longleftrightarrow> k > 59" "(of_nat k :: u32) > 60 \<longleftrightarrow> k > 60"
proof -
  show u: "uint (of_nat k :: u32) = int k" using assms by (intro uint_small) simp
  show "(of_nat k :: u32) < 1 \<longleftrightarrow> k < 1" "(of_nat k :: u32) > 12 \<longleftrightarrow> k > 12" "(of_nat k :: u32) > 31 \<longleftrightarrow> k > 31"
    "(of_nat k :: u32) > 23 \<longleftrightarrow> k > 23" "(of_nat k :: u32) > 59 \<longleftrightarrow> k > 59" "(of_nat k :: u32) > 60 \<longleftrightarrow> k > 60"
    using u by (simp_all add: word_less_def del: word_less_1)
qed

text \<open>The instant of the fields, in seconds.\<close>

definition instant_seconds :: "int \<Rightarrow> nat \<Rightarrow> nat \<Rightarrow> nat \<Rightarrow> nat \<Rightarrow> nat \<Rightarrow> int" where
  "instant_seconds y mo d h mi s = civil_days y mo d * 86400 + int h * 3600 + int mi * 60 + int s"

definition fields_ok :: "nat \<Rightarrow> nat \<Rightarrow> nat \<Rightarrow> nat \<Rightarrow> nat \<Rightarrow> bool" where
  "fields_ok mo d h mi s \<longleftrightarrow> 1 \<le> mo \<and> mo \<le> 12 \<and> 1 \<le> d \<and> d \<le> 31 \<and> h \<le> 23 \<and> mi \<le> 59 \<and> s \<le> 60"

lemma parse_rfc3339_of_fields:
  assumes "parse_date_time x = Some (of_nat y, of_nat mo, of_nat d, of_nat h, of_nat mi, of_nat s, r)"
    "y < 10000" "mo < 10000" "d < 10000" "h < 10000" "mi < 10000" "s < 10000"
  shows "parse_rfc3339_nanos x =
     (if fields_ok mo d h mi s then
        (case parse_fraction r of
           None \<Rightarrow> None
         | Some (n, z) \<Rightarrow>
             if length z \<noteq> 1 \<or> hd z \<notin> {CHR ''Z'', CHR ''z''} then None
             else if instant_seconds (int y) mo d h mi s < 0 \<or> instant_seconds (int y) mo d h mi s > kMaxSeconds then None
             else Some (instant_seconds (int y) mo d h mi s * 1000000000 + n))
      else None)"
proof -
  have c: "((of_nat mo :: u32) < 1 \<or> (of_nat mo :: u32) > 12 \<or> (of_nat d :: u32) < 1 \<or> (of_nat d :: u32) > 31 \<or>
      (of_nat h :: u32) > 23 \<or> (of_nat mi :: u32) > 59 \<or> (of_nat s :: u32) > 60) \<longleftrightarrow> \<not> fields_ok mo d h mi s"
    by (simp only: field_word assms(2-7)) (auto simp: fields_ok_def)
  have u: "uint (of_nat y :: u32) = int y" "uint (of_nat h :: u32) = int h" "uint (of_nat mi :: u32) = int mi"
      "uint (of_nat s :: u32) = int s"
    using assms by (simp_all only: field_word)
  have dc: "days_from_civil (int y) (of_nat mo) (of_nat d) = civil_days (int y) mo d" if "fields_ok mo d h mi s"
    using that by (intro days_from_civil_exact) (auto simp: fields_ok_def)
  show ?thesis
    unfolding parse_rfc3339_nanos_def assms(1) Option.bind.bind_lunit prod.case c u
    by (cases "fields_ok mo d h mi s") (simp_all add: dc instant_seconds_def Let_def split: option.split)
qed

text \<open>
  C13: the calendar is exact.  The day numbers of \<open>days_from_civil\<close> count days of the proleptic Gregorian calendar:
  the epoch 1970-01-01 is day 0, and the date after any valid date, over month ends, leap years and centuries, in
  any year, has the next number.
\<close>

theorem calendar_counts_days:
  "days_from_civil 1970 1 1 = 0 \<and>
   (\<forall>y m d. valid_date y m d \<longrightarrow>
      (case next_date y m d of (y', m', d') \<Rightarrow>
         days_from_civil y' (of_nat m') (of_nat d') = days_from_civil y (of_nat m) (of_nat d) + 1))"
proof (intro conjI allI impI)
  show "days_from_civil 1970 1 1 = 0" by code_simp
next
  fix y m d
  assume v: "valid_date y m d"
  have range: "1 \<le> m' \<and> m' \<le> 12 \<and> 1 \<le> d' \<and> d' \<le> 31" if "valid_date y' m' d'" for y' m' d'
    using that by (auto simp: valid_date_def month_days_def split: if_splits)
  obtain y' m' d' where n: "next_date y m d = (y', m', d')" by (cases "next_date y m d")
  have "valid_date y' m' d'" using v n by (auto simp: valid_date_def next_date_def month_days_def split: if_splits)
  then show "case next_date y m d of (y', m', d') \<Rightarrow>
      days_from_civil y' (of_nat m') (of_nat d') = days_from_civil y (of_nat m) (of_nat d) + 1"
    using n range [OF v] range [of y' m' d'] civil_next [OF v] by (simp add: days_from_civil_exact)
qed

theorem calendar_counts_days_witness:
  "valid_date 2000 2 29 \<and> days_from_civil 2000 3 1 = days_from_civil 2000 2 29 + 1"
proof -
  have "valid_date 2000 2 29" by (simp add: valid_date_def month_days_def leap_year_def)
  moreover have "next_date 2000 2 29 = (2000, 3, 1)" by (simp add: next_date_def month_days_def leap_year_def)
  ultimately show ?thesis using calendar_counts_days by (metis (mono_tags) case_prod_conv of_nat_1 of_nat_numeral)
qed

lemma timestamp_exact_facts:
  "parse_rfc3339_nanos x = Some ns \<longleftrightarrow>
     (\<exists>y mo d h mi s n. rfc3339 x y mo d h mi s n \<and> fields_ok mo d h mi s \<and>
        0 \<le> instant_seconds (int y) mo d h mi s \<and> instant_seconds (int y) mo d h mi s \<le> kMaxSeconds \<and>
        ns = instant_seconds (int y) mo d h mi s * 1000000000 + n)" (is "?l \<longleftrightarrow> ?r")
proof
  assume l: ?l
  then obtain wy wmo wd wh wmi ws r where dt: "parse_date_time x = Some (wy, wmo, wd, wh, wmi, ws, r)"
    unfolding parse_rfc3339_nanos_def by (cases "parse_date_time x") auto
  obtain Y M D H I S t where f:
      "x = Y @ CHR ''-'' # M @ CHR ''-'' # D @ t # H @ CHR '':'' # I @ CHR '':'' # S @ r"
      "digits_n 4 Y" "digits_n 2 M" "digits_n 2 D" "digits_n 2 H" "digits_n 2 I" "digits_n 2 S"
      "wy = of_nat (digits_value Y)" "wmo = of_nat (digits_value M)" "wd = of_nat (digits_value D)"
      "wh = of_nat (digits_value H)" "wmi = of_nat (digits_value I)" "ws = of_nat (digits_value S)"
      "t \<in> {CHR ''T'', CHR ''t''}"
    using parse_date_time_sound [OF dt] by blast
  note b = field_bound [OF f(2)] field_bound [OF f(3)] field_bound [OF f(4)] field_bound [OF f(5)]
    field_bound [OF f(6)] field_bound [OF f(7)]
  note p = parse_rfc3339_of_fields [OF dt [unfolded f(8-13)] b(1) b(2) b(3) b(4) b(5) b(6), simplified]
  obtain n z where z: "fields_ok (digits_value M) (digits_value D) (digits_value H) (digits_value I) (digits_value S)"
      "parse_fraction r = Some (n, [z])" "z \<in> {CHR ''Z'', CHR ''z''}"
      "0 \<le> instant_seconds (int (digits_value Y)) (digits_value M) (digits_value D) (digits_value H) (digits_value I) (digits_value S)"
      "instant_seconds (int (digits_value Y)) (digits_value M) (digits_value D) (digits_value H) (digits_value I) (digits_value S) \<le> kMaxSeconds"
      "ns = instant_seconds (int (digits_value Y)) (digits_value M) (digits_value D) (digits_value H) (digits_value I) (digits_value S) * 1000000000 + n"
    using l p by (auto split: if_splits option.splits simp: length_Suc_conv not_less)
  obtain g where g: "r = g @ [z]" "fraction_text g n" using parse_fraction_sound [OF z(2)] by blast
  have "rfc3339 x (digits_value Y) (digits_value M) (digits_value D) (digits_value H) (digits_value I) (digits_value S) n"
    unfolding rfc3339_def using f(1-7,14) g z(3) by blast
  then show ?r using z by blast
next
  assume ?r
  then obtain y mo d h mi s n where r: "rfc3339 x y mo d h mi s n" "fields_ok mo d h mi s"
      "0 \<le> instant_seconds (int y) mo d h mi s" "instant_seconds (int y) mo d h mi s \<le> kMaxSeconds"
      "ns = instant_seconds (int y) mo d h mi s * 1000000000 + n" by blast
  obtain Y M D H I S f t z where f:
      "x = Y @ CHR ''-'' # M @ CHR ''-'' # D @ t # H @ CHR '':'' # I @ CHR '':'' # S @ f @ [z]"
      "digits_n 4 Y" "digits_n 2 M" "digits_n 2 D" "digits_n 2 H" "digits_n 2 I" "digits_n 2 S"
      "y = digits_value Y" "mo = digits_value M" "d = digits_value D" "h = digits_value H"
      "mi = digits_value I" "s = digits_value S"
      "t \<in> {CHR ''T'', CHR ''t''}" "z \<in> {CHR ''Z'', CHR ''z''}" "fraction_text f n"
    using r(1) unfolding rfc3339_def by blast
  have dt: "parse_date_time x = Some (of_nat y, of_nat mo, of_nat d, of_nat h, of_nat mi, of_nat s, f @ [z])"
    unfolding f(1,8-13) by (rule parse_date_time_complete) (use f in simp_all)
  have b: "y < 10000" "mo < 10000" "d < 10000" "h < 10000" "mi < 10000" "s < 10000"
    using field_bound [OF f(2)] field_bound [OF f(3)] field_bound [OF f(4)] field_bound [OF f(5)]
      field_bound [OF f(6)] field_bound [OF f(7)] unfolding f(8-13) by simp_all
  have "parse_fraction (f @ [z]) = Some (n, [z])"
    by (rule parse_fraction_complete [OF f(16)]) (use f(15) in \<open>auto simp: no_digit_first_def is_digit_def\<close>)
  then show ?l using parse_rfc3339_of_fields [OF dt b] r f(15) by simp
qed

lemma fraction_nanos_bound: "fraction_text f n \<Longrightarrow> 0 \<le> n \<and> n < 1000000000"
proof -
  assume "fraction_text f n"
  then consider "n = 0" | ds where "all_digits ds" "n = fraction_nanos ds" by (auto simp: fraction_text_def)
  then show ?thesis
  proof cases
    case 2
    have "all_digits (take 9 ds)" using 2(1) by (auto simp: all_digits_def dest: in_set_takeD)
    then have "digits_value (take 9 ds) < 10 ^ min (length ds) 9" using digits_value_less by fastforce
    then have "int (digits_value (take 9 ds)) < int (10 ^ min (length ds) 9)" by (rule of_nat_less_iff [THEN iffD2])
    then have "int (digits_value (take 9 ds)) < 10 ^ min (length ds) 9" unfolding of_nat_power of_nat_numeral .
    then have "fraction_nanos ds < 10 ^ min (length ds) 9 * 10 ^ (9 - length ds)"
      unfolding fraction_nanos_def by (intro mult_strict_right_mono) auto
    also have "\<dots> = 10 ^ 9" unfolding power_add [symmetric] by (rule arg_cong) simp
    finally show ?thesis using 2 by (simp add: fraction_nanos_def)
  qed simp
qed

lemma timestamp_range: "parse_rfc3339_nanos x = Some n \<Longrightarrow> 0 \<le> n \<and> i64 n"
proof -
  assume "parse_rfc3339_nanos x = Some n"
  then obtain t f k where "0 \<le> t" "t \<le> kMaxSeconds" "n = t * 1000000000 + k" "fraction_text f k"
    unfolding timestamp_exact_facts rfc3339_def by blast
  moreover have "kMaxSeconds = 9223372035" by (simp add: kMaxSeconds_def i64_max_def signed_divide_int_def)
  ultimately show ?thesis using fraction_nanos_bound [of f k] by (simp add: int_limits)
qed


text \<open>
  The range check on the day does not know the month: a day that its month does not have is read as the day that
  many days after the end of the month before.
\<close>

theorem missing_day_accepted:
  "\<not> valid_date 2026 2 30 \<and>
   parse_rfc3339_nanos ''2026-02-30T12:00:00Z'' = parse_rfc3339_nanos ''2026-03-02T12:00:00Z'' \<and>
   parse_rfc3339_nanos ''2026-02-30T12:00:00Z'' \<noteq> None"
  by code_simp

end
