(* ===== verification/Decode_Common.thy ===== *)
theory Decode_Common
  imports Json_Grammar Feed
begin

text \<open>
  What the two venue decoders share: finishing a message with an error, capturing the first occurrence of a key,
  and turning the two tokens of a level into fixed-point numbers.  Both decoders spell these steps out
  (\<open>include/crossbook/venues/kraken.hpp\<close> and \<open>binance.hpp\<close>).  The second half relates the walks to the members
  of the text.
\<close>

section \<open>The steps\<close>

definition fail :: "decode_error \<Rightarrow> decoded_message \<Rightarrow> decoded_message" where
  "fail e m = m\<lparr>dm_error := e, dm_levels := []\<rparr>"

definition fail_decoded :: "decoded_message \<Rightarrow> decoded_message" where
  "fail_decoded m = fail (if dm_ok m then DecodeMalformed else dm_error m) m"

definition capture :: "json_value \<Rightarrow> json_value \<Rightarrow> json_value" where
  "capture slot v = (if \<not> jv_ok slot then v else slot)"

definition token_error :: "parse_result \<Rightarrow> string \<Rightarrow> decoded_message \<Rightarrow> decoded_message" where
  "token_error r token m =
     m\<lparr>dm_error := (if pr_error r = ParsePrecisionLoss then DecodePrecisionLoss else DecodeMalformed),
       dm_bad_token := token\<rparr>"

text \<open>The level's two tokens, parsed and checked; the flag is \<open>failed\<close>.\<close>

definition decode_tokens ::
    "instrument_spec \<Rightarrow> side \<Rightarrow> string \<Rightarrow> string \<Rightarrow> decoded_message \<Rightarrow> bool \<times> decoded_message" where
  "decode_tokens spec side price_token qty_token m =
     (if price_token = [] \<or> qty_token = [] then (True, m)
      else
        (let price = parse_fixed price_token (is_price_scale spec) in
         if \<not> pr_ok price then (True, token_error price price_token m)
         else
           (let qty = parse_fixed qty_token (is_qty_scale spec) in
            if \<not> pr_ok qty then (True, token_error qty qty_token m)
            else if \<not> is_canonical_parsed price_token (is_price_scale spec) (pr_mantissa price) then
              (True, m\<lparr>dm_error := DecodeNonCanonical, dm_bad_token := price_token\<rparr>)
            else if \<not> is_canonical_parsed qty_token (is_qty_scale spec) (pr_mantissa qty) then
              (True, m\<lparr>dm_error := DecodeNonCanonical, dm_bad_token := qty_token\<rparr>)
            else
              (False, m\<lparr>dm_levels := dm_levels m @
                 [level_update side (Price (pr_mantissa price)) (Qty (pr_mantissa qty))]\<rparr>))))"

section \<open>Walks and members\<close>

lemma classify_scalar: "is_json_scalar t \<Longrightarrow> classify t \<noteq> JsonInvalid"
proof -
  assume s: "is_json_scalar t"
  obtain c u where t: "t = c # u" using scalar_plain(1) [OF s] by (cases t) auto
  have c: "\<not> json_space c" using scalar_plain(2) [OF s, of c] t by (auto simp: plain_char_def json_stop_def)
  have "c = CHR ''t'' \<or> c = CHR ''f'' \<or> c = CHR ''n'' \<or> c = CHR ''-'' \<or> is_digit c"
  proof (cases "is_json_number t")
    case True
    then obtain sg i f e where p: "t = sg @ i @ f @ e" "sg = [] \<or> sg = ''-''" "rfc_int i"
      unfolding is_json_number_rfc rfc_number_def by blast
    have "i \<noteq> [] \<and> is_digit (hd i)" using p(3) by (auto simp: rfc_int_def is_digit_def dest!: hd_digits)
    then show ?thesis using p(1,2) t by (cases i) auto
  next
    case False
    then show ?thesis using s t by (auto simp: is_json_scalar_def)
  qed
  then show ?thesis using t c by (auto simp: classify_def skip_space_Cons Let_def)
qed

lemma text_ok:
  assumes "json_text n t"
  shows "jv_ok (value_text t)"
  using assms
proof (cases rule: json_text.cases)
  case (text_string k n)
  then show ?thesis using value_text_string [of k t] by (simp add: jv_ok_def)
next
  case (text_scalar n)
  then show ?thesis by (simp add: jv_ok_def value_text_def classify_scalar)
qed (auto simp: jv_ok_def value_text_def classify_def skip_space_Cons not_space)

definition members_ok :: "(string \<times> string) list \<Rightarrow> bool" where
  "members_ok ms \<longleftrightarrow> (\<forall>(k, t) \<in> set ms. jv_ok (value_text t))"

lemma json_list_ok: "json_list n c u ms \<Longrightarrow> members_ok ms"
  by (induction rule: json_list_induct) (auto simp: members_ok_def text_ok)

lemma json_object_ok: "json_object s ms \<Longrightarrow> members_ok ms"
  by (auto simp: json_object_def members_ok_def dest: json_list_ok [unfolded members_ok_def])

text \<open>The value of a key: that of its first occurrence, or the invalid value.\<close>

definition lookup :: "(string \<times> string) list \<Rightarrow> string \<Rightarrow> json_value" where
  "lookup ms key = (case map_of ms key of None \<Rightarrow> json_value0 | Some t \<Rightarrow> value_text t)"

lemma lookup_simps:
  "lookup [] key = json_value0"
  "lookup ((k, t) # ms) key = (if k = key then value_text t else lookup ms key)"
  by (simp_all add: lookup_def)

lemma jv_ok_value0 [simp]: "\<not> jv_ok json_value0"
  by (simp add: jv_ok_def json_value0_def)

lemma capture_simps [simp]:
  "capture json_value0 v = v" "jv_ok v \<Longrightarrow> capture v w = v" "jv_ok v \<Longrightarrow> capture (capture a v) w = capture a v"
  by (auto simp: capture_def)

text \<open>What a slot holds after a walk.\<close>

definition capture_in :: "json_value \<Rightarrow> (string \<times> string) list \<Rightarrow> string \<Rightarrow> json_value" where
  "capture_in slot ms key = (case map_of ms key of None \<Rightarrow> slot | Some t \<Rightarrow> capture slot (value_text t))"

lemma capture_in_simps:
  "capture_in slot [] key = slot"
  "jv_ok (value_text t) \<Longrightarrow>
     capture_in slot ((k, t) # ms) key = capture_in (if k = key then capture slot (value_text t) else slot) ms key"
  "capture_in json_value0 ms key = lookup ms key"
  by (auto simp: capture_in_def lookup_def split: option.split)

lemma members_ok_Cons [simp]: "members_ok ((k, t) # ms) \<longleftrightarrow> jv_ok (value_text t) \<and> members_ok ms"
  by (auto simp: members_ok_def)

lemma walk_on:
  "fst (f k (value_text t) a) \<Longrightarrow> walk_members f ((k, t) # ms) a = walk_members f ms (snd (f k (value_text t) a))"
  by (simp add: case_prod_unfold)

lemma walked_object:
  assumes "for_each_member f s a = (True, b)" "keeps_going f"
  obtains ms where "json_object s ms" "members_ok ms" "b = snd (walk_members f ms a)"
  using for_each_member_sound [of f s a] for_each_member_object json_object_ok assms
  by (metis fst_conv snd_conv)

lemma reset_fields [simp]:
  "dm_ok decoded_message_reset" "dm_levels decoded_message_reset = []" "\<not> dm_has_checksum decoded_message_reset"
  "dm_kind decoded_message_reset = KindIgnored" "\<not> dm_has_ids decoded_message_reset"
  by (simp_all add: decoded_message_reset_def dm_ok_def)

lemma fail_fields [simp]:
  "dm_levels (fail e m) = []" "dm_kind (fail e m) = dm_kind m" "dm_ok (fail e m) \<longleftrightarrow> e = DecodeOk"
  "dm_levels (fail_decoded m) = []" "\<not> dm_ok (fail_decoded m)"
  by (auto simp: fail_def fail_decoded_def dm_ok_def)

text \<open>A walk over an array that is not stopped has seen the whole array.\<close>

lemma element_loop_sound:
  "element_loop f s a = (True, b) \<Longrightarrow>
     (\<exists>u r es. s = u @ CHR '']'' # r \<and> json_list 33 CHR ''['' u (map (Pair []) es)) \<or> (\<exists>v a1. f v a1 = (False, b))"
proof (induction f s a rule: element_loop.induct)
  case (1 f s a)
  obtain r where m: "skip_value 0 (skip_space s) = Some r"
    using 1(2) by (cases "skip_value 0 (skip_space s)") (auto simp: element_loop.simps [of f s] Let_def)
  obtain go a1 where f: "f (value_of (skip_space s) r) a = (go, a1)" by fastforce
  show ?case
  proof (cases go)
    case False
    then have "a1 = b" using 1(2) element_loop_step [OF m, of f a] f by simp
    then have "f (value_of (skip_space s) r) a = (False, b)" using f False by simp
    then show ?thesis by blast
  next
    case True
    obtain w where w: "s = w @ skip_space s" "blank w" using skip_space_split by blast
    obtain w' t where t: "skip_space s = w' @ t @ r" "blank w'" "json_text 33 t" using skip_sound(1) [OF m] by auto
    have s: "s = (w @ w') @ t @ r" using w(1) unfolding t(1) by simp
    have l: "json_label CHR ''['' [] (w @ w')" using w(2) t(2) by (simp add: json_label_def)
    obtain w2 where w2: "r = w2 @ skip_space r" "blank w2" using skip_space_split by blast
    have e: "(if starts_char CHR '']'' (skip_space r) then (True, a1)
        else if starts_char CHR '','' (skip_space r) then element_loop f (tl (skip_space r)) a1 else (False, a1)) = (True, b)"
      using 1(2) element_loop_step [OF m, of f a] f True by simp
    show ?thesis
    proof (cases "starts_char CHR '']'' (skip_space r)")
      case True
      then obtain x where x: "skip_space r = CHR '']'' # x" by (auto simp: starts_char_Cons)
      have "r = w2 @ CHR '']'' # x" using w2(1) unfolding x .
      then have "s = ((w @ w') @ t @ w2) @ CHR '']'' # x" using s by simp
      moreover have "json_list 33 CHR ''['' ((w @ w') @ t @ w2) (map (Pair []) [t])"
        using list_one [OF l t(3) w2(2)] by simp
      ultimately show ?thesis by blast
    next
      case False
      then obtain x where x: "skip_space r = CHR '','' # x" "element_loop f x a1 = (True, b)"
        using e by (auto simp: starts_char_Cons split: if_splits)
      have ih: "(\<exists>u y es. tl (skip_space r) = u @ CHR '']'' # y \<and> json_list 33 CHR ''['' u (map (Pair []) es)) \<or>
          (\<exists>v a1. f v a1 = (False, b))"
        by (rule 1(1) [OF refl m f [symmetric] _ refl False]) (use x True in simp_all)
      then show ?thesis
      proof (elim disjE exE conjE)
        fix u y es
        assume u: "tl (skip_space r) = u @ CHR '']'' # y" "json_list 33 CHR ''['' u (map (Pair []) es)"
        have xu: "x = u @ CHR '']'' # y" using u(1) x(1) by simp
        have "r = w2 @ CHR '','' # x" using w2(1) unfolding x(1) .
        then have "s = ((w @ w') @ t @ w2 @ CHR '','' # u) @ CHR '']'' # y" using s xu by simp
        moreover have "json_list 33 CHR ''['' ((w @ w') @ t @ w2 @ CHR '','' # u) (map (Pair []) (t # es))"
          using list_more [OF l t(3) w2(2) u(2)] by simp
        ultimately show ?thesis by blast
      qed blast
    qed
  qed
qed

lemma for_each_sound:
  assumes "for_each f s a = (True, b)"
  shows "(\<exists>es. json_array s es) \<or> (\<exists>v a1. f v a1 = (False, b))"
proof -
  obtain w where w: "s = w @ skip_space s" "blank w" using skip_space_split by blast
  obtain u where u: "skip_space s = CHR ''['' # u"
    using assms by (auto simp: for_each_def Let_def starts_char_Cons split: if_splits)
  obtain w1 where w1: "u = w1 @ skip_space u" "blank w1" using skip_space_split by blast
  have s: "s = w @ CHR ''['' # u" using w(1) unfolding u .
  show ?thesis
  proof (cases "starts_char CHR '']'' (skip_space u)")
    case True
    then obtain r where r: "skip_space u = CHR '']'' # r" by (auto simp: starts_char_Cons)
    have "u = w1 @ CHR '']'' # r" using w1(1) unfolding r(1) .
    then have "json_array s []" unfolding json_array_def s using w(2) w1(2) by blast
    then show ?thesis by blast
  next
    case False
    then have "element_loop f (skip_space u) a = (True, b)" using assms u by (simp add: for_each_def)
    from element_loop_sound [OF this] show ?thesis
    proof (elim disjE exE conjE)
      fix v r es
      assume v: "skip_space u = v @ CHR '']'' # r" "json_list 33 CHR ''['' v (map (Pair []) es)"
      have "u = (w1 @ v) @ CHR '']'' # r" using w1(1) unfolding v(1) by simp
      then have "json_array s es"
        unfolding json_array_def s using w(2) json_list_blank [OF v(2) w1(2)] by blast
      then show ?thesis by blast
    qed blast
  qed
qed

section \<open>The value of a token\<close>

text \<open>
  A token denotes a mantissa at a scale when it is the rendering of that mantissa, up to a leading plus sign: the
  digits the venue wrote are the digits the book holds.
\<close>

definition wire_value :: "string \<Rightarrow> nat \<Rightarrow> int \<Rightarrow> bool" where
  "wire_value token scale n \<longleftrightarrow>
     parse_fixed token scale = parse_result n ParseOk \<and> \<bar>n\<bar> \<le> i64_max \<and> strip_plus token = format_fixed n scale"

lemma pr_ok_result: "pr_ok r \<longleftrightarrow> r = parse_result (pr_mantissa r) ParseOk"
  by (cases r) (auto simp: pr_ok_def parse_result_def)

lemma wire_value_parsed:
  assumes "pr_ok (parse_fixed token scale)" "is_canonical_parsed token scale (pr_mantissa (parse_fixed token scale))"
  shows "wire_value token scale (pr_mantissa (parse_fixed token scale))"
proof -
  have p: "parse_fixed token scale = parse_result (pr_mantissa (parse_fixed token scale)) ParseOk"
    using assms(1) pr_ok_result by blast
  show ?thesis
    using p parse_fixed_bound [OF p] assms(2)
    by (simp add: wire_value_def is_canonical_parsed_def format_fixed_def Let_def)
qed

definition wire_level :: "instrument_spec \<Rightarrow> side \<Rightarrow> string \<Rightarrow> string \<Rightarrow> level_update \<Rightarrow> bool" where
  "wire_level spec side price_token qty_token l \<longleftrightarrow>
     lu_side l = side \<and> wire_value price_token (is_price_scale spec) (ticks (lu_price l)) \<and>
     wire_value qty_token (is_qty_scale spec) (units (lu_qty l))"

lemma decode_tokens_ok:
  assumes "decode_tokens spec side p q m = (False, m1)"
  shows "\<exists>l. m1 = m\<lparr>dm_levels := dm_levels m @ [l]\<rparr> \<and> wire_level spec side p q l"
proof -
  have r: "p \<noteq> []" "q \<noteq> []" "pr_ok (parse_fixed p (is_price_scale spec))" "pr_ok (parse_fixed q (is_qty_scale spec))"
    "is_canonical_parsed p (is_price_scale spec) (pr_mantissa (parse_fixed p (is_price_scale spec)))"
    "is_canonical_parsed q (is_qty_scale spec) (pr_mantissa (parse_fixed q (is_qty_scale spec)))"
    "m1 = m\<lparr>dm_levels := dm_levels m @ [level_update side (Price (pr_mantissa (parse_fixed p (is_price_scale spec))))
       (Qty (pr_mantissa (parse_fixed q (is_qty_scale spec))))]\<rparr>"
    using assms by (auto simp: decode_tokens_def Let_def split: if_splits)
  show ?thesis
    using r(7) wire_value_parsed [OF r(3,5)] wire_value_parsed [OF r(4,6)]
    by (auto simp: wire_level_def level_update_def)
qed

lemma decode_tokens_levels:
  assumes "decode_tokens spec side p q m = (failed, m1)"
  shows "failed \<longrightarrow> dm_levels m1 = dm_levels m" "dm_kind m1 = dm_kind m"
  using assms by (auto simp: decode_tokens_def Let_def token_error_def split: if_splits)

lemma wire_level_i64: "wire_level spec side p q l \<Longrightarrow> i64 (ticks (lu_price l)) \<and> i64 (units (lu_qty l))"
  by (auto simp: wire_level_def wire_value_def intro: i64_abs)

section \<open>The walk over a side\<close>

text \<open>
  The interface between a venue's level callback and the walk over a side: the callback goes on exactly when it has
  appended one level, which the element says, to a message with room for it, and it stops only with the flag
  \<open>failed\<close> set.
\<close>

lemma json_list_texts: "json_list n c u ms \<Longrightarrow> (k, t) \<in> set ms \<Longrightarrow> json_text n t"
  by (induction rule: json_list_induct) auto

lemma json_array_texts: "json_array s es \<Longrightarrow> t \<in> set es \<Longrightarrow> json_text 33 t"
  unfolding json_array_def by (auto dest!: json_list_texts [where k = "[]" and t = t])

locale level_decoder =
  fixes step :: "side \<Rightarrow> json_value \<Rightarrow> bool \<times> decoded_message \<Rightarrow> bool \<times> (bool \<times> decoded_message)"
    and says :: "side \<Rightarrow> string \<Rightarrow> level_update \<Rightarrow> bool"
  assumes go: "json_text 33 t \<Longrightarrow> step side (value_text t) (False, m) = (True, st) \<Longrightarrow>
      \<exists>l. says side t l \<and> st = (False, m\<lparr>dm_levels := dm_levels m @ [l]\<rparr>) \<and> length (dm_levels m) < kMaxLevelsPerMessage"
    and stop: "step side v (failed, m) = (False, st) \<Longrightarrow> fst st"
    and fits: "says side t l \<Longrightarrow> i64 (ticks (lu_price l)) \<and> i64 (units (lu_qty l))"
begin

lemma walk_levels:
  assumes "snd (walk_members (\<lambda>_. step side) (map (Pair []) es) (False, m)) = (False, m1)"
    "length (dm_levels m) \<le> kMaxLevelsPerMessage" "\<forall>t \<in> set es. json_text 33 t"
  shows "\<exists>ls. list_all2 (says side) es ls \<and> m1 = m\<lparr>dm_levels := dm_levels m @ ls\<rparr> \<and>
     length (dm_levels m1) \<le> kMaxLevelsPerMessage"
  using assms
proof (induction es arbitrary: m)
  case Nil
  then show ?case by (intro exI [of _ "[]"]) simp
next
  case (Cons t es)
  obtain more st where d: "step side (value_text t) (False, m) = (more, st)"
    by (cases "step side (value_text t) (False, m)") blast
  show ?case
  proof (cases more)
    case False
    then have "fst st" using stop [of side "value_text t" False m st] d by simp
    then show ?thesis using Cons.prems(1) d False by simp
  next
    case True
    obtain l where l: "says side t l" "st = (False, m\<lparr>dm_levels := dm_levels m @ [l]\<rparr>)"
        "length (dm_levels m) < kMaxLevelsPerMessage"
      using go [of t side m st] d True Cons.prems(3) by auto
    obtain ls where ls: "list_all2 (says side) es ls" "m1 = m\<lparr>dm_levels := (dm_levels m @ [l]) @ ls\<rparr>"
        "length (dm_levels m1) \<le> kMaxLevelsPerMessage"
      using Cons.IH [of "m\<lparr>dm_levels := dm_levels m @ [l]\<rparr>"] Cons.prems d True l(2,3) by auto
    then show ?thesis using l(1) by (intro exI [of _ "l # ls"]) auto
  qed
qed

lemma side_walk:
  assumes "for_each (step side) s (False, m) = (True, (False, m1))" "length (dm_levels m) \<le> kMaxLevelsPerMessage"
  shows "\<exists>es ls. json_array s es \<and> list_all2 (says side) es ls \<and> m1 = m\<lparr>dm_levels := dm_levels m @ ls\<rparr> \<and>
     length (dm_levels m1) \<le> kMaxLevelsPerMessage"
proof -
  have "\<not> (\<exists>x st. step side x st = (False, (False, m1)))" using stop by (metis fst_conv prod.collapse)
  then obtain es where es: "json_array s es" using for_each_sound [OF assms(1)] by blast
  have "snd (walk_members (\<lambda>_. step side) (map (Pair []) es) (False, m)) = (False, m1)"
    using for_each_array [OF es, of "step side" "(False, m)"] assms(1) by simp
  from walk_levels [OF this assms(2)] show ?thesis using es json_array_texts by blast
qed

lemma levels_fit:
  "list_all2 (says side) es ls \<Longrightarrow> l \<in> set ls \<Longrightarrow> i64 (ticks (lu_price l)) \<and> i64 (units (lu_qty l))"
  using fits by (metis in_set_conv_nth list_all2_conv_all_nth)

end

section \<open>Frames to evaluate\<close>

text \<open>A text with a tilde for every quotation mark and a caret for every backslash.\<close>

definition quoted :: "string \<Rightarrow> string" where
  "quoted s = map (\<lambda>c. if c = CHR ''~'' then quote else if c = CHR ''^'' then backslash else c) s"

end
