(* ===== verification/Kraken.thy ===== *)
theory Kraken
  imports Kraken_Time Decode_Common
begin

text \<open>
  The Kraken book decoder, \<open>class KrakenBookDecoder\<close> of \<open>include/crossbook/venues/kraken.hpp\<close>.  The output
  message is threaded through the walks as the state of their callbacks; a callback that captures a flag besides
  the message threads the pair.
\<close>

definition venue_error :: "string \<Rightarrow> decoded_message \<Rightarrow> decoded_message" where
  "venue_error detail m = m\<lparr>dm_kind := KindVenueError, dm_bad_token := detail, dm_levels := []\<rparr>"

section \<open>One side\<close>

type_synonym level_fields = "json_value \<times> json_value"

definition level_member :: "level_fields member_fn" where
  "level_member key v st =
     (case st of (price_value, qty_value) \<Rightarrow>
        (True,
         if key = ''price'' then (capture price_value v, qty_value)
         else if key = ''qty'' then (price_value, capture qty_value v)
         else st))"

definition decode_level ::
    "instrument_spec \<Rightarrow> side \<Rightarrow> json_value \<Rightarrow> bool \<times> decoded_message \<Rightarrow> bool \<times> (bool \<times> decoded_message)" where
  "decode_level spec side level st =
     (case st of (failed, m) \<Rightarrow>
        if jv_type level \<noteq> JsonObject then (False, (True, m))
        else if length (dm_levels m) \<ge> kMaxLevelsPerMessage then
          (False, (True, m\<lparr>dm_error := DecodeTooManyLevels\<rparr>))
        else
          (case for_each_member level_member (jv_raw level) (json_value0, json_value0) of
             (False, _) \<Rightarrow> (False, (True, m))
           | (True, (price_value, qty_value)) \<Rightarrow>
               (case decode_tokens spec side (number_token price_value) (number_token qty_value) m of
                  (True, m1) \<Rightarrow> (False, (True, m1))
                | (False, m1) \<Rightarrow> (True, (failed, m1)))))"

definition decode_side ::
    "instrument_spec \<Rightarrow> json_value \<Rightarrow> side \<Rightarrow> decoded_message \<Rightarrow> bool \<times> decoded_message" where
  "decode_side spec array side m =
     (if \<not> jv_ok array then (True, m)
      else if jv_type array \<noteq> JsonArray then (False, m)
      else
        (case for_each (decode_level spec side) (jv_raw array) (False, m) of
           (walked, (failed, m1)) \<Rightarrow> (walked \<and> \<not> failed, m1)))"

section \<open>One entry\<close>

definition decode_checksum :: "json_value \<Rightarrow> decoded_message \<Rightarrow> bool \<times> decoded_message" where
  "decode_checksum checksum m =
     (if \<not> jv_ok checksum then (True, m)
      else
        (let token = number_token checksum;
             bad = m\<lparr>dm_error := DecodeBadChecksum, dm_bad_token := (if token = [] then jv_raw checksum else token)\<rparr>
         in case (if token = [] then None else parse_u64 token) of
              None \<Rightarrow> (False, bad)
            | Some raw \<Rightarrow>
                if raw > 0xFFFFFFFF then (False, bad)
                else (True, m\<lparr>dm_checksum := ucast raw, dm_has_checksum := True\<rparr>)))"

definition decode_timestamp :: "json_value \<Rightarrow> decoded_message \<Rightarrow> bool \<times> decoded_message" where
  "decode_timestamp timestamp m =
     (let body = string_body timestamp in
      case (if body = [] then None else parse_rfc3339_nanos body) of
        None \<Rightarrow> (False, m\<lparr>dm_error := DecodeBadTimestamp, dm_bad_token := (if body = [] then jv_raw timestamp else body)\<rparr>)
      | Some nanos \<Rightarrow> (True, m\<lparr>dm_ts := nanos\<rparr>))"

record entry_fields =
  ef_symbol :: json_value
  ef_checksum :: json_value
  ef_timestamp :: json_value
  ef_bids :: json_value
  ef_asks :: json_value

definition entry_fields0 :: entry_fields where
  "entry_fields0 = \<lparr>ef_symbol = json_value0, ef_checksum = json_value0, ef_timestamp = json_value0,
     ef_bids = json_value0, ef_asks = json_value0\<rparr>"

definition entry_member :: "entry_fields member_fn" where
  "entry_member key v e =
     (True,
      if key = ''symbol'' then e\<lparr>ef_symbol := capture (ef_symbol e) v\<rparr>
      else if key = ''checksum'' then e\<lparr>ef_checksum := capture (ef_checksum e) v\<rparr>
      else if key = ''timestamp'' then e\<lparr>ef_timestamp := capture (ef_timestamp e) v\<rparr>
      else if key = ''bids'' then e\<lparr>ef_bids := capture (ef_bids e) v\<rparr>
      else if key = ''asks'' then e\<lparr>ef_asks := capture (ef_asks e) v\<rparr>
      else e)"

definition decode_entry ::
    "instrument_spec \<Rightarrow> entry_fields \<Rightarrow> decoded_message \<Rightarrow> bool \<times> decoded_message" where
  "decode_entry spec e m0 =
     (let m = m0\<lparr>dm_symbol := string_body (ef_symbol e)\<rparr> in
      case decode_checksum (ef_checksum e) m of
        (False, m1) \<Rightarrow> (False, m1)
      | (True, m1) \<Rightarrow>
          (case decode_timestamp (ef_timestamp e) m1 of
             (False, m2) \<Rightarrow> (False, m2)
           | (True, m2) \<Rightarrow>
               (case decode_side spec (ef_bids e) Bid m2 of
                  (False, m3) \<Rightarrow> (False, m3)
                | (True, m3) \<Rightarrow> decode_side spec (ef_asks e) Ask m3)))"

text \<open>The callback over the entries of \<open>data\<close>: \<open>matched\<close>, \<open>failed\<close> and the message.\<close>

type_synonym entry_state = "bool \<times> bool \<times> decoded_message"

definition is_present :: "json_value \<Rightarrow> bool" where
  "is_present v = (case read_string v of (r, body) \<Rightarrow> r \<noteq> NotAString \<and> body \<noteq> [])"

definition entry_step :: "instrument_spec \<Rightarrow> json_value \<Rightarrow> entry_state \<Rightarrow> bool \<times> entry_state" where
  "entry_step spec entry st =
     (case st of (matched, failed, m) \<Rightarrow>
        if jv_type entry \<noteq> JsonObject then (False, (matched, True, m))
        else if matched then (True, st)
        else
          (case for_each_member entry_member (jv_raw entry) entry_fields0 of
             (False, _) \<Rightarrow> (False, (matched, True, m))
           | (True, e) \<Rightarrow>
               if is_present (ef_symbol e) \<and> \<not> string_equals (ef_symbol e) (is_symbol spec) then (True, st)
               else
                 (case decode_entry spec e m of
                    (ok, m1) \<Rightarrow> (ok, (True, \<not> ok, m1)))))"

section \<open>One frame\<close>

record frame_fields =
  ff_error :: json_value
  ff_success :: json_value
  ff_method :: json_value
  ff_channel :: json_value
  ff_type :: json_value
  ff_data :: json_value

definition frame_fields0 :: frame_fields where
  "frame_fields0 = \<lparr>ff_error = json_value0, ff_success = json_value0, ff_method = json_value0,
     ff_channel = json_value0, ff_type = json_value0, ff_data = json_value0\<rparr>"

definition frame_member :: "frame_fields member_fn" where
  "frame_member key v f =
     (True,
      if key = ''error'' then f\<lparr>ff_error := capture (ff_error f) v\<rparr>
      else if key = ''success'' then f\<lparr>ff_success := capture (ff_success f) v\<rparr>
      else if key = ''method'' then f\<lparr>ff_method := capture (ff_method f) v\<rparr>
      else if key = ''channel'' then f\<lparr>ff_channel := capture (ff_channel f) v\<rparr>
      else if key = ''type'' then f\<lparr>ff_type := capture (ff_type f) v\<rparr>
      else if key = ''data'' then f\<lparr>ff_data := capture (ff_data f) v\<rparr>
      else f)"

definition decode_data :: "instrument_spec \<Rightarrow> json_value \<Rightarrow> decoded_message \<Rightarrow> decoded_message" where
  "decode_data spec data m =
     (if \<not> jv_ok data \<or> jv_type data \<noteq> JsonArray then fail DecodeMalformed m
      else
        (case for_each (entry_step spec) (jv_raw data) (False, False, m) of
           (walked, (matched, failed, m1)) \<Rightarrow>
             if \<not> walked \<or> failed then fail_decoded m1
             else if \<not> matched then m1\<lparr>dm_kind := KindIgnored, dm_levels := []\<rparr>
             else m1))"

definition kraken_decode :: "instrument_spec \<Rightarrow> string \<Rightarrow> decoded_message" where
  "kraken_decode spec frame =
     (let m = decoded_message_reset in
      case for_each_member frame_member frame frame_fields0 of
        (False, _) \<Rightarrow>
          if well_formed frame then m\<lparr>dm_kind := KindIgnored\<rparr> else fail DecodeMalformed m
      | (True, f) \<Rightarrow>
          if jv_ok (ff_error f) \<and> jv_type (ff_error f) = JsonString then venue_error (string_body (ff_error f)) m
          else if jv_ok (ff_success f) \<and> jv_type (ff_success f) = JsonBool \<and> jv_raw (ff_success f) = ''false'' then
            venue_error (string_body (ff_method f)) m
          else if \<not> jv_ok (ff_channel f) then m\<lparr>dm_kind := KindIgnored\<rparr>
          else if string_equals (ff_channel f) ''status'' \<or> string_equals (ff_channel f) ''heartbeat'' then
            m\<lparr>dm_kind := KindIgnored\<rparr>
          else if \<not> string_equals (ff_channel f) ''book'' then m\<lparr>dm_kind := KindIgnored\<rparr>
          else if string_equals (ff_type f) ''snapshot'' then decode_data spec (ff_data f) (m\<lparr>dm_kind := KindSnapshot\<rparr>)
          else if string_equals (ff_type f) ''update'' then decode_data spec (ff_data f) (m\<lparr>dm_kind := KindUpdate\<rparr>)
          else m\<lparr>dm_kind := KindIgnored\<rparr>)"

text \<open>The decoder as the feed uses it; its state is the specification it was built with.\<close>

definition kraken_decoder :: "instrument_spec decoder" where
  "kraken_decoder = \<lparr>dec_decode = (\<lambda>frame spec. (kraken_decode spec frame, spec)), dec_spec = (\<lambda>spec. spec)\<rparr>"

section \<open>What the walks capture\<close>

lemma members_go: "fst (level_member k v a)" "fst (entry_member k v e)" "fst (frame_member k v f)"
  by (simp_all add: level_member_def entry_member_def frame_member_def case_prod_unfold)

lemma walk_level_member:
  assumes "members_ok ms"
  shows "walk_members level_member ms (a, b) = (True, capture_in a ms ''price'', capture_in b ms ''qty'')"
  using assms
  by (induction ms arbitrary: a b) (auto simp: level_member_def capture_in_simps)

lemma walk_entry_member:
  assumes "members_ok ms"
  shows "walk_members entry_member ms e =
     (True, \<lparr>ef_symbol = capture_in (ef_symbol e) ms ''symbol'', ef_checksum = capture_in (ef_checksum e) ms ''checksum'',
       ef_timestamp = capture_in (ef_timestamp e) ms ''timestamp'', ef_bids = capture_in (ef_bids e) ms ''bids'',
       ef_asks = capture_in (ef_asks e) ms ''asks''\<rparr>)"
  using assms
proof (induction ms arbitrary: e)
  case Nil
  then show ?case by (simp add: capture_in_simps)
next
  case (Cons m ms)
  obtain k t where m: "m = (k, t)" by (cases m)
  have ok: "jv_ok (value_text t)" "members_ok ms" using Cons.prems m by auto
  show ?case
    unfolding m walk_on [of entry_member, OF members_go(2)] Cons.IH [OF ok(2)] capture_in_simps(2) [OF ok(1)]
    by (simp add: entry_member_def)
qed

lemma walk_frame_member:
  assumes "members_ok ms"
  shows "walk_members frame_member ms f =
     (True, \<lparr>ff_error = capture_in (ff_error f) ms ''error'', ff_success = capture_in (ff_success f) ms ''success'',
       ff_method = capture_in (ff_method f) ms ''method'', ff_channel = capture_in (ff_channel f) ms ''channel'',
       ff_type = capture_in (ff_type f) ms ''type'', ff_data = capture_in (ff_data f) ms ''data''\<rparr>)"
  using assms
proof (induction ms arbitrary: f)
  case Nil
  then show ?case by (simp add: capture_in_simps)
next
  case (Cons m ms)
  obtain k t where m: "m = (k, t)" by (cases m)
  have ok: "jv_ok (value_text t)" "members_ok ms" using Cons.prems m by auto
  show ?case
    unfolding m walk_on [of frame_member, OF members_go(3)] Cons.IH [OF ok(2)] capture_in_simps(2) [OF ok(1)]
    by (simp add: frame_member_def)
qed

lemma members_keep_going: "keeps_going level_member" "keeps_going entry_member" "keeps_going frame_member"
  by (simp_all add: keeps_going_def members_go)

section \<open>The levels of a side\<close>

text \<open>What one element of a side says: an object with a price and a quantity.\<close>

definition kraken_level :: "instrument_spec \<Rightarrow> side \<Rightarrow> string \<Rightarrow> level_update \<Rightarrow> bool" where
  "kraken_level spec side t l \<longleftrightarrow>
     (\<exists>ms. json_object t ms \<and>
        wire_level spec side (number_token (lookup ms ''price'')) (number_token (lookup ms ''qty'')) l)"

lemma decode_level_go:
  assumes "decode_level spec side (value_text t) (False, m) = (True, st)"
  shows "\<exists>l. kraken_level spec side t l \<and> st = (False, m\<lparr>dm_levels := dm_levels m @ [l]\<rparr>) \<and>
     length (dm_levels m) < kMaxLevelsPerMessage"
proof -
  obtain p q m1 where w: "for_each_member level_member t (json_value0, json_value0) = (True, (p, q))"
      "decode_tokens spec side (number_token p) (number_token q) m = (False, m1)" "st = (False, m1)"
      "length (dm_levels m) < kMaxLevelsPerMessage"
    using assms by (auto simp: decode_level_def value_text_def split: if_splits prod.splits bool.splits)
  obtain ms where ms: "json_object t ms" "members_ok ms" "(p, q) = snd (walk_members level_member ms (json_value0, json_value0))"
    using walked_object [OF w(1) members_keep_going(1)] .
  have "p = lookup ms ''price''" "q = lookup ms ''qty''"
    using ms(3) walk_level_member [OF ms(2)] by (simp_all add: capture_in_simps)
  then show ?thesis
    using decode_tokens_ok [OF w(2)] w(3,4) ms(1) unfolding kraken_level_def by blast
qed

lemma decode_level_stop:
  assumes "decode_level spec side v (failed, m) = (False, st)"
  shows "fst st"
proof -
  obtain w p q where fe: "for_each_member level_member (jv_raw v) (json_value0, json_value0) = (w, (p, q))"
    by (metis prod.collapse)
  obtain fl m1 where dt: "decode_tokens spec side (number_token p) (number_token q) m = (fl, m1)"
    by (metis prod.collapse)
  show ?thesis
    using assms unfolding decode_level_def prod.case fe dt
    by (cases w; cases fl) (auto simp only: if_True if_False bool.case prod.case dt fst_conv prod.inject split: if_splits)
qed

interpretation kraken_side: level_decoder "decode_level spec" "kraken_level spec" for spec
proof unfold_locales
  show "\<exists>l. kraken_level spec side t l \<and> st = (False, m\<lparr>dm_levels := dm_levels m @ [l]\<rparr>) \<and>
      length (dm_levels m) < kMaxLevelsPerMessage"
    if "decode_level spec side (value_text t) (False, m) = (True, st)" for side t m st
    using that by (rule decode_level_go)
  show "fst st" if "decode_level spec side v (failed, m) = (False, st)" for side v failed m st
    using that by (rule decode_level_stop)
  show "i64 (ticks (lu_price l)) \<and> i64 (units (lu_qty l))" if "kraken_level spec side t l" for side t l
    using that wire_level_i64 unfolding kraken_level_def by blast
qed

definition side_levels :: "instrument_spec \<Rightarrow> side \<Rightarrow> json_value \<Rightarrow> level_update list \<Rightarrow> bool" where
  "side_levels spec side v ls \<longleftrightarrow>
     (if jv_ok v then
        jv_type v = JsonArray \<and> (\<exists>es. json_array (jv_raw v) es \<and> list_all2 (kraken_level spec side) es ls)
      else ls = [])"

lemma decode_side_ok:
  assumes "decode_side spec v side m = (True, m1)" "length (dm_levels m) \<le> kMaxLevelsPerMessage"
  shows "\<exists>ls. side_levels spec side v ls \<and> m1 = m\<lparr>dm_levels := dm_levels m @ ls\<rparr> \<and>
     length (dm_levels m1) \<le> kMaxLevelsPerMessage"
proof (cases "jv_ok v")
  case False
  then show ?thesis using assms by (intro exI [of _ "[]"]) (simp add: decode_side_def side_levels_def)
next
  case True
  then have f: "for_each (decode_level spec side) (jv_raw v) (False, m) = (True, (False, m1))" and a: "jv_type v = JsonArray"
    using assms(1) by (auto simp: decode_side_def split: if_splits prod.splits)
  from kraken_side.side_walk [OF f assms(2)] show ?thesis using True a unfolding side_levels_def by auto
qed

section \<open>What an accepted frame says\<close>

definition checksum_read :: "json_value \<Rightarrow> decoded_message \<Rightarrow> bool" where
  "checksum_read v m \<longleftrightarrow>
     (if jv_ok v then
        dm_has_checksum m \<and> number_token v \<noteq> [] \<and> all_digits (number_token v) \<and>
        digits_value (number_token v) < 2 ^ 32 \<and> dm_checksum m = of_nat (digits_value (number_token v))
      else \<not> dm_has_checksum m)"

lemma checksum_read_same:
  "dm_checksum m' = dm_checksum m \<Longrightarrow> dm_has_checksum m' = dm_has_checksum m \<Longrightarrow> checksum_read v m \<Longrightarrow> checksum_read v m'"
  by (simp only: checksum_read_def)

lemma decode_checksum_ok:
  assumes "decode_checksum v m = (True, m1)" "\<not> dm_has_checksum m"
  shows "checksum_read v m1 \<and> (\<exists>c b. m1 = m\<lparr>dm_checksum := c, dm_has_checksum := b\<rparr>)"
proof (cases "jv_ok v")
  case False
  then have m: "m1 = m" using assms(1) by (simp add: decode_checksum_def)
  have "m1 = m\<lparr>dm_checksum := dm_checksum m, dm_has_checksum := dm_has_checksum m\<rparr>" using m by simp
  moreover have "checksum_read v m1" using False assms(2) m by (simp add: checksum_read_def)
  ultimately show ?thesis by blast
next
  case True
  then obtain raw where r: "number_token v \<noteq> []" "parse_u64 (number_token v) = Some raw" "\<not> raw > 0xFFFFFFFF"
      "m1 = m\<lparr>dm_checksum := ucast raw, dm_has_checksum := True\<rparr>"
    using assms(1) by (auto simp: decode_checksum_def Let_def split: if_splits option.splits)
  have d: "all_digits (number_token v)" "digits_value (number_token v) \<le> 18446744073709551615"
      "raw = of_nat (digits_value (number_token v))"
    using r(2) by (auto simp: parse_u64_iff)
  have u: "unat raw = digits_value (number_token v)" using d(2,3) by (simp add: unat_of_nat)
  have "unat raw \<le> 4294967295" using r(3) by (simp add: word_less_nat_alt not_less)
  then have l: "digits_value (number_token v) < 2 ^ 32" using u by simp
  have "dm_checksum m1 = of_nat (digits_value (number_token v))"
  proof -
    have "(ucast raw :: u32) = of_nat (unat raw)" by simp
    then show ?thesis unfolding r(4) u by simp
  qed
  then show ?thesis using r d l True unfolding checksum_read_def by auto
qed

lemma decode_timestamp_ok:
  "decode_timestamp v m = (True, m1) \<Longrightarrow>
     \<exists>n. parse_rfc3339_nanos (string_body v) = Some n \<and> m1 = m\<lparr>dm_ts := n\<rparr>"
  by (auto simp: decode_timestamp_def Let_def split: if_splits option.splits)

definition entry_of :: "(string \<times> string) list \<Rightarrow> entry_fields" where
  "entry_of em = \<lparr>ef_symbol = lookup em ''symbol'', ef_checksum = lookup em ''checksum'',
     ef_timestamp = lookup em ''timestamp'', ef_bids = lookup em ''bids'', ef_asks = lookup em ''asks''\<rparr>"

definition says_entry :: "instrument_spec \<Rightarrow> (string \<times> string) list \<Rightarrow> decoded_message \<Rightarrow> bool" where
  "says_entry spec em m \<longleftrightarrow>
     dm_symbol m = string_body (lookup em ''symbol'') \<and> checksum_read (lookup em ''checksum'') m \<and>
     parse_rfc3339_nanos (string_body (lookup em ''timestamp'')) = Some (dm_ts m) \<and>
     (\<exists>bids asks. side_levels spec Bid (lookup em ''bids'') bids \<and> side_levels spec Ask (lookup em ''asks'') asks \<and>
        dm_levels m = bids @ asks)"

lemma decode_entry_ok:
  assumes "decode_entry spec (entry_of em) m = (True, m1)" "\<not> dm_has_checksum m" "dm_levels m = []"
  shows "says_entry spec em m1 \<and> dm_kind m1 = dm_kind m \<and> dm_error m1 = dm_error m \<and> dm_has_ids m1 = dm_has_ids m \<and>
     dm_ids m1 = dm_ids m \<and> length (dm_levels m1) \<le> kMaxLevelsPerMessage"
proof -
  let ?m = "m\<lparr>dm_symbol := string_body (lookup em ''symbol'')\<rparr>"
  obtain m2 m3 m4 where p: "decode_checksum (lookup em ''checksum'') ?m = (True, m2)"
      "decode_timestamp (lookup em ''timestamp'') m2 = (True, m3)"
      "decode_side spec (lookup em ''bids'') Bid m3 = (True, m4)"
      "decode_side spec (lookup em ''asks'') Ask m4 = (True, m1)"
    using assms(1) by (auto simp: decode_entry_def entry_of_def Let_def split: prod.splits bool.splits)
  obtain c b where c: "checksum_read (lookup em ''checksum'') m2" "m2 = ?m\<lparr>dm_checksum := c, dm_has_checksum := b\<rparr>"
    using decode_checksum_ok [OF p(1)] assms(2) by auto
  obtain n where n: "parse_rfc3339_nanos (string_body (lookup em ''timestamp'')) = Some n" "m3 = m2\<lparr>dm_ts := n\<rparr>"
    using decode_timestamp_ok [OF p(2)] by blast
  have "dm_levels m3 = []" using n(2) c(2) assms(3) by simp
  then obtain bs where bs: "side_levels spec Bid (lookup em ''bids'') bs" "m4 = m3\<lparr>dm_levels := bs\<rparr>"
      "length (dm_levels m4) \<le> kMaxLevelsPerMessage"
    using decode_side_ok [OF p(3)] by auto
  obtain as' where as': "side_levels spec Ask (lookup em ''asks'') as'" "m1 = m4\<lparr>dm_levels := bs @ as'\<rparr>"
      "length (dm_levels m1) \<le> kMaxLevelsPerMessage"
    using decode_side_ok [OF p(4) bs(3)] bs(2) by auto
  have "checksum_read (lookup em ''checksum'') m1"
    by (rule checksum_read_same [OF _ _ c(1)]) (simp_all add: as'(2) bs(2) n(2))
  then show ?thesis
    unfolding says_entry_def using c(2) n bs as' by auto
qed

text \<open>The instrument of an entry: its symbol, where it has one, is another.\<close>

definition foreign :: "instrument_spec \<Rightarrow> (string \<times> string) list \<Rightarrow> bool" where
  "foreign spec em \<longleftrightarrow>
     is_present (lookup em ''symbol'') \<and> \<not> string_equals (lookup em ''symbol'') (is_symbol spec)"

lemma entry_walk:
  assumes "for_each_member entry_member t entry_fields0 = (True, e)"
  shows "\<exists>em. json_object t em \<and> e = entry_of em"
proof -
  obtain em where em: "json_object t em" "members_ok em" "e = snd (walk_members entry_member em entry_fields0)"
    using walked_object [OF assms members_keep_going(2)] .
  then show ?thesis
    using walk_entry_member [OF em(2), of entry_fields0]
    by (intro exI [of _ em]) (simp add: entry_of_def entry_fields0_def capture_in_simps)
qed

lemma entry_step_cases:
  assumes "entry_step spec (value_text t) (matched, False, m) = (go, st)"
  shows "(go \<longrightarrow> (matched \<and> st = (True, False, m) \<or>
        \<not> matched \<and> (\<exists>em. json_object t em \<and>
           (foreign spec em \<and> st = (False, False, m) \<or>
            \<not> foreign spec em \<and> (\<exists>m1. decode_entry spec (entry_of em) m = (True, m1) \<and> st = (True, False, m1)))))) \<and>
     (\<not> go \<longrightarrow> fst (snd st))"
proof (cases "jv_type (value_text t) = JsonObject \<and> \<not> matched")
  case False
  then show ?thesis using assms by (auto simp: entry_step_def split: if_splits)
next
  case True
  obtain w e where w: "for_each_member entry_member t entry_fields0 = (w, e)" by (metis prod.collapse)
  show ?thesis
  proof (cases w)
    case False
    then show ?thesis using assms True w by (auto simp: entry_step_def value_text_def)
  next
    case True
    then obtain em where em: "json_object t em" "e = entry_of em" using entry_walk [of t e] w by auto
    obtain ok m1 where d: "decode_entry spec e m = (ok, m1)" by (metis prod.collapse)
    have s: "entry_step spec (value_text t) (matched, False, m) =
        (if foreign spec em then (True, (matched, False, m)) else (ok, (True, \<not> ok, m1)))"
      using \<open>jv_type (value_text t) = JsonObject \<and> \<not> matched\<close> w True em d
      by (simp add: entry_step_def value_text_def foreign_def entry_of_def)
    show ?thesis
      using s assms d em \<open>jv_type (value_text t) = JsonObject \<and> \<not> matched\<close>
      by (cases "foreign spec em"; cases ok) auto
  qed
qed

lemma walk_matched:
  assumes "snd (walk_members (\<lambda>_. entry_step spec) (map (Pair []) es) (True, False, m)) = (mt, False, m1)"
  shows "mt \<and> m1 = m"
  using assms
proof (induction es)
  case (Cons t es)
  obtain go st where e: "entry_step spec (value_text t) (True, False, m) = (go, st)" by (metis prod.collapse)
  note c = entry_step_cases [OF e]
  show ?case
  proof (cases go)
    case True
    then have "st = (True, False, m)" using c by auto
    then show ?thesis using Cons e True by simp
  next
    case False
    then have "fst (snd st)" using c by auto
    then show ?thesis using Cons.prems e False by simp
  qed
qed simp

definition foreign_text :: "instrument_spec \<Rightarrow> string \<Rightarrow> bool" where
  "foreign_text spec t \<longleftrightarrow> (\<exists>em. json_object t em \<and> foreign spec em)"

lemma walk_entries:
  assumes "snd (walk_members (\<lambda>_. entry_step spec) (map (Pair []) es) (False, False, m)) = (mt, False, m1)"
  shows "if mt then
       (\<exists>pre t post em. es = pre @ t # post \<and> (\<forall>e \<in> set pre. foreign_text spec e) \<and> json_object t em \<and>
          \<not> foreign spec em \<and> decode_entry spec (entry_of em) m = (True, m1))
     else m1 = m"
  using assms
proof (induction es)
  case (Cons t es)
  obtain go st where e: "entry_step spec (value_text t) (False, False, m) = (go, st)" by (metis prod.collapse)
  note c = entry_step_cases [OF e]
  show ?case
  proof (cases go)
    case True
    then obtain em where em: "json_object t em"
        "foreign spec em \<and> st = (False, False, m) \<or>
         \<not> foreign spec em \<and> (\<exists>m1. decode_entry spec (entry_of em) m = (True, m1) \<and> st = (True, False, m1))"
      using c by auto
    from em(2) show ?thesis
    proof (elim disjE conjE exE)
      assume f: "foreign spec em" "st = (False, False, m)"
      then have ih: "if mt then
           (\<exists>pre t post em. es = pre @ t # post \<and> (\<forall>e \<in> set pre. foreign_text spec e) \<and> json_object t em \<and>
              \<not> foreign spec em \<and> decode_entry spec (entry_of em) m = (True, m1))
         else m1 = m"
        using Cons e True by simp
      show ?thesis
      proof (cases mt)
        case True
        then obtain pre t' post em' where i: "es = pre @ t' # post" "\<forall>e \<in> set pre. foreign_text spec e"
            "json_object t' em'" "\<not> foreign spec em'" "decode_entry spec (entry_of em') m = (True, m1)"
          using ih by auto
        have "t # es = (t # pre) @ t' # post" "\<forall>e \<in> set (t # pre). foreign_text spec e"
          using i(1,2) em(1) f(1) by (auto simp: foreign_text_def)
        then show ?thesis unfolding if_P [OF True] using i(3-5) by blast
      next
        case False
        then show ?thesis using ih by simp
      qed
    next
      fix m2
      assume o: "\<not> foreign spec em" "decode_entry spec (entry_of em) m = (True, m2)" "st = (True, False, m2)"
      have "mt \<and> m1 = m2" using walk_matched [of spec es m2 mt m1] Cons.prems e True o(3) by simp
      then have mt: mt and m1: "m1 = m2" by simp_all
      have "t # es = [] @ t # es" "\<forall>e \<in> set []. foreign_text spec e" by simp_all
      then show ?thesis unfolding if_P [OF mt] m1 using em(1) o(1,2) by blast
    qed
  next
    case False
    then have "fst (snd st)" using c by auto
    then show ?thesis using Cons.prems e False by simp
  qed
qed simp

text \<open>
  The frame, as a book message of a kind: a JSON object of the \<open>book\<close> channel, whose \<open>data\<close> has an entry for the
  instrument, the first not of another instrument, which says the message.
\<close>

definition says_book :: "instrument_spec \<Rightarrow> message_kind \<Rightarrow> string \<Rightarrow> decoded_message \<Rightarrow> bool" where
  "says_book spec kind frame m \<longleftrightarrow>
     (\<exists>ms pre t post em.
        json_object frame ms \<and> string_equals (lookup ms ''channel'') ''book'' \<and>
        string_equals (lookup ms ''type'') (if kind = KindSnapshot then ''snapshot'' else ''update'') \<and>
        jv_type (lookup ms ''data'') = JsonArray \<and>
        json_array (jv_raw (lookup ms ''data'')) (pre @ t # post) \<and>
        (\<forall>e \<in> set pre. foreign_text spec e) \<and> json_object t em \<and> \<not> foreign spec em \<and> says_entry spec em m)"

lemma entry_step_stop:
  assumes "entry_step spec v (matched, failed, m) = (False, st)"
  shows "fst (snd st)"
proof -
  obtain w e where w: "for_each_member entry_member (jv_raw v) entry_fields0 = (w, e)" by (metis prod.collapse)
  obtain ok m1 where d: "decode_entry spec e m = (ok, m1)" by (metis prod.collapse)
  show ?thesis
    using assms unfolding entry_step_def prod.case w d
    by (cases w; cases ok) (auto simp only: bool.case prod.case fst_conv snd_conv prod.inject d split: if_splits)
qed

lemma decode_data_ok:
  assumes "decode_data spec data m = m1" "dm_ok m1" "dm_kind m1 \<noteq> KindIgnored"
    "\<not> dm_has_checksum m" "dm_levels m = []"
  shows "\<exists>pre t post em. jv_type data = JsonArray \<and> json_array (jv_raw data) (pre @ t # post) \<and>
     (\<forall>e \<in> set pre. foreign_text spec e) \<and> json_object t em \<and> \<not> foreign spec em \<and> says_entry spec em m1 \<and>
     length (dm_levels m1) \<le> kMaxLevelsPerMessage \<and> dm_has_ids m1 = dm_has_ids m \<and>
     dm_kind m1 = dm_kind m"
proof -
  have fd: "\<not> dm_ok (fail_decoded x)" "\<not> dm_ok (fail DecodeMalformed x)" for x
    by (auto simp: fail_decoded_def fail_def dm_ok_def)
  have a: "jv_type data = JsonArray" using assms(1,2) fd by (auto simp: decode_data_def split: if_splits)
  obtain mt x where f: "for_each (entry_step spec) (jv_raw data) (False, False, m) = (True, (mt, False, x))"
      and m1: "m1 = (if mt then x else x\<lparr>dm_kind := KindIgnored, dm_levels := []\<rparr>)"
    using assms(1,2) fd by (auto simp: decode_data_def split: if_splits prod.splits)
  have mt: mt using m1 assms(3) by (cases mt) auto
  have "\<not> (\<exists>v st. entry_step spec v st = (False, (mt, False, x)))"
    using entry_step_stop by (metis fst_conv snd_conv prod.collapse)
  then obtain es where es: "json_array (jv_raw data) es" using for_each_sound [OF f] by blast
  have w: "snd (walk_members (\<lambda>_. entry_step spec) (map (Pair []) es) (False, False, m)) = (mt, False, x)"
    using for_each_array [OF es, of "entry_step spec" "(False, False, m)"] f by simp
  obtain pre t post em where p: "es = pre @ t # post" "\<forall>e \<in> set pre. foreign_text spec e" "json_object t em"
      "\<not> foreign spec em" "decode_entry spec (entry_of em) m = (True, x)"
    using walk_entries [OF w] mt by auto
  show ?thesis
    using decode_entry_ok [OF p(5) assms(4,5)] p es a m1 mt by auto
qed

lemma frame_walk:
  assumes "for_each_member frame_member frame frame_fields0 = (True, f)"
  shows "\<exists>ms. json_object frame ms \<and>
     f = \<lparr>ff_error = lookup ms ''error'', ff_success = lookup ms ''success'', ff_method = lookup ms ''method'',
       ff_channel = lookup ms ''channel'', ff_type = lookup ms ''type'', ff_data = lookup ms ''data''\<rparr>"
proof -
  obtain ms where ms: "json_object frame ms" "members_ok ms" "f = snd (walk_members frame_member ms frame_fields0)"
    using walked_object [OF assms members_keep_going(3)] .
  then show ?thesis
    using walk_frame_member [OF ms(2), of frame_fields0]
    by (intro exI [of _ ms]) (simp add: frame_fields0_def capture_in_simps)
qed

definition book_kind :: "message_kind \<Rightarrow> bool" where
  "book_kind k \<longleftrightarrow> k = KindSnapshot \<or> k = KindUpdate"

definition base_message :: "message_kind \<Rightarrow> decoded_message" where
  "base_message k = decoded_message_reset\<lparr>dm_kind := k\<rparr>"

lemma base_message_fields [simp]:
  "dm_ok (base_message k)" "dm_levels (base_message k) = []" "\<not> dm_has_checksum (base_message k)"
  "dm_kind (base_message k) = k" "\<not> dm_has_ids (base_message k)"
  by (simp_all add: base_message_def decoded_message_reset_def dm_ok_def)

lemma frame_chain:
  "m = (if a then v1 else if b then v2 else if c then i else if d then i else if \<not> e then i else if f then d1
     else if g then d2 else i) \<Longrightarrow>
   m = i \<or> m = v1 \<or> m = v2 \<or> (e \<and> f \<and> m = d1) \<or> (e \<and> g \<and> m = d2)"
  by (simp split: if_splits)

text \<open>The ways a frame can end.\<close>

lemma kraken_decode_cases:
  obtains (malformed) "kraken_decode spec frame = fail DecodeMalformed decoded_message_reset" "\<not> well_formed frame"
      "\<not> (\<exists>ms. json_object frame ms)"
  | (ignored) "kraken_decode spec frame = base_message KindIgnored" "well_formed frame \<or> (\<exists>ms. json_object frame ms)"
  | (refused) d ms where "kraken_decode spec frame = venue_error d decoded_message_reset" "json_object frame ms"
  | (book) k ms where "kraken_decode spec frame = decode_data spec (lookup ms ''data'') (base_message k)"
      "book_kind k" "json_object frame ms" "string_equals (lookup ms ''channel'') ''book''"
      "string_equals (lookup ms ''type'') (if k = KindSnapshot then ''snapshot'' else ''update'')"
proof (cases "for_each_member frame_member frame frame_fields0")
  case (Pair w f)
  show ?thesis
  proof (cases w)
    case False
    have "\<not> (\<exists>ms. json_object frame ms)"
      using for_each_member_object [of frame _ frame_member frame_fields0] Pair False by auto
    then show ?thesis
      using malformed ignored Pair False by (auto simp: kraken_decode_def base_message_def Let_def)
  next
    case True
    then obtain ms where ms: "json_object frame ms"
        "f = \<lparr>ff_error = lookup ms ''error'', ff_success = lookup ms ''success'', ff_method = lookup ms ''method'',
          ff_channel = lookup ms ''channel'', ff_type = lookup ms ''type'', ff_data = lookup ms ''data''\<rparr>"
      using frame_walk [of frame f] Pair by auto
    define m where "m = kraken_decode spec frame"
    let ?E = "lookup ms ''error''" and ?S = "lookup ms ''success''" and ?C = "lookup ms ''channel''"
      and ?T = "lookup ms ''type''" and ?D = "lookup ms ''data''"
    have "m = (if jv_ok ?E \<and> jv_type ?E = JsonString then venue_error (string_body ?E) decoded_message_reset
        else if jv_ok ?S \<and> jv_type ?S = JsonBool \<and> jv_raw ?S = ''false'' then
          venue_error (string_body (lookup ms ''method'')) decoded_message_reset
        else if \<not> jv_ok ?C then base_message KindIgnored
        else if string_equals ?C ''status'' \<or> string_equals ?C ''heartbeat'' then base_message KindIgnored
        else if \<not> string_equals ?C ''book'' then base_message KindIgnored
        else if string_equals ?T ''snapshot'' then decode_data spec ?D (base_message KindSnapshot)
        else if string_equals ?T ''update'' then decode_data spec ?D (base_message KindUpdate)
        else base_message KindIgnored)"
      unfolding m_def kraken_decode_def Let_def Pair prod.case ms(2) base_message_def
      using True by (simp only: bool.case frame_fields.simps)
    from frame_chain [OF this]
    have "m = base_message KindIgnored \<or> (\<exists>d. m = venue_error d decoded_message_reset) \<or>
        (\<exists>k. m = decode_data spec ?D (base_message k) \<and> book_kind k \<and> string_equals ?C ''book'' \<and>
           string_equals ?T (if k = KindSnapshot then ''snapshot'' else ''update''))"
      unfolding book_kind_def by (elim disjE conjE) (auto intro: exI [of _ KindSnapshot] exI [of _ KindUpdate])
    then show ?thesis using ignored refused book ms(1) unfolding m_def by blast
  qed
qed

lemma venue_error_fields [simp]:
  "dm_levels (venue_error d m) = []" "dm_kind (venue_error d m) = KindVenueError" "dm_ok (venue_error d m) = dm_ok m"
  by (simp_all add: venue_error_def dm_ok_def)

lemma decode_data_shape:
  assumes "dm_ok m" "\<not> dm_has_checksum m" "dm_levels m = []"
  shows "dm_levels (decode_data spec data m) = [] \<or>
     dm_ok (decode_data spec data m) \<and> dm_kind (decode_data spec data m) = dm_kind m"
proof -
  obtain wk mt fl x where f: "for_each (entry_step spec) (jv_raw data) (False, False, m) = (wk, (mt, fl, x))"
    by (metis prod.collapse)
  show ?thesis
  proof (cases "\<not> jv_ok data \<or> jv_type data \<noteq> JsonArray \<or> \<not> wk \<or> fl \<or> \<not> mt")
    case True
    then show ?thesis using f by (auto simp: decode_data_def)
  next
    case False
    then have r: "decode_data spec data m = x" and g: "for_each (entry_step spec) (jv_raw data) (False, False, m) = (True, (True, False, x))"
      using f by (simp_all add: decode_data_def)
    have "\<not> (\<exists>v st. entry_step spec v st = (False, (True, False, x)))"
      using entry_step_stop by (metis fst_conv snd_conv prod.collapse)
    then obtain es where es: "json_array (jv_raw data) es" using for_each_sound [OF g] by blast
    have w: "snd (walk_members (\<lambda>_. entry_step spec) (map (Pair []) es) (False, False, m)) = (True, False, x)"
      using for_each_array [OF es, of "entry_step spec" "(False, False, m)"] g by simp
    obtain em where "decode_entry spec (entry_of em) m = (True, x)" using walk_entries [OF w] by auto
    then have "dm_error x = dm_error m" "dm_kind x = dm_kind m" using decode_entry_ok [OF _ assms(2,3)] by blast+
    then show ?thesis using assms r by (simp add: dm_ok_def)
  qed
qed

lemma kraken_book:
  assumes "dm_ok (kraken_decode spec frame)" "book_kind (dm_kind (kraken_decode spec frame))"
  shows "says_book spec (dm_kind (kraken_decode spec frame)) frame (kraken_decode spec frame) \<and>
     length (dm_levels (kraken_decode spec frame)) \<le> kMaxLevelsPerMessage \<and> \<not> dm_has_ids (kraken_decode spec frame)"
proof (cases rule: kraken_decode_cases [of spec frame])
  case malformed
  then show ?thesis using assms by simp
next
  case ignored
  then show ?thesis using assms by (simp add: book_kind_def)
next
  case (refused d ms)
  then show ?thesis using assms by (simp add: book_kind_def)
next
  case (book k ms)
  have "dm_kind (kraken_decode spec frame) \<noteq> KindIgnored" using assms(2) by (auto simp: book_kind_def)
  from decode_data_ok [OF book(1) [symmetric] assms(1) this] obtain pre t post em where d:
      "jv_type (lookup ms ''data'') = JsonArray" "json_array (jv_raw (lookup ms ''data'')) (pre @ t # post)"
      "\<forall>e \<in> set pre. foreign_text spec e" "json_object t em" "\<not> foreign spec em"
      "says_entry spec em (kraken_decode spec frame)" "length (dm_levels (kraken_decode spec frame)) \<le> kMaxLevelsPerMessage"
      "\<not> dm_has_ids (kraken_decode spec frame)" "dm_kind (kraken_decode spec frame) = k"
    by auto
  then show ?thesis using book(3-5) unfolding says_book_def d(9) by blast
qed

lemma kraken_empty:
  assumes "\<not> dm_ok (kraken_decode spec frame) \<or> \<not> book_kind (dm_kind (kraken_decode spec frame))"
  shows "dm_levels (kraken_decode spec frame) = []"
proof (cases rule: kraken_decode_cases [of spec frame])
  case (book k ms)
  then show ?thesis using assms decode_data_shape [of "base_message k" spec "lookup ms ''data''"] by auto
qed (simp_all)

text \<open>The levels fit the fields that hold them.\<close>

lemma side_levels_i64: "side_levels spec side v ls \<Longrightarrow> l \<in> set ls \<Longrightarrow> i64 (ticks (lu_price l)) \<and> i64 (units (lu_qty l))"
  using kraken_side.levels_fit by (auto simp: side_levels_def split: if_splits)

lemma kraken_decoder_ok: "decoder_ok kraken_decoder"
proof -
  have "message_ok (kraken_decode spec frame)" for spec frame
  proof (cases "dm_ok (kraken_decode spec frame) \<and> book_kind (dm_kind (kraken_decode spec frame))")
    case True
    then show ?thesis
      using kraken_book [of spec frame] side_levels_i64
      by (auto simp: says_book_def says_entry_def message_ok_def)
  next
    case False
    then show ?thesis using kraken_empty [of spec frame] by (auto simp: message_ok_def)
  qed
  then show ?thesis by (simp add: decoder_ok_def kraken_decoder_def)
qed

section \<open>Properties\<close>

text \<open>
  C5: an accepted book message is what the frame says.  When \<open>decode\<close> returns a snapshot or an update without an
  error, the frame is a JSON object of the book channel of that type, its \<open>data\<close> array has an entry for the
  instrument and every entry before it is another instrument's; the time stamp is that of the entry, to the
  nanosecond; a checksum member makes the message carry exactly that checksum, and only its absence makes it carry
  none; and the levels are those of the entry's two arrays, in order, none missing, each with the very digits of
  its two tokens.
\<close>

theorem kraken_reads_the_frame:
  assumes "dm_ok (kraken_decode spec frame)" "book_kind (dm_kind (kraken_decode spec frame))"
  shows "says_book spec (dm_kind (kraken_decode spec frame)) frame (kraken_decode spec frame) \<and>
     length (dm_levels (kraken_decode spec frame)) \<le> kMaxLevelsPerMessage \<and> \<not> dm_has_ids (kraken_decode spec frame)"
  by (rule kraken_book [OF assms])

definition btc_spec :: instrument_spec where
  "btc_spec = \<lparr>is_symbol = ''BTC/USD'', is_price_scale = 1, is_qty_scale = 2\<rparr>"

definition kraken_frame :: string where
  "kraken_frame = quoted (''{~channel~:~book~,~type~:~snapshot~,~data~:[{~symbol~:~ETH/USD~},'' @
     ''{~symbol~:~BTC/USD~,~bids~:[{~price~:45.5,~qty~:0.50}],~checksum~:77,~timestamp~:~2026-07-31T12:00:00.5Z~}]}'')"

definition kraken_garbage :: string where "kraken_garbage = quoted ''{~channel~:~book~,~data~:[{]}''"

lemma kraken_frame_decoded:
  "kraken_decode btc_spec kraken_frame = (base_message KindSnapshot)
     \<lparr>dm_symbol := ''BTC/USD'', dm_ts := 1785499200500000000, dm_checksum := 77, dm_has_checksum := True,
      dm_levels := [level_update Bid (Price 455) (Qty 50)]\<rparr>"
  by code_simp

theorem kraken_reads_the_frame_witness:
  "says_book btc_spec KindSnapshot kraken_frame (kraken_decode btc_spec kraken_frame)"
proof -
  have "dm_ok (kraken_decode btc_spec kraken_frame)" "dm_kind (kraken_decode btc_spec kraken_frame) = KindSnapshot"
    unfolding kraken_frame_decoded by (simp_all add: base_message_def decoded_message_reset_def dm_ok_def)
  then show ?thesis using kraken_reads_the_frame [of btc_spec kraken_frame] by (simp add: book_kind_def)
qed



text \<open>
  C3: an applied Kraken frame is verified against the exchange.  When a feed with this decoder reports a frame as
  applied, whatever container holds the book, the frame is a book frame with a message as above, the book carries
  its time stamp, and when the frame has a checksum member the checksum of the updated book is that very number.
\<close>

theorem kraken_applied_is_verified:
  assumes "handle impl kraken_decoder frame f = Some (FeedApplied, f')"
  shows "\<exists>m. says_book (fd_decoder f) (dm_kind m) frame m \<and> fd_synced f' \<and> bk_last_update (fd_book f') = dm_ts m \<and>
     (dm_has_checksum m \<longrightarrow> kraken_checksum impl (fd_book f') = dm_checksum m)"
proof -
  let ?m = "kraken_decode (fd_decoder f) frame"
  have d: "fst (dec_decode kraken_decoder frame (fd_decoder f)) = ?m" by (simp add: kraken_decoder_def)
  have ok: "dm_ok ?m \<and> book_kind (dm_kind ?m)"
    using assms by (cases "dm_kind ?m") (auto simp: handle_def kraken_decoder_def Let_def book_kind_def split: if_splits)
  show ?thesis
    using status_facts [OF assms] kraken_book [of "fd_decoder f" frame] ok unfolding d by blast
qed

definition kraken_frame_2 :: string where
  "kraken_frame_2 = quoted (''{~channel~:~book~,~type~:~snapshot~,~data~:['' @
     ''{~symbol~:~BTC/USD~,~bids~:[{~price~:45.5,~qty~:0.50}],~checksum~:4080940201,~timestamp~:~2026-07-31T12:00:00Z~}]}'')"

definition kraken_message_2 :: decoded_message where
  "kraken_message_2 = (base_message KindSnapshot)
     \<lparr>dm_symbol := ''BTC/USD'', dm_ts := 1785499200000000000, dm_checksum := 4080940201, dm_has_checksum := True,
      dm_levels := [level_update Bid (Price 455) (Qty 50)]\<rparr>"

lemma kraken_frame_2_decoded: "kraken_decode btc_spec kraken_frame_2 = kraken_message_2"
  by code_simp

definition kraken_feed :: "(map_side, instrument_spec) feed" where
  "kraken_feed = feed_new map_impl kraken_decoder ''kraken'' btc_spec StrictIncrement 0"

lemma crc_45550: "crc_value (crc_update (bytes_of ''45550'') kCrcInit) = 4080940201"
proof -
  have "message_bits (bytes_of ''45550'') =
      [False, False, True, False, True, True, False, False, True, False, True, False, True, True, False, False,
       True, False, True, False, True, True, False, False, True, False, True, False, True, True, False, False,
       False, False, False, False, True, True, False, False]"
    by code_simp
  moreover have "fold crc_serial \<dots> kCrcInit = 214027094"
    by (simp add: crc_serial_def kCrcPolynomial_def kCrcInit_def)
  ultimately have "fold crc_serial (message_bits (bytes_of ''45550'')) kCrcInit = 214027094" by (simp only:)
  then show ?thesis by (simp add: crc_value_def crc_update_serial)
qed

lemma kraken_frame_2_applied: "map_option fst (handle map_impl kraken_decoder kraken_frame_2 kraken_feed) = Some FeedApplied"
proof -
  let ?f1 = "kraken_feed\<lparr>fd_stats := (fd_stats kraken_feed)\<lparr>fs_frames := fs_frames (fd_stats kraken_feed) + 1\<rparr>, fd_decoder := btc_spec\<rparr>"
  let ?r = "apply_levels map_impl kraken_message_2 (?f1\<lparr>fd_book := book_clear map_impl (fd_book ?f1)\<rparr>)"
  have "map_option (\<lambda>g. kraken_checksum_payload map_impl (fd_book g)) ?r = Some ''45550''" by code_simp
  then obtain g where g: "?r = Some g" "kraken_checksum_payload map_impl (fd_book g) = ''45550''"
    by (auto simp: map_option_case split: option.splits)
  have m: "dm_ok kraken_message_2" "dm_kind kraken_message_2 = KindSnapshot" "\<not> dm_has_ids kraken_message_2"
      "dm_checksum kraken_message_2 = 4080940201"
    by (simp_all add: kraken_message_2_def base_message_def decoded_message_reset_def dm_ok_def)
  have "kraken_checksum map_impl (fd_book g) = 4080940201" unfolding kraken_checksum_def g(2) by (rule crc_45550)
  moreover have "fd_decoder kraken_feed = btc_spec" by (simp add: kraken_feed_def feed_new_def)
  ultimately show ?thesis
    using g(1) m kraken_frame_2_decoded
    by (simp add: handle_def kraken_decoder_def apply_snapshot_message_def Let_def)
qed

theorem kraken_applied_is_verified_witness:
  "\<exists>f' m. handle map_impl kraken_decoder kraken_frame_2 kraken_feed = Some (FeedApplied, f') \<and>
     says_book btc_spec (dm_kind m) kraken_frame_2 m \<and> fd_synced f'"
proof -
  obtain f' where h: "handle map_impl kraken_decoder kraken_frame_2 kraken_feed = Some (FeedApplied, f')"
    using kraken_frame_2_applied by (auto simp: map_option_case split: option.splits)
  have "fd_decoder kraken_feed = btc_spec" by (simp add: kraken_feed_def feed_new_def)
  then show ?thesis using kraken_applied_is_verified [OF h] h by auto
qed

text \<open>
  two feeds on the Kraken decoder, one over the array book and one over the reference book, that start new and
  see the same frames, answer every frame, with the same statuses, and end with the same log, statistics and sync
  flag and the same levels on both sides: nothing the decoder can produce makes the fast container differ.
\<close>

theorem kraken_feeds_agree:
  "\<exists>sts a b.
     handle_all (array_impl kDefaultSlots) kraken_decoder frames
       (feed_new (array_impl kDefaultSlots) kraken_decoder venue spec policy n) = Some (sts, a) \<and>
     handle_all map_impl kraken_decoder frames (feed_new map_impl kraken_decoder venue spec policy n) = Some (sts, b) \<and>
     feed_view a = feed_view b \<and>
     (\<forall>s. si_levels (array_impl kDefaultSlots) (book_side_of s (fd_book a)) =
        si_levels map_impl (book_side_of s (fd_book b)))"
proof -
  obtain sts a b m where r:
    "handle_all (array_impl kDefaultSlots) kraken_decoder frames
       (feed_new (array_impl kDefaultSlots) kraken_decoder venue spec policy n) = Some (sts, a)"
    "handle_all map_impl kraken_decoder frames (feed_new map_impl kraken_decoder venue spec policy n) = Some (sts, b)"
    "feed_sim array_holds a b m"
    using array_side.sim_handle_all [OF array_side.sim_new kraken_decoder_ok] by blast
  then show ?thesis
    using array_side.rep_levels [of "fd_book a" m] map_side.rep_levels [of "fd_book b" m]
    by (auto simp: feed_sim_def)
qed

end
