(* ===== verification/Binance.thy ===== *)
theory Binance
  imports Decode_Common
begin

text \<open>
  The Binance decoder, \<open>class BinanceDepthDecoder\<close> of \<open>include/crossbook/venues/binance.hpp\<close>: diff-depth frames,
  bare or in a combined-stream envelope, and the REST snapshot that starts a book.  As in the Kraken decoder the
  message is threaded through the callbacks of the walks.
\<close>

section \<open>The code\<close>

datatype binance_market = Spot | Futures

definition kMaxEventMs :: u64 where "kMaxEventMs = word_of_int (i64_max sdiv 1000000)"

definition binance_policy :: "binance_market \<Rightarrow> sequence_policy" where
  "binance_policy market = (if market = Spot then BinanceSpot else BinanceFutures)"

record payload_fields =
  pf_event :: json_value
  pf_code :: json_value
  pf_msg :: json_value
  pf_symbol :: json_value
  pf_event_ms :: json_value
  pf_first_id :: json_value
  pf_final_id :: json_value
  pf_prev_id :: json_value
  pf_bids :: json_value
  pf_asks :: json_value

definition payload_fields0 :: payload_fields where
  "payload_fields0 = \<lparr>pf_event = json_value0, pf_code = json_value0, pf_msg = json_value0, pf_symbol = json_value0,
     pf_event_ms = json_value0, pf_first_id = json_value0, pf_final_id = json_value0, pf_prev_id = json_value0,
     pf_bids = json_value0, pf_asks = json_value0\<rparr>"

definition consume :: "payload_fields member_fn" where
  "consume key v f =
     (True,
      if key = ''e'' then f\<lparr>pf_event := capture (pf_event f) v\<rparr>
      else if key = ''code'' then f\<lparr>pf_code := capture (pf_code f) v\<rparr>
      else if key = ''msg'' then f\<lparr>pf_msg := capture (pf_msg f) v\<rparr>
      else if key = ''s'' then f\<lparr>pf_symbol := capture (pf_symbol f) v\<rparr>
      else if key = ''E'' then f\<lparr>pf_event_ms := capture (pf_event_ms f) v\<rparr>
      else if key = ''U'' then f\<lparr>pf_first_id := capture (pf_first_id f) v\<rparr>
      else if key = ''u'' then f\<lparr>pf_final_id := capture (pf_final_id f) v\<rparr>
      else if key = ''pu'' then f\<lparr>pf_prev_id := capture (pf_prev_id f) v\<rparr>
      else if key = ''b'' then f\<lparr>pf_bids := capture (pf_bids f) v\<rparr>
      else if key = ''a'' then f\<lparr>pf_asks := capture (pf_asks f) v\<rparr>
      else f)"

definition fold_case :: "char \<Rightarrow> char" where
  "fold_case c = (if CHR ''A'' \<le> c \<and> c \<le> CHR ''Z'' then char_of (of_char c - 65 + 97 :: nat) else c)"

fun same_folded :: "string \<Rightarrow> string \<Rightarrow> bool" where
  "same_folded (a # as) (b # bs) = (if fold_case a \<noteq> fold_case b then False else same_folded as bs)"
| "same_folded _ _ = True"

definition equals_ignore_case :: "string \<Rightarrow> string \<Rightarrow> bool" where
  "equals_ignore_case a b = (if length a \<noteq> length b then False else same_folded a b)"

text \<open>The first two fields of a level: how many were seen, and their tokens.\<close>

definition pair_step :: "json_value \<Rightarrow> nat \<times> string \<times> string \<Rightarrow> bool \<times> (nat \<times> string \<times> string)" where
  "pair_step field st =
     (case st of (seen, price_token, qty_token) \<Rightarrow>
        let p = (if seen = 0 then number_token field else price_token);
            q = (if seen = 1 then number_token field else qty_token)
        in (seen + 1 < 2, (seen + 1, p, q)))"

definition binance_decode_level ::
    "instrument_spec \<Rightarrow> side \<Rightarrow> json_value \<Rightarrow> bool \<times> decoded_message \<Rightarrow> bool \<times> (bool \<times> decoded_message)" where
  "binance_decode_level spec side level st =
     (case st of (failed, m) \<Rightarrow>
        if jv_type level \<noteq> JsonArray then (False, (True, m))
        else if length (dm_levels m) \<ge> kMaxLevelsPerMessage then
          (False, (True, m\<lparr>dm_error := DecodeTooManyLevels\<rparr>))
        else
          (case for_each pair_step (jv_raw level) (0, [], []) of
             (pair_ok, (_, price_token, qty_token)) \<Rightarrow>
               if \<not> pair_ok \<or> price_token = [] \<or> qty_token = [] then (False, (True, m))
               else
                 (let price = parse_fixed price_token (is_price_scale spec) in
                  if \<not> pr_ok price then (False, (True, token_error price price_token m))
                  else
                    (let qty = parse_fixed qty_token (is_qty_scale spec) in
                     if \<not> pr_ok qty then (False, (True, token_error qty qty_token m))
                     else if \<not> is_canonical_parsed price_token (is_price_scale spec) (pr_mantissa price) then
                       (False, (True, m\<lparr>dm_error := DecodeNonCanonical, dm_bad_token := price_token\<rparr>))
                     else if \<not> is_canonical_parsed qty_token (is_qty_scale spec) (pr_mantissa qty) then
                       (False, (True, m\<lparr>dm_error := DecodeNonCanonical, dm_bad_token := qty_token\<rparr>))
                     else
                       (True, (failed, m\<lparr>dm_levels := dm_levels m @
                          [level_update side (Price (pr_mantissa price)) (Qty (pr_mantissa qty))]\<rparr>))))))"

definition binance_decode_side ::
    "instrument_spec \<Rightarrow> json_value \<Rightarrow> side \<Rightarrow> decoded_message \<Rightarrow> bool \<times> decoded_message" where
  "binance_decode_side spec array side m =
     (if \<not> jv_ok array then (True, m)
      else if jv_type array \<noteq> JsonArray then (False, m)
      else
        (case for_each (binance_decode_level spec side) (jv_raw array) (False, m) of
           (walked, (failed, m1)) \<Rightarrow> (walked \<and> \<not> failed, m1)))"

definition decode_sides ::
    "instrument_spec \<Rightarrow> json_value \<Rightarrow> json_value \<Rightarrow> decoded_message \<Rightarrow> decoded_message" where
  "decode_sides spec bids asks m =
     (case binance_decode_side spec bids Bid m of
        (False, m1) \<Rightarrow> fail_decoded m1
      | (True, m1) \<Rightarrow>
          (case binance_decode_side spec asks Ask m1 of
             (False, m2) \<Rightarrow> fail_decoded m2
           | (True, m2) \<Rightarrow> m2))"

text \<open>The frame's fields, with the envelope kept apart.\<close>

definition envelope_member :: "(payload_fields \<times> json_value) member_fn" where
  "envelope_member key v st =
     (case st of (outer, wrapped) \<Rightarrow>
        if key = ''data'' then (True, (outer, capture wrapped v))
        else (case consume key v outer of (go, outer1) \<Rightarrow> (go, (outer1, wrapped))))"

definition event_time :: "payload_fields \<Rightarrow> decoded_message \<Rightarrow> decoded_message" where
  "event_time f m =
     (case parse_u64 (number_token (pf_event_ms f)) of
        None \<Rightarrow> m
      | Some ms \<Rightarrow> if ms \<le> kMaxEventMs then m\<lparr>dm_ts := uint ms * 1000000\<rparr> else m)"

definition decode_payload ::
    "instrument_spec \<Rightarrow> binance_market \<Rightarrow> payload_fields \<Rightarrow> decoded_message \<Rightarrow> decoded_message" where
  "decode_payload spec market f m0 =
     (if \<not> jv_ok (pf_event f) then
        (if jv_ok (pf_code f) \<and> jv_type (pf_code f) = JsonNumber \<and> jv_ok (pf_msg f) then
           m0\<lparr>dm_kind := KindVenueError, dm_bad_token := string_body (pf_msg f)\<rparr>
         else m0\<lparr>dm_kind := KindIgnored\<rparr>)
      else if \<not> string_equals (pf_event f) ''depthUpdate'' then m0\<lparr>dm_kind := KindIgnored\<rparr>
      else
        (let m = m0\<lparr>dm_symbol := string_body (pf_symbol f)\<rparr> in
         if dm_symbol m \<noteq> [] \<and> \<not> equals_ignore_case (dm_symbol m) (is_symbol spec) then
           m\<lparr>dm_kind := KindIgnored, dm_symbol := []\<rparr>
         else
           (let m1 = event_time f (m\<lparr>dm_kind := KindUpdate\<rparr>) in
            case (parse_u64 (number_token (pf_first_id f)), parse_u64 (number_token (pf_final_id f))) of
              (Some first, Some final) \<Rightarrow>
                (let m2 = m1\<lparr>dm_ids := (dm_ids m1)\<lparr>first_id := first, final_id := final\<rparr>\<rparr> in
                 if market = Futures then
                   (case parse_u64 (number_token (pf_prev_id f)) of
                      None \<Rightarrow> fail DecodeBadSequence m2
                    | Some prev \<Rightarrow>
                        decode_sides spec (pf_bids f) (pf_asks f)
                          (m2\<lparr>dm_ids := (dm_ids m2)\<lparr>prev_id := prev\<rparr>, dm_has_ids := True\<rparr>))
                 else decode_sides spec (pf_bids f) (pf_asks f) (m2\<lparr>dm_has_ids := True\<rparr>))
            | _ \<Rightarrow> fail DecodeBadSequence m1)))"

definition binance_decode :: "instrument_spec \<Rightarrow> binance_market \<Rightarrow> string \<Rightarrow> decoded_message" where
  "binance_decode spec market frame =
     (let m = decoded_message_reset in
      case for_each_member envelope_member frame (payload_fields0, json_value0) of
        (False, _) \<Rightarrow>
          if well_formed frame then m\<lparr>dm_kind := KindIgnored\<rparr> else fail DecodeMalformed m
      | (True, (outer, wrapped)) \<Rightarrow>
          if jv_ok wrapped \<and> jv_type wrapped = JsonObject then
            (case for_each_member consume (jv_raw wrapped) payload_fields0 of
               (False, _) \<Rightarrow> fail DecodeMalformed m
             | (True, f) \<Rightarrow> decode_payload spec market f m)
          else decode_payload spec market outer m)"

definition snapshot_member :: "(json_value \<times> json_value \<times> json_value) member_fn" where
  "snapshot_member key v st =
     (case st of (last_id, bids, asks) \<Rightarrow>
        (True,
         if key = ''lastUpdateId'' then (capture last_id v, bids, asks)
         else if key = ''bids'' then (last_id, capture bids v, asks)
         else if key = ''asks'' then (last_id, bids, capture asks v)
         else st))"

definition binance_decode_snapshot :: "instrument_spec \<Rightarrow> string \<Rightarrow> decoded_message" where
  "binance_decode_snapshot spec body =
     (let m = decoded_message_reset\<lparr>dm_kind := KindSnapshot\<rparr> in
      case for_each_member snapshot_member body (json_value0, json_value0, json_value0) of
        (False, _) \<Rightarrow> fail (if well_formed body then DecodeBadSequence else DecodeMalformed) m
      | (True, (last_id, bids, asks)) \<Rightarrow>
          (case parse_u64 (number_token last_id) of
             None \<Rightarrow> fail DecodeBadSequence m
           | Some n \<Rightarrow>
               decode_sides spec bids asks
                 (m\<lparr>dm_ids := \<lparr>first_id = n, final_id = n, prev_id = n\<rparr>, dm_has_ids := True\<rparr>)))"

text \<open>The decoder as the feed uses it.\<close>

definition binance_decoder :: "(instrument_spec \<times> binance_market) decoder" where
  "binance_decoder = \<lparr>dec_decode = (\<lambda>frame d. (binance_decode (fst d) (snd d) frame, d)), dec_spec = fst\<rparr>"

section \<open>Levels\<close>

lemma binance_level_tokens:
  "binance_decode_level spec side level (failed, m) =
     (if jv_type level \<noteq> JsonArray then (False, (True, m))
      else if length (dm_levels m) \<ge> kMaxLevelsPerMessage then (False, (True, m\<lparr>dm_error := DecodeTooManyLevels\<rparr>))
      else
        (case for_each pair_step (jv_raw level) (0, [], []) of
           (pair_ok, (_, p, q)) \<Rightarrow>
             if \<not> pair_ok then (False, (True, m))
             else
               (case decode_tokens spec side p q m of
                  (True, m1) \<Rightarrow> (False, (True, m1))
                | (False, m1) \<Rightarrow> (True, (failed, m1)))))"
  by (auto simp: binance_decode_level_def decode_tokens_def Let_def split: prod.split)

text \<open>A value whose type is array is an array.\<close>

lemma text_is_array:
  assumes "json_text n t" "n \<le> 33" "jv_type (value_text t) = JsonArray"
  shows "\<exists>es. json_array t es"
  using assms(1)
proof (cases rule: json_text.cases)
  case (text_string k)
  then show ?thesis using assms(3) value_text_string [of k t] by simp
next
  case (text_scalar)
  then obtain c u where t: "t = c # u" "plain_char c" using scalar_plain [of t] by (cases t) auto
  then have "\<not> json_space c" "c \<noteq> CHR ''[''" by (auto simp: plain_char_def json_stop_def)
  then show ?thesis using assms(3) t(1)
    by (simp add: value_text_def classify_def skip_space_Cons Let_def split: if_splits)
next
  case (text_empty c w)
  then have "c = CHR ''[''" using assms(3)
    by (auto simp: value_text_def classify_def skip_space_Cons not_space Let_def)
  then have "json_array t []" unfolding json_array_def
    using text_empty by (intro exI [of _ "[]"] exI [of _ w]) (simp add: closing_def)
  then show ?thesis by blast
next
  case (text_list c n' u ms)
  then have c: "c = CHR ''[''" using assms(3)
    by (auto simp: value_text_def classify_def skip_space_Cons not_space Let_def)
  have "fst m = []" if "m \<in> set ms" for m
    using text_list(4) c that by (induction rule: json_list_induct) (auto simp: json_label_def)
  then have ms: "ms = map (Pair []) (map snd ms)" by (simp add: map_idI prod_eq_iff)
  have "json_list 33 CHR ''['' u (map (Pair []) (map snd ms))"
    using json_list_mono [OF text_list(4), of 33] text_list(1) assms(2) c ms by simp
  then have "json_array t (map snd ms)" unfolding json_array_def
    using text_list(2) c by (intro exI [of _ "[]"] exI [of _ u]) (simp add: closing_def)
  then show ?thesis by blast
qed

definition binance_level :: "instrument_spec \<Rightarrow> side \<Rightarrow> string \<Rightarrow> level_update \<Rightarrow> bool" where
  "binance_level spec side t l \<longleftrightarrow>
     (\<exists>p q rest. json_array t (p # q # rest) \<and>
        wire_level spec side (number_token (value_text p)) (number_token (value_text q)) l)"

lemma pair_walk:
  "snd (walk_members (\<lambda>_. pair_step) (map (Pair []) es) (0, [], [])) =
     (case es of [] \<Rightarrow> (0, [], []) | [p] \<Rightarrow> (1, number_token (value_text p), [])
      | p # q # _ \<Rightarrow> (2, number_token (value_text p), number_token (value_text q)))"
  by (simp add: pair_step_def split: list.split)

lemma binance_level_go:
  assumes "json_text 33 t" "binance_decode_level spec side (value_text t) (False, m) = (True, st)"
  shows "\<exists>l. binance_level spec side t l \<and> st = (False, m\<lparr>dm_levels := dm_levels m @ [l]\<rparr>) \<and>
     length (dm_levels m) < kMaxLevelsPerMessage"
proof -
  have a: "jv_type (value_text t) = JsonArray"
    using assms(2) unfolding binance_level_tokens by (auto split: if_splits)
  obtain es where es: "json_array t es" using text_is_array [OF assms(1) order_refl a] by blast
  define w where "w = snd (walk_members (\<lambda>_. pair_step) (map (Pair []) es) (0, [], []))"
  obtain k p q where w: "w = (k, p, q)" by (cases w) auto
  have fe: "for_each pair_step (jv_raw (value_text t)) (0, [], []) = (True, (k, p, q))"
    using for_each_array [OF es, of pair_step "(0, [], [])"] w unfolding w_def by (simp add: value_text_def)
  obtain fl m1 where dt: "decode_tokens spec side p q m = (fl, m1)" by (metis prod.collapse)
  have s: "\<not> fl" "st = (False, m1)" "length (dm_levels m) < kMaxLevelsPerMessage"
    using assms(2) a unfolding binance_level_tokens fe prod.case dt by (cases fl; simp split: if_splits)+
  have ne: "p \<noteq> []" "q \<noteq> []" using dt s(1) by (auto simp: decode_tokens_def split: if_splits)
  obtain x y rest where xy: "es = x # y # rest" "p = number_token (value_text x)" "q = number_token (value_text y)"
    using w ne unfolding w_def pair_walk by (auto split: list.splits)
  obtain l where "m1 = m\<lparr>dm_levels := dm_levels m @ [l]\<rparr>" "wire_level spec side p q l"
    using decode_tokens_ok [of spec side p q m m1] dt s(1) by auto
  then show ?thesis using s es xy unfolding binance_level_def by blast
qed

lemma binance_level_stop:
  assumes "binance_decode_level spec side v (failed, m) = (False, st)"
  shows "fst st"
proof -
  obtain w k p q where fe: "for_each pair_step (jv_raw v) (0, [], []) = (w, (k, p, q))" by (metis prod.collapse)
  obtain fl m1 where dt: "decode_tokens spec side p q m = (fl, m1)" by (metis prod.collapse)
  show ?thesis
    using assms unfolding binance_level_tokens fe prod.case
    by (cases w; cases fl) (auto simp only: dt if_True if_False bool.case prod.case fst_conv prod.inject not_True_eq_False
        not_False_eq_True split: if_splits)
qed

interpretation binance_side: level_decoder "binance_decode_level spec" "binance_level spec" for spec
proof unfold_locales
  show "\<exists>l. binance_level spec side t l \<and> st = (False, m\<lparr>dm_levels := dm_levels m @ [l]\<rparr>) \<and>
      length (dm_levels m) < kMaxLevelsPerMessage"
    if "json_text 33 t" "binance_decode_level spec side (value_text t) (False, m) = (True, st)" for side t m st
    using that by (rule binance_level_go)
  show "fst st" if "binance_decode_level spec side v (failed, m) = (False, st)" for side v failed m st
    using that by (rule binance_level_stop)
  show "i64 (ticks (lu_price l)) \<and> i64 (units (lu_qty l))" if "binance_level spec side t l" for side t l
    using that wire_level_i64 unfolding binance_level_def by blast
qed

definition binance_side_levels :: "instrument_spec \<Rightarrow> side \<Rightarrow> json_value \<Rightarrow> level_update list \<Rightarrow> bool" where
  "binance_side_levels spec side v ls \<longleftrightarrow>
     (if jv_ok v then
        jv_type v = JsonArray \<and> (\<exists>es. json_array (jv_raw v) es \<and> list_all2 (binance_level spec side) es ls)
      else ls = [])"

lemma binance_decode_side_ok:
  assumes "binance_decode_side spec v side m = (True, m1)" "length (dm_levels m) \<le> kMaxLevelsPerMessage"
  shows "\<exists>ls. binance_side_levels spec side v ls \<and> m1 = m\<lparr>dm_levels := dm_levels m @ ls\<rparr> \<and>
     length (dm_levels m1) \<le> kMaxLevelsPerMessage"
proof (cases "jv_ok v")
  case False
  then show ?thesis using assms by (intro exI [of _ "[]"]) (simp add: binance_decode_side_def binance_side_levels_def)
next
  case True
  then have f: "for_each (binance_decode_level spec side) (jv_raw v) (False, m) = (True, (False, m1))"
      and a: "jv_type v = JsonArray"
    using assms(1) by (auto simp: binance_decode_side_def split: if_splits prod.splits)
  from binance_side.side_walk [OF f assms(2)] show ?thesis using True a unfolding binance_side_levels_def by auto
qed

definition both_sides :: "instrument_spec \<Rightarrow> json_value \<Rightarrow> json_value \<Rightarrow> level_update list \<Rightarrow> bool" where
  "both_sides spec bids asks ls \<longleftrightarrow>
     (\<exists>bs as. binance_side_levels spec Bid bids bs \<and> binance_side_levels spec Ask asks as \<and> ls = bs @ as)"

lemma decode_sides_shape:
  assumes "dm_ok m" "dm_levels m = []"
  shows "dm_levels (decode_sides spec bids asks m) = [] \<and> \<not> dm_ok (decode_sides spec bids asks m) \<or>
     (\<exists>ls. decode_sides spec bids asks m = m\<lparr>dm_levels := ls\<rparr> \<and> both_sides spec bids asks ls \<and>
        length ls \<le> kMaxLevelsPerMessage)"
proof -
  obtain ok1 m1 where b: "binance_decode_side spec bids Bid m = (ok1, m1)" by (metis prod.collapse)
  obtain ok2 m2 where a: "binance_decode_side spec asks Ask m1 = (ok2, m2)" by (metis prod.collapse)
  show ?thesis
  proof (cases "ok1 \<and> ok2")
    case False
    then show ?thesis using a b by (cases ok1; cases ok2) (simp_all add: decode_sides_def)
  next
    case True
    obtain bs where bs: "binance_side_levels spec Bid bids bs" "m1 = m\<lparr>dm_levels := bs\<rparr>"
        "length (dm_levels m1) \<le> kMaxLevelsPerMessage"
      using binance_decode_side_ok [of spec bids Bid m m1] b True assms(2) by auto
    obtain as' where as': "binance_side_levels spec Ask asks as'" "m2 = m\<lparr>dm_levels := bs @ as'\<rparr>"
        "length (dm_levels m2) \<le> kMaxLevelsPerMessage"
      using binance_decode_side_ok [of spec asks Ask m1 m2] a True bs by auto
    have "decode_sides spec bids asks m = m\<lparr>dm_levels := bs @ as'\<rparr>"
      using a b True as'(2) by (simp add: decode_sides_def)
    moreover have "both_sides spec bids asks (bs @ as')" using bs(1) as'(1) unfolding both_sides_def by blast
    moreover have "length (bs @ as') \<le> kMaxLevelsPerMessage" using as'(2,3) by simp
    ultimately show ?thesis by blast
  qed
qed

section \<open>Fields\<close>

definition fields_of :: "(string \<times> string) list \<Rightarrow> payload_fields" where
  "fields_of ms = \<lparr>pf_event = lookup ms ''e'', pf_code = lookup ms ''code'', pf_msg = lookup ms ''msg'',
     pf_symbol = lookup ms ''s'', pf_event_ms = lookup ms ''E'', pf_first_id = lookup ms ''U'',
     pf_final_id = lookup ms ''u'', pf_prev_id = lookup ms ''pu'', pf_bids = lookup ms ''b'', pf_asks = lookup ms ''a''\<rparr>"

definition fields_after :: "(string \<times> string) list \<Rightarrow> payload_fields \<Rightarrow> payload_fields" where
  "fields_after ms f = \<lparr>pf_event = capture_in (pf_event f) ms ''e'', pf_code = capture_in (pf_code f) ms ''code'',
     pf_msg = capture_in (pf_msg f) ms ''msg'', pf_symbol = capture_in (pf_symbol f) ms ''s'',
     pf_event_ms = capture_in (pf_event_ms f) ms ''E'', pf_first_id = capture_in (pf_first_id f) ms ''U'',
     pf_final_id = capture_in (pf_final_id f) ms ''u'', pf_prev_id = capture_in (pf_prev_id f) ms ''pu'',
     pf_bids = capture_in (pf_bids f) ms ''b'', pf_asks = capture_in (pf_asks f) ms ''a''\<rparr>"

lemma fields_after0: "fields_after ms payload_fields0 = fields_of ms"
  by (simp add: fields_after_def fields_of_def payload_fields0_def capture_in_simps)

lemma fields_after_Cons:
  assumes "jv_ok (value_text t)"
  shows "fields_after ((k, t) # ms) f = fields_after ms (snd (consume k (value_text t) f))"
  unfolding fields_after_def capture_in_simps(2) [OF assms] by (simp add: consume_def)

lemma walk_consume: "members_ok ms \<Longrightarrow> walk_members consume ms f = (True, fields_after ms f)"
proof (induction ms arbitrary: f)
  case Nil
  then show ?case by (simp add: fields_after_def capture_in_simps)
next
  case (Cons m ms)
  obtain k t where m: "m = (k, t)" by (cases m)
  have ok: "jv_ok (value_text t)" "members_ok ms" using Cons.prems m by auto
  have g: "fst (consume k (value_text t) f)" by (simp add: consume_def)
  show ?case
    unfolding m walk_on [of consume, OF g] fields_after_Cons [OF ok(1)] Cons.IH [OF ok(2)] by (rule refl)
qed

lemma consume_data: "consume ''data'' v f = (True, f)"
  by (simp add: consume_def)

lemma walk_envelope:
  "members_ok ms \<Longrightarrow> walk_members envelope_member ms (f, w) = (True, (fields_after ms f, capture_in w ms ''data''))"
proof (induction ms arbitrary: f w)
  case Nil
  then show ?case by (simp add: fields_after_def capture_in_simps)
next
  case (Cons m ms)
  obtain k t where m: "m = (k, t)" by (cases m)
  have ok: "jv_ok (value_text t)" "members_ok ms" using Cons.prems m by auto
  have e: "envelope_member k (value_text t) (f, w) =
      (True, (snd (consume k (value_text t) f), if k = ''data'' then capture w (value_text t) else w))"
    by (simp add: envelope_member_def consume_def)
  show ?case
    using walk_on [of envelope_member k t "(f, w)" ms] Cons.IH [OF ok(2)]
    unfolding m fields_after_Cons [OF ok(1)] capture_in_simps(2) [OF ok(1)] e by simp
qed

lemma walk_snapshot:
  assumes "members_ok ms"
  shows "walk_members snapshot_member ms (l, b, a) =
     (True, (capture_in l ms ''lastUpdateId'', capture_in b ms ''bids'', capture_in a ms ''asks''))"
  using assms
  by (induction ms arbitrary: l b a) (auto simp: snapshot_member_def capture_in_simps)

lemma binance_keep_going: "keeps_going consume" "keeps_going envelope_member" "keeps_going snapshot_member"
  by (auto simp: keeps_going_def consume_def envelope_member_def snapshot_member_def)


section \<open>What an accepted frame says\<close>

lemma same_folded_iff: "length a = length b \<Longrightarrow> same_folded a b \<longleftrightarrow> map fold_case a = map fold_case b"
  by (induction a b rule: list_induct2) auto

lemma equals_ignore_case_iff: "equals_ignore_case a b \<longleftrightarrow> map fold_case a = map fold_case b"
  using same_folded_iff [of a b] by (auto simp: equals_ignore_case_def dest: map_eq_imp_length_eq)

text \<open>A number member of an identifier, and the event time in nanoseconds.\<close>

definition reads_u64 :: "json_value \<Rightarrow> u64 \<Rightarrow> bool" where
  "reads_u64 v n \<longleftrightarrow> number_token v \<noteq> [] \<and> all_digits (number_token v) \<and> unat n = digits_value (number_token v)"

lemma parse_u64_reads: "parse_u64 (number_token v) = Some n \<longleftrightarrow> reads_u64 v n"
proof -
  have "unat n = d \<longleftrightarrow> d \<le> 18446744073709551615 \<and> n = of_nat d" for d
    using unsigned_less [of n, where ?'a = nat] by (auto simp: unat_of_nat)
  then show ?thesis unfolding parse_u64_iff reads_u64_def by blast
qed

definition event_ns :: "json_value \<Rightarrow> int \<Rightarrow> bool" where
  "event_ns v ts \<longleftrightarrow>
     (\<exists>n. reads_u64 v n \<and> uint n * 1000000 \<le> i64_max \<and> ts = uint n * 1000000) \<or>
     (\<nexists>n. reads_u64 v n \<and> uint n * 1000000 \<le> i64_max) \<and> ts = 0"

lemma kMaxEventMs_fits: "n \<le> kMaxEventMs \<longleftrightarrow> uint n * 1000000 \<le> i64_max"
proof -
  have "k \<le> 9223372036854 \<longleftrightarrow> k * 1000000 \<le> 9223372036854775807" for k :: int by linarith
  then show ?thesis by (simp add: kMaxEventMs_def i64_max_def word_le_def)
qed

lemma reads_u64_unique: "reads_u64 v a \<Longrightarrow> reads_u64 v b \<Longrightarrow> a = b"
  by (metis reads_u64_def unsigned_word_eqI)

lemma event_time_ns:
  assumes "dm_ts m = 0"
  shows "\<exists>ts. event_time f m = m\<lparr>dm_ts := ts\<rparr> \<and> event_ns (pf_event_ms f) ts"
proof (cases "parse_u64 (number_token (pf_event_ms f))")
  case None
  then have "\<not> reads_u64 (pf_event_ms f) n" for n using parse_u64_reads by (metis option.distinct(1))
  moreover have "event_time f m = m\<lparr>dm_ts := 0\<rparr>" using None assms by (simp add: event_time_def)
  ultimately show ?thesis unfolding event_ns_def by blast
next
  case (Some n)
  then have r: "reads_u64 (pf_event_ms f) n" using parse_u64_reads by blast
  show ?thesis
  proof (cases "n \<le> kMaxEventMs")
    case True
    have "event_time f m = m\<lparr>dm_ts := uint n * 1000000\<rparr>" using Some True by (simp add: event_time_def)
    moreover have "event_ns (pf_event_ms f) (uint n * 1000000)"
      using r True unfolding kMaxEventMs_fits event_ns_def by auto
    ultimately show ?thesis by blast
  next
    case False
    have "event_time f m = m\<lparr>dm_ts := 0\<rparr>" using Some False assms by (simp add: event_time_def)
    moreover have "event_ns (pf_event_ms f) 0"
    proof -
      have "\<not> uint k * 1000000 \<le> i64_max" if "reads_u64 (pf_event_ms f) k" for k
        using False that reads_u64_unique [OF r that] unfolding kMaxEventMs_fits by blast
      then show ?thesis unfolding event_ns_def by blast
    qed
    ultimately show ?thesis by blast
  qed
qed

text \<open>The members of a depth update, and those of a snapshot.\<close>

definition says_depth ::
    "instrument_spec \<Rightarrow> binance_market \<Rightarrow> (string \<times> string) list \<Rightarrow> decoded_message \<Rightarrow> bool" where
  "says_depth spec market ms m \<longleftrightarrow>
     string_equals (lookup ms ''e'') ''depthUpdate'' \<and> dm_symbol m = string_body (lookup ms ''s'') \<and>
     (dm_symbol m = [] \<or> map fold_case (dm_symbol m) = map fold_case (is_symbol spec)) \<and>
     event_ns (lookup ms ''E'') (dm_ts m) \<and> dm_has_ids m \<and>
     reads_u64 (lookup ms ''U'') (first_id (dm_ids m)) \<and> reads_u64 (lookup ms ''u'') (final_id (dm_ids m)) \<and>
     (if market = Futures then reads_u64 (lookup ms ''pu'') (prev_id (dm_ids m)) else prev_id (dm_ids m) = 0) \<and>
     both_sides spec (lookup ms ''b'') (lookup ms ''a'') (dm_levels m) \<and>
     length (dm_levels m) \<le> kMaxLevelsPerMessage \<and> \<not> dm_has_checksum m"

text \<open>The object the fields are read from: that of \<open>data\<close> when the frame has one, the frame itself otherwise.\<close>

definition depth_payload :: "string \<Rightarrow> (string \<times> string) list \<Rightarrow> bool" where
  "depth_payload frame ms \<longleftrightarrow>
     (\<exists>outer. json_object frame outer \<and>
        (if jv_ok (lookup outer ''data'') \<and> jv_type (lookup outer ''data'') = JsonObject
         then json_object (jv_raw (lookup outer ''data'')) ms else ms = outer))"

lemma decode_payload_cases:
  obtains (other) "dm_levels (decode_payload spec market (fields_of ms) decoded_message_reset) = []"
      "dm_ok (decode_payload spec market (fields_of ms) decoded_message_reset)"
      "dm_kind (decode_payload spec market (fields_of ms) decoded_message_reset) \<in> {KindIgnored, KindVenueError}"
  | (failed) "dm_levels (decode_payload spec market (fields_of ms) decoded_message_reset) = []"
      "\<not> dm_ok (decode_payload spec market (fields_of ms) decoded_message_reset)"
  | (depth) "says_depth spec market ms (decode_payload spec market (fields_of ms) decoded_message_reset)"
      "dm_ok (decode_payload spec market (fields_of ms) decoded_message_reset)"
      "dm_kind (decode_payload spec market (fields_of ms) decoded_message_reset) = KindUpdate"
proof -
  let ?f = "fields_of ms" and ?r = "decoded_message_reset"
  let ?d = "decode_payload spec market (fields_of ms) decoded_message_reset"
  let ?m = "?r\<lparr>dm_symbol := string_body (lookup ms ''s''), dm_kind := KindUpdate\<rparr>"
  show ?thesis
  proof (cases "jv_ok (lookup ms ''e'') \<and> string_equals (lookup ms ''e'') ''depthUpdate'' \<and>
      (string_body (lookup ms ''s'') = [] \<or> equals_ignore_case (string_body (lookup ms ''s'')) (is_symbol spec))")
    case False
    then have "dm_levels ?d = [] \<and> dm_ok ?d \<and> dm_kind ?d \<in> {KindIgnored, KindVenueError}"
      by (auto simp: decode_payload_def fields_of_def Let_def decoded_message_reset_def dm_ok_def)
    then show ?thesis using other by blast
  next
    case True
    have "dm_ts ?m = 0" by (simp add: decoded_message_reset_def)
    then obtain ts where ts: "event_time ?f ?m = ?m\<lparr>dm_ts := ts\<rparr>" "event_ns (lookup ms ''E'') ts"
      using event_time_ns [of ?m ?f] by (auto simp: fields_of_def)
    define g where "g = (\<lambda>first final prev. ?m\<lparr>dm_ts := ts, dm_ids := \<lparr>first_id = first, final_id = final, prev_id = prev\<rparr>,
        dm_has_ids := True\<rparr>)"
    let ?U = "parse_u64 (number_token (lookup ms ''U''))" and ?u = "parse_u64 (number_token (lookup ms ''u''))"
      and ?p = "parse_u64 (number_token (lookup ms ''pu''))"
    have d: "?d = (case (?U, ?u) of (Some first, Some final) \<Rightarrow>
          if market = Futures then
            (case ?p of None \<Rightarrow> fail DecodeBadSequence (?m\<lparr>dm_ts := ts, dm_ids := \<lparr>first_id = first, final_id = final, prev_id = 0\<rparr>\<rparr>)
             | Some prev \<Rightarrow> decode_sides spec (lookup ms ''b'') (lookup ms ''a'') (g first final prev))
          else decode_sides spec (lookup ms ''b'') (lookup ms ''a'') (g first final 0)
        | _ \<Rightarrow> fail DecodeBadSequence (?m\<lparr>dm_ts := ts\<rparr>))"
      using True ts(1)
      by (auto simp: decode_payload_def fields_of_def Let_def g_def decoded_message_reset_def split: option.split)
    show ?thesis
    proof (cases "\<exists>first final prev. ?U = Some first \<and> ?u = Some final \<and> (if market = Futures then ?p = Some prev else prev = 0)")
      case False
      then have "dm_levels ?d = [] \<and> \<not> dm_ok ?d"
        unfolding d by (auto split: option.splits if_splits)
      then show ?thesis using failed by blast
    next
      case True
      then obtain first final prev where i: "?U = Some first" "?u = Some final"
          "if market = Futures then ?p = Some prev else prev = 0" by blast
      have e: "?d = decode_sides spec (lookup ms ''b'') (lookup ms ''a'') (g first final prev)"
        unfolding d using i by (auto split: if_splits)
      have g: "dm_ok (g first final prev)" "dm_levels (g first final prev) = []"
        by (simp_all add: g_def dm_ok_def decoded_message_reset_def)
      from decode_sides_shape [OF g, of spec "lookup ms ''b''" "lookup ms ''a''"]
      show ?thesis
      proof (elim disjE exE conjE)
        assume "dm_levels (decode_sides spec (lookup ms ''b'') (lookup ms ''a'') (g first final prev)) = []"
          "\<not> dm_ok (decode_sides spec (lookup ms ''b'') (lookup ms ''a'') (g first final prev))"
        then show ?thesis using failed unfolding e by blast
      next
        fix ls
        assume ls: "decode_sides spec (lookup ms ''b'') (lookup ms ''a'') (g first final prev) = g first final prev\<lparr>dm_levels := ls\<rparr>"
          "both_sides spec (lookup ms ''b'') (lookup ms ''a'') ls" "length ls \<le> kMaxLevelsPerMessage"
        have "says_depth spec market ms ?d"
          unfolding e ls(1) says_depth_def
          using ls(2,3) ts(2) i \<open>jv_ok _ \<and> _\<close>
          by (auto simp: g_def parse_u64_reads equals_ignore_case_iff decoded_message_reset_def split: if_splits)
        moreover have "dm_ok ?d" "dm_kind ?d = KindUpdate"
          unfolding e ls(1) by (simp_all add: g_def dm_ok_def decoded_message_reset_def)
        ultimately show ?thesis using depth by blast
      qed
    qed
  qed
qed


lemma binance_frame_cases:
  obtains (foreign) "\<not> (\<exists>ms. json_object frame ms)"
      "binance_decode spec market frame =
        (if well_formed frame then decoded_message_reset\<lparr>dm_kind := KindIgnored\<rparr> else fail DecodeMalformed decoded_message_reset)"
  | (broken) "binance_decode spec market frame = fail DecodeMalformed decoded_message_reset" "\<exists>ms. json_object frame ms"
  | (payload) ms where "depth_payload frame ms"
      "binance_decode spec market frame = decode_payload spec market (fields_of ms) decoded_message_reset"
proof -
  obtain walked st where w: "for_each_member envelope_member frame (payload_fields0, json_value0) = (walked, st)"
    by (metis prod.collapse)
  obtain outer wrapped where st: "st = (outer, wrapped)" by (cases st)
  show ?thesis
  proof (cases walked)
    case False
    have "\<not> json_object frame ms" for ms
      using for_each_member_object [of frame ms envelope_member "(payload_fields0, json_value0)"]
        walk_envelope [OF json_object_ok, of frame ms] w False by auto
    then show ?thesis using foreign w st False by (simp add: binance_decode_def)
  next
    case True
    obtain ms where ms: "json_object frame ms" "members_ok ms"
        "st = snd (walk_members envelope_member ms (payload_fields0, json_value0))"
      using walked_object [of envelope_member frame _ st] w True binance_keep_going(2) by metis
    then have o: "outer = fields_of ms" "wrapped = lookup ms ''data''"
      using st walk_envelope [OF ms(2), of payload_fields0 json_value0]
      by (simp_all add: fields_after0 capture_in_simps)
    show ?thesis
    proof (cases "jv_ok wrapped \<and> jv_type wrapped = JsonObject")
      case False
      then have "depth_payload frame ms" using ms(1) o(2) unfolding depth_payload_def by auto
      then show ?thesis using payload w st True False o(1) by (simp add: binance_decode_def)
    next
      case wrap: True
      obtain ok f where f: "for_each_member consume (jv_raw wrapped) payload_fields0 = (ok, f)" by fastforce
      show ?thesis
      proof (cases ok)
        case False
        then show ?thesis using broken w st True wrap f ms(1) by (auto simp: binance_decode_def)
      next
        case ok: True
        obtain ps where ps: "json_object (jv_raw wrapped) ps" "members_ok ps"
            "f = snd (walk_members consume ps payload_fields0)"
          using walked_object [of consume "jv_raw wrapped" payload_fields0 f] f ok binance_keep_going(1) by metis
        have "f = fields_of ps" unfolding ps(3) walk_consume [OF ps(2)] fields_after0 snd_conv by (rule refl)
        moreover have "depth_payload frame ps" using ms(1) ps(1) wrap unfolding depth_payload_def o(2) by (intro exI [of _ ms]) simp
        moreover have "binance_decode spec market frame = decode_payload spec market f decoded_message_reset"
          unfolding binance_decode_def w st f Let_def prod.case using True wrap ok by simp
        ultimately show ?thesis using payload by simp
      qed
    qed
  qed
qed

lemma binance_update_facts:
  assumes "dm_ok (binance_decode spec market frame)" "dm_kind (binance_decode spec market frame) \<noteq> KindIgnored"
    "dm_kind (binance_decode spec market frame) \<noteq> KindVenueError"
  shows "dm_kind (binance_decode spec market frame) = KindUpdate \<and>
     (\<exists>ms. depth_payload frame ms \<and> says_depth spec market ms (binance_decode spec market frame))"
proof (cases rule: binance_frame_cases [of frame spec market])
  case foreign
  then show ?thesis using assms by (auto split: if_splits)
next
  case broken
  then show ?thesis using assms by simp
next
  case (payload ms)
  then show ?thesis using assms by (cases rule: decode_payload_cases [of spec market ms]) auto
qed

lemma binance_empty:
  assumes "\<not> dm_ok (binance_decode spec market frame) \<or> dm_kind (binance_decode spec market frame) \<noteq> KindUpdate"
  shows "dm_levels (binance_decode spec market frame) = []"
proof (cases rule: binance_frame_cases [of frame spec market])
  case (payload ms)
  then show ?thesis using assms by (cases rule: decode_payload_cases [of spec market ms]) auto
qed (simp_all add: decoded_message_reset_def)

text \<open>The snapshot body.\<close>

definition says_depth_snapshot :: "instrument_spec \<Rightarrow> string \<Rightarrow> decoded_message \<Rightarrow> bool" where
  "says_depth_snapshot spec body m \<longleftrightarrow>
     (\<exists>ms n. json_object body ms \<and> reads_u64 (lookup ms ''lastUpdateId'') n \<and>
        dm_ids m = \<lparr>first_id = n, final_id = n, prev_id = n\<rparr> \<and> dm_has_ids m \<and> dm_kind m = KindSnapshot \<and>
        both_sides spec (lookup ms ''bids'') (lookup ms ''asks'') (dm_levels m) \<and>
        length (dm_levels m) \<le> kMaxLevelsPerMessage \<and> \<not> dm_has_checksum m)"

lemma snapshot_shape:
  "(dm_levels (binance_decode_snapshot spec body) = [] \<and> \<not> dm_ok (binance_decode_snapshot spec body)) \<or>
   (dm_ok (binance_decode_snapshot spec body) \<and> says_depth_snapshot spec body (binance_decode_snapshot spec body))"
proof -
  obtain walked st where w: "for_each_member snapshot_member body (json_value0, json_value0, json_value0) = (walked, st)"
    by (metis prod.collapse)
  show ?thesis
  proof (cases walked)
    case False
    then show ?thesis using w by (simp add: binance_decode_snapshot_def)
  next
    case True
    obtain ms where ms: "json_object body ms" "members_ok ms"
        "st = snd (walk_members snapshot_member ms (json_value0, json_value0, json_value0))"
      using walked_object [of snapshot_member body _ st] w True binance_keep_going(3) by metis
    then have st: "st = (lookup ms ''lastUpdateId'', lookup ms ''bids'', lookup ms ''asks'')"
      using walk_snapshot [OF ms(2), of json_value0 json_value0 json_value0] by (simp add: capture_in_simps)
    show ?thesis
    proof (cases "parse_u64 (number_token (lookup ms ''lastUpdateId''))")
      case None
      then show ?thesis using w True st by (simp add: binance_decode_snapshot_def)
    next
      case (Some n)
      let ?m = "decoded_message_reset\<lparr>dm_kind := KindSnapshot, dm_ids := \<lparr>first_id = n, final_id = n, prev_id = n\<rparr>, dm_has_ids := True\<rparr>"
      have e: "binance_decode_snapshot spec body = decode_sides spec (lookup ms ''bids'') (lookup ms ''asks'') ?m"
        using w True st Some by (simp add: binance_decode_snapshot_def)
      have m: "dm_ok ?m" "dm_levels ?m = []" by (simp_all add: decoded_message_reset_def dm_ok_def)
      from decode_sides_shape [OF m, of spec "lookup ms ''bids''" "lookup ms ''asks''"]
      show ?thesis unfolding e
      proof (elim disjE exE conjE)
        fix ls
        assume ls: "decode_sides spec (lookup ms ''bids'') (lookup ms ''asks'') ?m = ?m\<lparr>dm_levels := ls\<rparr>"
          "both_sides spec (lookup ms ''bids'') (lookup ms ''asks'') ls" "length ls \<le> kMaxLevelsPerMessage"
        have "reads_u64 (lookup ms ''lastUpdateId'') n" using Some parse_u64_reads by blast
        then have "says_depth_snapshot spec body (?m\<lparr>dm_levels := ls\<rparr>)"
          unfolding says_depth_snapshot_def using ls(2,3) ms(1)
          by (intro exI [of _ ms] exI [of _ n]) (simp add: decoded_message_reset_def)
        moreover have "dm_ok (?m\<lparr>dm_levels := ls\<rparr>)" by (simp add: decoded_message_reset_def dm_ok_def)
        ultimately show "dm_levels (decode_sides spec (lookup ms ''bids'') (lookup ms ''asks'') ?m) = [] \<and>
            \<not> dm_ok (decode_sides spec (lookup ms ''bids'') (lookup ms ''asks'') ?m) \<or>
            dm_ok (decode_sides spec (lookup ms ''bids'') (lookup ms ''asks'') ?m) \<and>
            says_depth_snapshot spec body (decode_sides spec (lookup ms ''bids'') (lookup ms ''asks'') ?m)"
          unfolding ls(1) by blast
      qed blast
    qed
  qed
qed

lemma both_sides_i64: "both_sides spec bids asks ls \<Longrightarrow> l \<in> set ls \<Longrightarrow> i64 (ticks (lu_price l)) \<and> i64 (units (lu_qty l))"
  using binance_side.levels_fit by (auto simp: both_sides_def binance_side_levels_def split: if_splits)

lemma binance_decoder_ok: "decoder_ok binance_decoder"
proof -
  have "message_ok (binance_decode spec market frame)" for spec market frame
  proof (cases "dm_ok (binance_decode spec market frame) \<and> dm_kind (binance_decode spec market frame) = KindUpdate")
    case True
    then show ?thesis
      using binance_update_facts [of spec market frame] both_sides_i64
      by (auto simp: says_depth_def message_ok_def)
  next
    case False
    then show ?thesis using binance_empty [of spec market frame] by (auto simp: message_ok_def)
  qed
  then show ?thesis by (simp add: decoder_ok_def binance_decoder_def)
qed

section \<open>Properties\<close>


definition binance_spec :: instrument_spec where
  "binance_spec = \<lparr>is_symbol = ''BTCUSDT'', is_price_scale = 2, is_qty_scale = 1\<rparr>"

definition depth_frame :: string where
  "depth_frame = quoted (''{~stream~:~btcusdt@depth~,~u~:7,~data~:{~e~:~depthUpdate~,~E~:1571889248277,~s~:~btcusdt~,'' @
     ''~U~:157,~u~:160,~pu~:149,~b~:[[~45.10~,~2.0~]],~a~:[[~45.20~,~0.5~,~x~]]}}'')"

lemma depth_frame_decoded:
  "binance_decode binance_spec Futures depth_frame = decoded_message_reset
     \<lparr>dm_kind := KindUpdate, dm_symbol := ''btcusdt'', dm_ts := 1571889248277000000,
      dm_ids := \<lparr>first_id = 157, final_id = 160, prev_id = 149\<rparr>, dm_has_ids := True,
      dm_levels := [level_update Bid (Price 4510) (Qty 20), level_update Ask (Price 4520) (Qty 5)]\<rparr>"
  by code_simp


text \<open>
  C8: an accepted snapshot is what the body says, and a failure leaves nothing.  \<open>decode_snapshot\<close> either returns an
  error and no level, or a snapshot whose three identifiers are \<open>lastUpdateId\<close> and whose levels are those of the two
  arrays; and \<open>decode\<close> returns no level with an error, an ignored frame or a venue error.
\<close>

theorem binance_snapshot_or_nothing:
  "((dm_levels (binance_decode_snapshot spec body) = [] \<and> \<not> dm_ok (binance_decode_snapshot spec body)) \<or>
    (dm_ok (binance_decode_snapshot spec body) \<and> says_depth_snapshot spec body (binance_decode_snapshot spec body))) \<and>
   ((dm_ok (binance_decode spec market frame) \<and> dm_kind (binance_decode spec market frame) = KindUpdate) \<or>
    dm_levels (binance_decode spec market frame) = [])"
  using snapshot_shape [of spec body] binance_empty [of spec market frame] by blast


text \<open>The update a synced feed applies: its identifiers continue those the tracker holds.\<close>

lemma update_applied:
  assumes "apply_update_message impl msg f = Some (FeedApplied, f')" "dm_has_ids msg" "\<not> dm_has_checksum msg"
  shows "fd_synced f \<and> fst (on_update (dm_ids msg) (fd_tracker f)) = Apply \<and>
     fd_tracker f' = snd (on_update (dm_ids msg) (fd_tracker f))"
proof -
  obtain act t where a: "on_update (dm_ids msg) (fd_tracker f) = (act, t)" by fastforce
  have s: "fd_synced f" "act = Apply"
    using assms(1,2) a by (auto simp: apply_update_message_def Let_def split: if_splits sequence_action.splits dest!: arg_cong [of _ _ fst])
  then obtain g where g: "apply_levels impl msg (f\<lparr>fd_tracker := t\<rparr>) = Some g" "f' = count_applied g"
    using assms a by (auto simp: apply_update_message_def verified_status_def Let_def split: option.splits)
  then show ?thesis using s a apply_levels_fields(2) [OF g(1)] by simp
qed

lemma on_update_apply:
  assumes "fst (on_update u t) = Apply"
  shows "tr_have_snapshot t \<and>
     (if tr_straddled t then linked (tr_policy t) (tr_last_final_id t) u
      else meets_snapshot (tr_policy t) (tr_snapshot_id t) u) \<and>
     tr_last_final_id (snd (on_update u t)) = final_id u"
proof -
  have h: "tr_have_snapshot t" using assms by (rule_tac ccontr) (simp add: on_update_def)
  then show ?thesis
    using assms by (cases "tr_straddled t") (auto simp: on_update_straddled on_update_first split: if_splits)
qed

text \<open>
  C4: a Binance feed never bridges a gap.  When a feed with this decoder and the policy of its market reports a
  frame as applied, it was synced, the frame is a depth update that says the message, and its own \<open>U\<close> and \<open>u\<close>, on
  futures \<open>pu\<close>, continue the last applied update, or meet the snapshot for the first one; the feed then stands at
  the frame's \<open>u\<close>, and the book carries the frame's time.
\<close>

theorem binance_applied_continues:
  assumes "handle impl binance_decoder frame f = Some (FeedApplied, f')"
    and "tr_policy (fd_tracker f) = binance_policy (snd (fd_decoder f))"
  shows "\<exists>ms m. depth_payload frame ms \<and> says_depth (fst (fd_decoder f)) (snd (fd_decoder f)) ms m \<and> fd_synced f \<and>
     (if tr_straddled (fd_tracker f)
      then linked (if snd (fd_decoder f) = Spot then BinanceSpot else BinanceFutures) (tr_last_final_id (fd_tracker f)) (dm_ids m)
      else meets_snapshot (if snd (fd_decoder f) = Spot then BinanceSpot else BinanceFutures) (tr_snapshot_id (fd_tracker f)) (dm_ids m)) \<and>
     tr_last_final_id (fd_tracker f') = final_id (dm_ids m) \<and> bk_last_update (fd_book f') = dm_ts m"
proof -
  let ?m = "binance_decode (fst (fd_decoder f)) (snd (fd_decoder f)) frame"
  have d: "fst (dec_decode binance_decoder frame (fd_decoder f)) = ?m" by (simp add: binance_decoder_def)
  have ok: "dm_ok ?m \<and> dm_kind ?m \<noteq> KindIgnored \<and> dm_kind ?m \<noteq> KindVenueError"
    using assms(1) by (cases "dm_kind ?m") (auto simp: handle_def binance_decoder_def Let_def split: if_splits)
  then obtain ms where ms: "dm_kind ?m = KindUpdate" "depth_payload frame ms"
      "says_depth (fst (fd_decoder f)) (snd (fd_decoder f)) ms ?m"
    using binance_update_facts [of "fst (fd_decoder f)" "snd (fd_decoder f)" frame] by blast
  have ids: "dm_has_ids ?m" "\<not> dm_has_checksum ?m" using ms(3) by (simp_all add: says_depth_def)
  let ?f1 = "f\<lparr>fd_stats := (fd_stats f)\<lparr>fs_frames := fs_frames (fd_stats f) + 1\<rparr>, fd_decoder := fd_decoder f\<rparr>"
  have "apply_update_message impl ?m ?f1 = Some (FeedApplied, f')"
    using assms(1) ok ms(1) by (simp add: handle_def binance_decoder_def Let_def)
  from update_applied [OF this ids] have u: "fd_synced f" "fst (on_update (dm_ids ?m) (fd_tracker f)) = Apply"
      "fd_tracker f' = snd (on_update (dm_ids ?m) (fd_tracker f))" by simp_all
  show ?thesis
    using u(1,3) on_update_apply [OF u(2), unfolded assms(2) binance_policy_def] ms(2,3) status_facts [OF assms(1), unfolded d]
    by (intro exI [of _ ms] exI [of _ ?m]) simp
qed


definition first_frame :: string where
  "first_frame = quoted ''{~e~:~depthUpdate~,~U~:8,~u~:12,~b~:[[~45.10~,~0.0~]]}''"

definition snapshot_body :: string where
  "snapshot_body = quoted ''{~lastUpdateId~:10,~bids~:[[~45.10~,~2.0~]],~asks~:[]}''"

definition binance_feed :: "(map_side, instrument_spec \<times> binance_market) feed" where
  "binance_feed =
     (case apply_snapshot_message map_impl (binance_decode_snapshot binance_spec snapshot_body)
         (feed_new map_impl binance_decoder ''binance'' (binance_spec, Spot) (binance_policy Spot) 0) of
        Some (_, f) \<Rightarrow> f | None \<Rightarrow> feed_new map_impl binance_decoder ''binance'' (binance_spec, Spot) (binance_policy Spot) 0)"

lemma first_frame_applied:
  "map_option fst (handle map_impl binance_decoder first_frame binance_feed) = Some FeedApplied"
  "tr_policy (fd_tracker binance_feed) = binance_policy (snd (fd_decoder binance_feed))"
  "map_option (\<lambda>(_, f). si_levels map_impl (book_side_of Bid (fd_book f)))
     (handle map_impl binance_decoder first_frame binance_feed) = Some []"
  "tr_straddled (fd_tracker binance_feed) = False" "tr_snapshot_id (fd_tracker binance_feed) = 10"
  "snd (fd_decoder binance_feed) = Spot"
  by code_simp+

theorem binance_applied_continues_witness:
  "\<exists>f' ms (m :: decoded_message). handle map_impl binance_decoder first_frame binance_feed = Some (FeedApplied, f') \<and>
     depth_payload first_frame ms \<and> meets_snapshot BinanceSpot 10 (dm_ids m)"
proof -
  obtain f' where h: "handle map_impl binance_decoder first_frame binance_feed = Some (FeedApplied, f')"
    using first_frame_applied(1) by (auto simp: map_option_case split: option.splits)
  show ?thesis
    using binance_applied_continues [OF h first_frame_applied(2)] h first_frame_applied(4-6)
    by (simp only: if_False if_True simp_thms) blast
qed

text \<open>
  A symbol spelt with an escape is read as no symbol at all, so another instrument's levels pass the routing check;
  the same frame without the escape is ignored.
\<close>

theorem escaped_symbol_is_not_routed:
  "dm_levels (binance_decode binance_spec Spot
     (quoted ''{~e~:~depthUpdate~,~s~:~ETH^/USDT~,~U~:1,~u~:2,~b~:[[~45.10~,~2.0~]]}'')) =
     [level_update Bid (Price 4510) (Qty 20)] \<and>
   string_equals (value_text (quoted ''~ETH^/USDT~'')) ''ETH/USDT'' \<and>
   dm_kind (binance_decode binance_spec Spot
     (quoted ''{~e~:~depthUpdate~,~s~:~ETH/USDT~,~U~:1,~u~:2,~b~:[[~45.10~,~2.0~]]}'')) = KindIgnored"
  by code_simp

end
