(* ===== verification/Spec2Isabelle.thy ===== *)
theory Spec2Isabelle
  imports Fixed_Decimal Book_Props Feed L3_Props Execution Ws_Client Kraken Binance
begin

text \<open>
  A verification library for crossbook, a C++ library that keeps order books in exact agreement
  with the exchanges they mirror.
\<close>

text \<open>
  C9: both decoders are typed.  Whatever text they are given, every level they hand to the book has a price and a
  quantity within the 64-bit fields, which is what the containers and the feeds assume of a decoder.
\<close>

theorem decoded_levels_fit: "decoder_ok kraken_decoder \<and> decoder_ok binance_decoder"
  by (intro conjI kraken_decoder_ok binance_decoder_ok)

end
